(* ===== verification/Prelude.thy ===== *)
theory Prelude
  imports Main "HOL-Library.Word"
begin

text \<open>
  The vocabulary every component of the model shares: machine integers, byte strings,
  the outcome of a Rust function (a value, an \<open>io::Error\<close>, \<open>Poll::Pending\<close> or
  a panic), the sequencing of such functions over an explicit state, and the generic
  lemmas on lists, slices and words that carry the component proofs.
\<close>

section \<open>Machine integers and byte strings\<close>

text \<open>
  \<open>u8\<close>, \<open>u32\<close> and \<open>u64\<close> are words of their width. A \<open>usize\<close> counts bytes of
  slices in memory; it is a natural number, and the operations of the source that
  guard its overflow (\<open>checked_add\<close>, \<open>checked_mul\<close>, \<open>saturating_add\<close>) write the
  bound out. The width of a \<open>usize\<close> is that of the 64-bit targets the crate is tested on.
\<close>

type_synonym u8 = "8 word"
type_synonym u32 = "32 word"
type_synonym u64 = "64 word"
type_synonym usize = nat
type_synonym bytes = "u8 list"

definition usize_bits :: nat where
  "usize_bits = 64"

definition usize_max :: usize where
  "usize_max = 2 ^ usize_bits - 1"

definition as_usize :: "nat \<Rightarrow> u64 \<Rightarrow> usize" where
  "as_usize w x = unat x mod 2 ^ w"

definition checked_add :: "usize \<Rightarrow> usize \<Rightarrow> usize option" where
  "checked_add a b = (if a + b \<le> usize_max then Some (a + b) else None)"

definition checked_mul :: "usize \<Rightarrow> usize \<Rightarrow> usize option" where
  "checked_mul a b = (if a * b \<le> usize_max then Some (a * b) else None)"

definition saturating_add :: "usize \<Rightarrow> usize \<Rightarrow> usize" where
  "saturating_add a b = min (a + b) usize_max"

section \<open>Errors, panics and outcomes\<close>

text \<open>
  The observable part of an \<open>io::Error\<close> is its kind and its text. The source builds its
  own errors from the kinds named here; an I/O object may report any other kind.
\<close>

datatype error_kind = InvalidData | UnexpectedEof | WriteZero | Unsupported | OtherKind

datatype io_error = IoError (io_kind: error_kind) (io_text: string)

datatype panic =
    AssertFailed        \<comment> \<open>\<open>assert!\<close>, \<open>assert_eq!\<close>, \<open>debug_assert!\<close>\<close>
  | IndexOutOfRange     \<comment> \<open>a slice index or range outside the slice\<close>
  | ArithmeticOverflow  \<comment> \<open>an overflow with overflow checks enabled\<close>
  | UnwrapFailed        \<comment> \<open>\<open>unwrap\<close> or \<open>expect\<close> on a failure\<close>
  | UnreachableCode     \<comment> \<open>\<open>unreachable!\<close>\<close>
  | ExplicitPanic       \<comment> \<open>\<open>panic!\<close>\<close>

datatype 'a outcome = Ok 'a | Err io_error | Pending | Panic panic

text \<open>The \<open>?\<close> operator on a function without state, and with the state passed along.\<close>

definition bind_outcome :: "'a outcome \<Rightarrow> ('a \<Rightarrow> 'b outcome) \<Rightarrow> 'b outcome" where
  "bind_outcome m f =
     (case m of Ok x \<Rightarrow> f x | Err e \<Rightarrow> Err e | Pending \<Rightarrow> Pending | Panic p \<Rightarrow> Panic p)"

definition and_then ::
  "'a outcome \<times> 's \<Rightarrow> ('a \<Rightarrow> 's \<Rightarrow> 'b outcome \<times> 's) \<Rightarrow> 'b outcome \<times> 's" where
  "and_then m f =
     (case m of (r, s) \<Rightarrow>
       (case r of Ok x \<Rightarrow> f x s | Err e \<Rightarrow> (Err e, s) | Pending \<Rightarrow> (Pending, s)
        | Panic p \<Rightarrow> (Panic p, s)))"

text \<open>The same for a loop that may not end, whose result is \<open>None\<close> when it does not.\<close>

definition loop_then ::
  "'a outcome \<times> 's \<Rightarrow> ('a \<Rightarrow> 's \<Rightarrow> ('b outcome \<times> 's) option) \<Rightarrow> ('b outcome \<times> 's) option" where
  "loop_then m f =
     (case m of (r, s) \<Rightarrow>
       (case r of Ok x \<Rightarrow> f x s | Err e \<Rightarrow> Some (Err e, s) | Pending \<Rightarrow> Some (Pending, s)
        | Panic p \<Rightarrow> Some (Panic p, s)))"

text \<open>A panic, and \<open>expect\<close> and \<open>unwrap\<close> on an \<open>Option\<close> and on a \<open>Result\<close>.\<close>

fun panicked :: "'a outcome \<Rightarrow> bool" where
  "panicked (Panic p) = True"
| "panicked _ = False"

definition expect_some :: "'a option \<Rightarrow> 'a outcome" where
  "expect_some m = (case m of None \<Rightarrow> Panic UnwrapFailed | Some x \<Rightarrow> Ok x)"

definition expect_ok :: "'a outcome \<Rightarrow> 'a outcome" where
  "expect_ok m = (case m of Err e \<Rightarrow> Panic UnwrapFailed | _ \<Rightarrow> m)"

definition assert_that :: "bool \<Rightarrow> unit outcome" where
  "assert_that b = (if b then Ok () else Panic AssertFailed)"

section \<open>Slices\<close>

text \<open>Rust's slice expressions panic outside the slice.\<close>

definition slice_to :: "'a list \<Rightarrow> usize \<Rightarrow> 'a list outcome" where
  "slice_to xs n = (if n \<le> length xs then Ok (take n xs) else Panic IndexOutOfRange)"

definition slice_from :: "'a list \<Rightarrow> usize \<Rightarrow> 'a list outcome" where
  "slice_from xs n = (if n \<le> length xs then Ok (drop n xs) else Panic IndexOutOfRange)"

definition slice_range :: "'a list \<Rightarrow> usize \<Rightarrow> usize \<Rightarrow> 'a list outcome" where
  "slice_range xs i j =
     (if i \<le> j \<and> j \<le> length xs then Ok (drop i (take j xs)) else Panic IndexOutOfRange)"

text \<open>\<open>dst[i..i + len].copy_from_slice(src)\<close> with \<open>len\<close> the length of \<open>src\<close>.\<close>

definition copy_at :: "'a list \<Rightarrow> usize \<Rightarrow> 'a list \<Rightarrow> 'a list" where
  "copy_at xs i ys = take i xs @ ys @ drop (i + length ys) xs"

definition all_zero :: "bytes \<Rightarrow> bool" where
  "all_zero bs = list_all (\<lambda>b. b = 0) bs"

section \<open>Decimal text\<close>

text \<open>What \<open>format!\<close> prints for an unsigned integer.\<close>

definition digit_char :: "nat \<Rightarrow> char" where
  "digit_char d = char_of (48 + d)"

fun show_nat :: "nat \<Rightarrow> string" where
  "show_nat n =
     (if n < 10 then [digit_char n] else show_nat (n div 10) @ [digit_char (n mod 10)])"

declare show_nat.simps [simp del]

section \<open>Shared lemmas\<close>

named_theorems outcome_defs \<open>the sequencing operators, unfolded\<close>
named_theorems slice_defs \<open>the slice expressions, unfolded\<close>

declare bind_outcome_def [outcome_defs] and_then_def [outcome_defs]
  loop_then_def [outcome_defs] expect_some_def [outcome_defs] expect_ok_def [outcome_defs]
  assert_that_def [outcome_defs]

declare slice_to_def [slice_defs] slice_from_def [slice_defs] slice_range_def [slice_defs]

subsection \<open>Outcomes\<close>

lemma bind_outcome_simps [simp]:
  "bind_outcome (Ok x) f = f x"
  "bind_outcome (Err e) f = Err e"
  "bind_outcome Pending f = Pending"
  "bind_outcome (Panic p) f = Panic p"
  by (simp_all add: bind_outcome_def)

lemma and_then_simps [simp]:
  "and_then (Ok x, s) g = g x s"
  "and_then (Err e, s) g = (Err e, s)"
  "and_then (Pending, s) g = (Pending, s)"
  "and_then (Panic p, s) g = (Panic p, s)"
  by (simp_all add: and_then_def)

lemma loop_then_simps [simp]:
  "loop_then (Ok x, s) h = h x s"
  "loop_then (Err e, s) h = Some (Err e, s)"
  "loop_then (Pending, s) h = Some (Pending, s)"
  "loop_then (Panic p, s) h = Some (Panic p, s)"
  by (simp_all add: loop_then_def)

lemma expect_simps [simp]:
  "expect_some None = Panic UnwrapFailed"
  "expect_some (Some x) = Ok x"
  "expect_ok (Ok x) = Ok x"
  "expect_ok (Err e) = Panic UnwrapFailed"
  "expect_ok Pending = Pending"
  "expect_ok (Panic p) = Panic p"
  by (simp_all add: expect_some_def expect_ok_def)

lemma bind_outcome_eq_Ok:
  "bind_outcome m f = Ok y \<longleftrightarrow> (\<exists>x. m = Ok x \<and> f x = Ok y)"
  by (cases m) auto

lemma and_then_eq_Ok:
  "and_then m f = (Ok y, s') \<longleftrightarrow> (\<exists>x s. m = (Ok x, s) \<and> f x s = (Ok y, s'))"
  by (cases m; cases "fst m") auto

lemma loop_then_eq_Ok:
  "loop_then m f = Some (Ok y, s') \<longleftrightarrow> (\<exists>x s. m = (Ok x, s) \<and> f x s = Some (Ok y, s'))"
  by (cases m; cases "fst m") auto

lemma expect_ok_eq_Ok [simp]: "expect_ok m = Ok x \<longleftrightarrow> m = Ok x"
  by (cases m) auto

lemma assert_that_simps [simp]:
  "b \<Longrightarrow> assert_that b = Ok ()"
  "\<not> b \<Longrightarrow> assert_that b = Panic AssertFailed"
  by (simp_all add: assert_that_def)

lemma assert_that_eq_Ok [simp]: "assert_that b = Ok u \<longleftrightarrow> b"
  by (simp add: assert_that_def)

text \<open>
  The congruence rules: the continuation of a call is looked at only where the call
  returned a value, both in termination proofs and by the simplifier, which first
  evaluates the call and leaves the continuation alone until then.
\<close>

lemma and_then_fundef_cong [fundef_cong]:
  assumes "m = m'" and "\<And>x s. m' = (Ok x, s) \<Longrightarrow> f x s = g x s"
  shows "and_then m f = and_then m' g"
  using assms by (cases m'; cases "fst m'") auto

lemma bind_outcome_fundef_cong [fundef_cong]:
  assumes "m = m'" and "\<And>x. m' = Ok x \<Longrightarrow> f x = g x"
  shows "bind_outcome m f = bind_outcome m' g"
  using assms by (cases m') auto

lemma and_then_weak_cong [cong]: "m = m' \<Longrightarrow> and_then m f = and_then m' f"
  by simp

lemma loop_then_weak_cong [cong]: "m = m' \<Longrightarrow> loop_then m f = loop_then m' f"
  by simp

lemma bind_outcome_weak_cong [cong]: "m = m' \<Longrightarrow> bind_outcome m f = bind_outcome m' f"
  by simp

lemma loop_then_mono [partial_function_mono]:
  assumes "\<And>x s. mono_option (\<lambda>g. f g x s)"
  shows "mono_option (\<lambda>g. loop_then m (f g))"
proof (cases m)
  case (Pair r s)
  then show ?thesis
    using assms by (cases r) (simp_all add: monotone_def flat_ord_def)
qed

subsection \<open>Slices and copies\<close>

lemma slice_to_Ok [simp]: "slice_to xs n = Ok ys \<longleftrightarrow> n \<le> length xs \<and> ys = take n xs"
  by (auto simp: slice_to_def)

lemma slice_from_Ok [simp]: "slice_from xs n = Ok ys \<longleftrightarrow> n \<le> length xs \<and> ys = drop n xs"
  by (auto simp: slice_from_def)

lemma slice_in_range:
  "n \<le> length xs \<Longrightarrow> slice_to xs n = Ok (take n xs)"
  "n \<le> length xs \<Longrightarrow> slice_from xs n = Ok (drop n xs)"
  "i \<le> j \<Longrightarrow> j \<le> length xs \<Longrightarrow> slice_range xs i j = Ok (drop i (take j xs))"
  by (simp_all add: slice_defs)

lemma length_copy_at [simp]: "i + length ys \<le> length xs \<Longrightarrow> length (copy_at xs i ys) = length xs"
  by (simp add: copy_at_def)

lemma copy_at_Nil [simp]: "copy_at xs i [] = xs"
  by (simp add: copy_at_def)

lemma take_copy_at:
  "i + length ys \<le> length xs \<Longrightarrow> take (i + length ys) (copy_at xs i ys) = take i xs @ ys"
  by (simp add: copy_at_def)

lemma take_copy_at_before: "j \<le> i \<Longrightarrow> i \<le> length xs \<Longrightarrow> take j (copy_at xs i ys) = take j xs"
  by (simp add: copy_at_def)

subsection \<open>Zero bytes\<close>

lemma all_zero_simps [simp]:
  "all_zero []"
  "all_zero (b # bs) \<longleftrightarrow> b = 0 \<and> all_zero bs"
  "all_zero (xs @ ys) \<longleftrightarrow> all_zero xs \<and> all_zero ys"
  "all_zero (replicate n b) \<longleftrightarrow> n = 0 \<or> b = 0"
  by (auto simp: all_zero_def list_all_iff)

lemma all_zero_iff_replicate: "all_zero bs \<longleftrightarrow> bs = replicate (length bs) 0"
  by (induction bs) auto

lemma all_zero_take [simp]: "all_zero bs \<Longrightarrow> all_zero (take n bs)"
  by (auto simp: all_zero_def list_all_iff dest: in_set_takeD)

lemma all_zero_drop [simp]: "all_zero bs \<Longrightarrow> all_zero (drop n bs)"
  by (auto simp: all_zero_def list_all_iff dest: in_set_dropD)

subsection \<open>Words\<close>

lemma unat_minus_of_nat:
  fixes w :: "'a::len word"
  assumes "n \<le> unat w"
  shows "unat (w - word_of_nat n) = unat w - n"
proof -
  have "unat (word_of_nat n :: 'a word) = n"
    using assms by (metis le_unat_uoi)
  moreover from this have "(word_of_nat n :: 'a word) \<le> w"
    using assms by (simp add: word_le_nat_alt)
  ultimately show ?thesis by (simp add: unat_sub)
qed

lemma unat_u64_less: "unat (x :: u64) < 2 ^ 64"
  by (rule order_less_le_trans [OF unsigned_less]) simp

lemma unat_u8_le: "unat (b :: u8) \<le> 255"
proof -
  have "unat b < 256"
    by (rule order_less_le_trans [OF unsigned_less]) simp
  then show ?thesis by simp
qed

lemma as_usize_usize_bits [simp]: "as_usize usize_bits x = unat x"
  using unat_u64_less [of x] by (simp add: as_usize_def usize_bits_def)

lemma unat_le_usize_max: "unat (x :: u64) \<le> usize_max"
  using unat_u64_less [of x] by (simp add: usize_max_def usize_bits_def)

subsection \<open>Padding to a multiple\<close>

definition padding :: "nat \<Rightarrow> nat \<Rightarrow> nat" where
  "padding m n = (m - n mod m) mod m"

lemma padding_less: "0 < m \<Longrightarrow> padding m n < m"
  by (simp add: padding_def)

lemma dvd_add_padding: "0 < m \<Longrightarrow> m dvd n + padding m n"
proof -
  assume m: "0 < m"
  have "(n + padding m n) mod m = (n mod m + (m - n mod m)) mod m"
    by (simp add: padding_def mod_simps)
  also have "\<dots> = 0" using m by simp
  finally show ?thesis by (simp add: dvd_eq_mod_eq_0)
qed

end
