(* ===== verification/Blocks.thy ===== *)
theory Blocks
  imports Prelude "HOL-Library.List_Lexorder"
begin

text \<open>
  The 512-byte blocks of a TAR stream (\<open>src/shared/block.rs\<close>): the block type, its
  reinterpretation as a header and the header checksum. The header type itself comes from
  the \<open>tar\<close> crate; what the code asks of a header is a parameter of the model.
\<close>

section \<open>The header of the tar crate\<close>

text \<open>
  \<open>tar::Header\<close> is a \<open>repr(C)\<close> struct of the 512 raw bytes, and \<open>as_bytes\<close> views it as
  those bytes, so a header is its bytes. Its field readers \<open>cksum\<close>, \<open>size\<close>,
  \<open>entry_size\<close>, \<open>path\<close> and \<open>path_bytes\<close> are not part of this repository: a \<open>cfg\<close> holds
  them, with the flag that says whether debug assertions and overflow checks are compiled in.
  Their result type is \<open>io::Result\<close>, so they neither panic nor are pending.
\<close>

type_synonym header = bytes

record cfg =
  hdr_cksum :: "header \<Rightarrow> io_error + u32"
  hdr_size :: "header \<Rightarrow> io_error + u64"
  hdr_entry_size :: "header \<Rightarrow> io_error + u64"
  hdr_path_bytes :: "header \<Rightarrow> bytes"
  hdr_path :: "header \<Rightarrow> io_error + bytes"
  debug_assertions :: bool

definition of_result :: "io_error + 'a \<Rightarrow> 'a outcome" where
  "of_result r = (case r of Inl e \<Rightarrow> Err e | Inr x \<Rightarrow> Ok x)"

lemma of_result_simps [simp]:
  "of_result (Inl e) = Err e"
  "of_result (Inr x) = Ok x"
  by (simp_all add: of_result_def)

lemma of_result_eq [simp]:
  "of_result r = Ok x \<longleftrightarrow> r = Inr x"
  "of_result r = Err e \<longleftrightarrow> r = Inl e"
  "of_result r \<noteq> Pending"
  "of_result r \<noteq> Panic p"
  by (cases r; simp)+

section \<open>Blocks\<close>

definition BLOCK_SIZE :: usize where
  "BLOCK_SIZE = 512"

declare BLOCK_SIZE_def [simp]

definition EMPTY_BLOCK :: bytes where
  "EMPTY_BLOCK = replicate BLOCK_SIZE 0"

datatype block = Block (block_bytes: bytes)

definition block_new :: block where
  "block_new = Block EMPTY_BLOCK"

definition block_default :: block where
  "block_default = block_new"

text \<open>
  \<open>cast_bytes\<close> and \<open>cast\<close> reinterpret bytes in place after checking size and alignment;
  every type involved has alignment 1, so only the size check can fail.
\<close>

definition cast_bytes :: "usize \<Rightarrow> bytes \<Rightarrow> bytes outcome" where
  "cast_bytes size_of_U bs =
     bind_outcome (assert_that (length bs = size_of_U)) (\<lambda>_. Ok bs)"

definition from_bytes :: "bytes \<Rightarrow> block outcome" where
  "from_bytes value = bind_outcome (cast_bytes BLOCK_SIZE value) (\<lambda>bs. Ok (Block bs))"

definition block_empty :: block where
  "block_empty = Block EMPTY_BLOCK"

definition as_bytes :: "block \<Rightarrow> bytes" where
  "as_bytes b = block_bytes b"

text \<open>The checksum: a wrapping 32-bit sum, the checksum field counted as eight spaces.\<close>

definition calc_cksum :: "bytes \<Rightarrow> u32" where
  "calc_cksum bs = foldl (\<lambda>a b. a + ucast b) 0 (take 148 bs @ drop 156 bs) + 8 * 32"

definition cksum_message :: "u32 \<Rightarrow> u32 \<Rightarrow> string" where
  "cksum_message expected actual =
     ''expected block to be a valid header; checksum expected = '' @ show_nat (unat expected) @
     '', actual = '' @ show_nat (unat actual) @ '';''"

definition as_header :: "cfg \<Rightarrow> block \<Rightarrow> header outcome" where
  "as_header E b =
     bind_outcome (cast_bytes BLOCK_SIZE (block_bytes b)) (\<lambda>hdr.
     bind_outcome (of_result (hdr_cksum E hdr)) (\<lambda>expected.
       let actual = calc_cksum (block_bytes b) in
       if expected = actual then Ok hdr
       else Err (IoError InvalidData (cksum_message expected actual))))"

text \<open>
  The derived ordering of blocks is the lexicographic one of their bytes; it makes them an
  instance of the library's linear orders.
\<close>

fun bytes_le :: "bytes \<Rightarrow> bytes \<Rightarrow> bool" where
  "bytes_le [] bs \<longleftrightarrow> True"
| "bytes_le (a # as) [] \<longleftrightarrow> False"
| "bytes_le (a # as) (b # bs) \<longleftrightarrow> a < b \<or> a = b \<and> bytes_le as bs"

definition block_le :: "block \<Rightarrow> block \<Rightarrow> bool" where
  "block_le a b \<longleftrightarrow> bytes_le (block_bytes a) (block_bytes b)"

lemma bytes_le_iff: "bytes_le as bs \<longleftrightarrow> as \<le> bs"
  by (induction as bs rule: bytes_le.induct) auto

instantiation block :: linorder
begin

definition less_eq_block :: "block \<Rightarrow> block \<Rightarrow> bool" where
  "less_eq_block = block_le"

definition less_block :: "block \<Rightarrow> block \<Rightarrow> bool" where
  "less_block a b \<longleftrightarrow> a \<le> b \<and> a \<noteq> b"

instance
  by intro_classes
    (auto simp: less_eq_block_def less_block_def block_le_def bytes_le_iff block.expand)

end

text \<open>
  What \<open>{:?}\<close> prints of a block: whether it is a header, what the \<open>tar\<close> crate reads from it
  when it is one, and its bytes. The fields are listed with their values; how a value is
  written out is the business of its type.
\<close>

datatype debug_value =
    DebugBool bool
  | DebugPath "io_error + bytes"
  | DebugSize "io_error + u64"
  | DebugCksum "io_error + u32"
  | DebugBytes bytes

definition block_debug :: "cfg \<Rightarrow> block \<Rightarrow> (string \<times> debug_value) list" where
  "block_debug E b =
     (case as_header E b of
        Ok h \<Rightarrow>
          [(''is_header'', DebugBool True), (''path'', DebugPath (hdr_path E h)),
           (''size'', DebugSize (hdr_size E h)), (''len'', DebugSize (hdr_entry_size E h)),
           (''cksum'', DebugCksum (hdr_cksum E h)), (''bytes'', DebugBytes (block_bytes b))]
      | _ \<Rightarrow> [(''is_header'', DebugBool False), (''bytes'', DebugBytes (block_bytes b))])"

section \<open>Lemmas\<close>

lemma length_EMPTY_BLOCK [simp]: "length EMPTY_BLOCK = 512"
  by (simp add: EMPTY_BLOCK_def)

lemma all_zero_EMPTY_BLOCK [simp]: "all_zero EMPTY_BLOCK"
  by (simp add: EMPTY_BLOCK_def)

lemma take_EMPTY_BLOCK: "n \<le> 512 \<Longrightarrow> take n EMPTY_BLOCK = replicate n 0"
  by (simp add: EMPTY_BLOCK_def)

lemma as_bytes_block_empty [simp]: "as_bytes block_empty = EMPTY_BLOCK"
  by (simp add: as_bytes_def block_empty_def)

lemma from_bytes_Ok [simp]: "from_bytes bs = Ok b \<longleftrightarrow> length bs = 512 \<and> b = Block bs"
  by (auto simp: from_bytes_def cast_bytes_def assert_that_def)

lemma from_bytes_as_bytes: "length bs = 512 \<Longrightarrow> from_bytes bs = Ok (Block bs)"
  by simp

text \<open>The sum never wraps: 504 bytes of at most 255 and 256 for the spaces.\<close>

lemma foldl_cksum:
  "unat a + 255 * length bs < 2 ^ 32 \<Longrightarrow>
    unat (foldl (\<lambda>a (b :: u8). a + ucast b) (a :: u32) bs) = unat a + sum_list (map unat bs)"
proof (induction bs arbitrary: a)
  case Nil
  then show ?case by simp
next
  case (Cons b bs)
  have b: "unat b \<le> 255"
    by (rule unat_u8_le)
  have "unat (ucast b :: u32) = unat b"
    using b by (simp add: unsigned_ucast_eq take_bit_nat_eq_self)
  then have "unat (a + ucast b) = unat a + unat b"
    using Cons.prems b by (simp add: unat_word_ariths)
  with Cons.IH [of "a + ucast b"] Cons.prems b show ?case by simp
qed

lemma unat_calc_cksum:
  assumes "length bs = 512"
  shows "unat (calc_cksum bs) =
    sum_list (map unat (take 148 bs)) + 8 * 32 + sum_list (map unat (drop 156 bs))"
proof -
  let ?xs = "take 148 bs @ drop 156 bs"
  let ?f = "foldl (\<lambda>a (b :: u8). a + ucast b) (0 :: u32) ?xs"
  have f: "unat ?f = sum_list (map unat ?xs)"
    using foldl_cksum [of 0 ?xs] assms by simp
  have "sum_list (map unat ?xs) \<le> sum_list (map (\<lambda>_. 255) ?xs)"
    by (rule sum_list_mono) (rule unat_u8_le)
  then have "sum_list (map unat ?xs) \<le> 504 * 255"
    using assms by (simp add: sum_list_triv)
  then have "unat (?f + 8 * 32) = sum_list (map unat ?xs) + 8 * 32"
    by (subst unat_word_ariths, subst f) simp
  then show ?thesis by (simp add: calc_cksum_def)
qed

lemma as_header_eq:
  "length bs = 512 \<Longrightarrow> as_header E (Block bs) =
    (case hdr_cksum E bs of Inl e \<Rightarrow> Err e
     | Inr c \<Rightarrow> if c = calc_cksum bs then Ok bs
        else Err (IoError InvalidData (cksum_message c (calc_cksum bs))))"
  by (simp add: as_header_def cast_bytes_def Let_def split: sum.splits)

lemma as_header_Ok:
  "as_header E (Block bs) = Ok h \<longleftrightarrow>
    length bs = 512 \<and> h = bs \<and> hdr_cksum E bs = Inr (calc_cksum bs)"
  by (auto simp: as_header_def cast_bytes_def Let_def bind_outcome_eq_Ok split: if_splits)

section \<open>A concrete header reader for the witnesses\<close>

text \<open>
  The witnesses of the properties instantiate the header parameters with this reader: the
  size of an entry is the lowest byte of a base-256 size field (byte 135), and the
  checksum field always holds the checksum of the header.
\<close>

definition sample_cfg :: "bool \<Rightarrow> cfg" where
  "sample_cfg debug =
     \<lparr>hdr_cksum = (\<lambda>h. Inr (calc_cksum h)), hdr_size = (\<lambda>h. Inr (ucast (h ! 135))),
      hdr_entry_size = (\<lambda>h. Inr (ucast (h ! 135))), hdr_path_bytes = take 100,
      hdr_path = (\<lambda>h. Inr (take 100 h)),
      debug_assertions = debug\<rparr>"

definition sample_header :: "u8 \<Rightarrow> header" where
  "sample_header n = replicate 135 97 @ [n] @ replicate 376 0"

lemma sample_cfg_simps [simp]:
  "hdr_cksum (sample_cfg d) h = Inr (calc_cksum h)"
  "hdr_size (sample_cfg d) h = Inr (ucast (h ! 135))"
  "hdr_entry_size (sample_cfg d) h = Inr (ucast (h ! 135))"
  "hdr_path_bytes (sample_cfg d) h = take 100 h"
  "hdr_path (sample_cfg d) h = Inr (take 100 h)"
  "debug_assertions (sample_cfg d) = d"
  by (simp_all add: sample_cfg_def)

lemma sample_header_simps [simp]:
  "length (sample_header n) = 512"
  "sample_header n ! 135 = n"
  "sample_header n ! 0 = 97"
  "\<not> all_zero (sample_header n)"
  "sample_header n \<noteq> []"
  by (simp_all add: sample_header_def nth_append)

section \<open>Properties of the checksum\<close>

lemma calc_cksum_parts:
  assumes "length xs = 148" and "length f = 8"
  shows "calc_cksum (xs @ f @ ys) = calc_cksum (xs @ replicate 8 0 @ ys)"
  using assms by (simp add: calc_cksum_def)

lemma sum_list_update:
  fixes xs :: "bytes"
  assumes "i < length xs"
  shows "sum_list (map unat (xs[i := b])) + unat (xs ! i) = sum_list (map unat xs) + unat b"
  using assms
proof (induction xs arbitrary: i)
  case (Cons x xs)
  then show ?case by (cases i) auto
qed simp

lemma calc_cksum_update:
  assumes "length bs = 512" and "i < 512" and "i < 148 \<or> 156 \<le> i"
  shows "unat (calc_cksum (bs[i := b])) + unat (bs ! i) = unat (calc_cksum bs) + unat b"
proof (cases "i < 148")
  case True
  then have "take 148 (bs[i := b]) = (take 148 bs)[i := b]" "drop 156 (bs[i := b]) = drop 156 bs"
    by (simp_all add: take_update_swap)
  with sum_list_update [of i "take 148 bs" b] True assms(1) show ?thesis
    by (simp add: unat_calc_cksum)
next
  case False
  with assms(3) have i: "156 \<le> i" by simp
  then have "take 148 (bs[i := b]) = take 148 bs" "drop 156 (bs[i := b]) = (drop 156 bs)[i - 156 := b]"
    by (simp_all add: drop_update_swap)
  with sum_list_update [of "i - 156" "drop 156 bs" b] i assms(1,2) show ?thesis
    by (simp add: unat_calc_cksum)
qed

text \<open>
  C28. The checksum is the sum TAR prescribes, without wrap-around: the unsigned bytes of the
  block with the eight bytes of the checksum field counted as spaces, whatever they hold.
\<close>

theorem cksum_is_byte_sum:
  assumes "length xs = 148" and "length field = 8" and "length ys = 356"
  shows "unat (calc_cksum (xs @ field @ ys)) =
      sum_list (map unat (xs @ replicate 8 32 @ ys)) \<and>
    sum_list (map unat (xs @ replicate 8 (32 :: u8) @ ys)) < 2 ^ 32"
proof -
  have "unat (calc_cksum (xs @ field @ ys)) = sum_list (map unat (xs @ replicate 8 32 @ ys))"
    using assms by (simp add: unat_calc_cksum sum_list_replicate)
  moreover have "unat (calc_cksum (xs @ field @ ys)) < 2 ^ 32"
    by (rule order_less_le_trans [OF unsigned_less]) simp
  ultimately show ?thesis by simp
qed

theorem cksum_is_byte_sum_witness:
  "unat (calc_cksum (replicate 148 255 @ [1, 2, 3, 4, 5, 6, 7, 8] @ replicate 356 255)) =
     504 * 255 + 8 * 32"
  using cksum_is_byte_sum [of "replicate 148 255" "[1, 2, 3, 4, 5, 6, 7, 8]" "replicate 356 255"]
  by (simp add: sum_list_replicate)

text \<open>
  C29. A damaged header is rejected: when a block that was accepted as a header is changed in
  one byte outside the checksum field, and the field is read as before, it is refused as
  invalid data.
\<close>

theorem damaged_header_rejected:
  assumes "as_header E (Block bs) = Ok hdr" and "i < 512" and "i < 148 \<or> 156 \<le> i"
    and "b \<noteq> bs ! i" and "hdr_cksum E (bs[i := b]) = hdr_cksum E bs"
  shows "\<exists>msg. as_header E (Block (bs[i := b])) = Err (IoError InvalidData msg)"
proof -
  from assms(1) have bs: "length bs = 512" "hdr_cksum E bs = Inr (calc_cksum bs)"
    by (simp_all add: as_header_Ok)
  have "calc_cksum (bs[i := b]) \<noteq> calc_cksum bs"
    using calc_cksum_update [OF bs(1) assms(2,3), of b] assms(4) by (auto simp: word_unat_eq_iff)
  then show ?thesis
    using bs assms(5) by (simp add: as_header_eq)
qed

theorem damaged_header_rejected_witness:
  "\<exists>msg. as_header ((sample_cfg True)\<lparr>hdr_cksum := \<lambda>h. Inr (calc_cksum (sample_header 3))\<rparr>)
    (Block ((sample_header 3)[200 := 1])) = Err (IoError InvalidData msg)"
proof -
  let ?E = "(sample_cfg True)\<lparr>hdr_cksum := \<lambda>h. Inr (calc_cksum (sample_header 3))\<rparr>"
  have "as_header ?E (Block (sample_header 3)) = Ok (sample_header 3)"
    by (simp add: as_header_Ok)
  moreover have "sample_header 3 ! 200 = 0"
    by (simp add: sample_header_def nth_append nth_Cons')
  ultimately show ?thesis
    using damaged_header_rejected [of ?E "sample_header 3" "sample_header 3" 200 1] by simp
qed

end
