(* ===== verification/Machine.thy ===== *)
theory Machine
  imports Blocks
begin

text \<open>
  The state machine that tracks the position in a TAR byte stream
  (\<open>src/shared/state.rs\<close>): its errors, its states, the single transition \<open>next\<close> and
  the drivers \<open>take_until\<close>, \<open>take_slices\<close> and \<open>take_marker\<close>.
\<close>

section \<open>Errors\<close>

datatype state_error = Error_ExpectingHeader | Error_ExpectingEmptyBlock | Error_Eof

definition state_error_kind :: "state_error \<Rightarrow> error_kind" where
  "state_error_kind e = InvalidData"

fun state_error_display :: "state_error \<Rightarrow> string" where
  "state_error_display Error_ExpectingHeader = ''expecting header''"
| "state_error_display Error_ExpectingEmptyBlock = ''expecting empty block''"
| "state_error_display Error_Eof = ''cannot process data after eof''"

definition state_error_into :: "state_error \<Rightarrow> io_error" where
  "state_error_into e = IoError (state_error_kind e) (state_error_display e)"

section \<open>States\<close>

datatype state =
    ExpectingHeader
  | ReceivingHeader usize bool  \<comment> \<open>bytes missing, and whether all bytes so far are zero\<close>
  | ReceivedHeader
  | ReceivingData u64           \<comment> \<open>bytes of entry data missing\<close>
  | ReceivedData
  | AligningData usize          \<comment> \<open>bytes of padding missing\<close>
  | AlignedData
  | ReceivingEof usize          \<comment> \<open>bytes of the second empty block missing\<close>
  | ReceivedEof

definition state_default :: state where
  "state_default = ExpectingHeader"

fun is_terminal :: "state \<Rightarrow> bool" where
  "is_terminal ReceivedEof = True"
| "is_terminal (ReceivingEof 0) = True"
| "is_terminal _ = False"

fun is_marker :: "state \<Rightarrow> bool" where
  "is_marker ExpectingHeader = True"
| "is_marker ReceivedHeader = True"
| "is_marker ReceivedData = True"
| "is_marker AlignedData = True"
| "is_marker ReceivedEof = True"
| "is_marker _ = False"

lemma is_terminal_ReceivingEof [simp]: "is_terminal (ReceivingEof rem) \<longleftrightarrow> rem = 0"
  by (cases rem) auto

section \<open>The transition function\<close>

definition advance :: "bytes \<Rightarrow> usize \<Rightarrow> usize" where
  "advance buf m = min m (length buf)"

definition read_run :: "bytes \<Rightarrow> usize \<Rightarrow> usize \<times> bool" where
  "read_run buf rem = (let len = advance buf rem in (len, all_zero (take len buf)))"

text \<open>
  \<open>u64::next_multiple_of\<close> of the standard library: on overflow it panics with overflow
  checks and wraps without them.
\<close>

definition next_multiple_of :: "bool \<Rightarrow> u64 \<Rightarrow> u64 \<Rightarrow> u64 outcome" where
  "next_multiple_of checks x m =
     (let r = x mod m in
      if r = 0 then Ok x
      else if checks \<and> 2 ^ 64 \<le> unat x + unat (m - r) then Panic ArithmeticOverflow
      else Ok (x + (m - r)))"

text \<open>
  The arm for \<open>ReceivingData\<close>, with the cast \<open>rem as usize\<close> at the width \<open>w\<close> of a
  \<open>usize\<close>; the transition function uses it at the width of the modelled targets.
\<close>

definition next_receiving_data :: "nat \<Rightarrow> u64 \<Rightarrow> bytes \<Rightarrow> state \<times> usize" where
  "next_receiving_data w rem buf =
     (let len = advance buf (as_usize w rem);
          rem' = rem - word_of_nat len
      in (if rem' = 0 then ReceivedData else ReceivingData rem', len))"

text \<open>\<open>header.is_some()\<close> is asserted, then the entry size is read from it.\<close>

definition entry_size_of :: "cfg \<Rightarrow> header option \<Rightarrow> u64 outcome" where
  "entry_size_of E h =
     (case h of None \<Rightarrow> Panic AssertFailed | Some hdr \<Rightarrow> of_result (hdr_entry_size E hdr))"

fun state_next :: "cfg \<Rightarrow> state \<Rightarrow> bytes \<Rightarrow> header option \<Rightarrow> (state \<times> usize) outcome" where
  "state_next E ExpectingHeader buf h = Ok (ReceivingHeader BLOCK_SIZE True, 0)"
| "state_next E (ReceivingHeader rem is_empty) buf h =
     (let (len, empty) = read_run buf rem;
          rem' = rem - len;
          is_empty' = (is_empty \<and> empty)
      in Ok (if rem' = 0
             then (if is_empty' then ReceivingEof BLOCK_SIZE else ReceivedHeader)
             else ReceivingHeader rem' is_empty', len))"
| "state_next E ReceivedHeader buf h =
     bind_outcome (entry_size_of E h) (\<lambda>rem. Ok (ReceivingData rem, 0))"
| "state_next E (ReceivingData rem) buf h = Ok (next_receiving_data usize_bits rem buf)"
| "state_next E ReceivedData buf h =
     bind_outcome (entry_size_of E h) (\<lambda>rem.
     bind_outcome (next_multiple_of (debug_assertions E) rem (word_of_nat BLOCK_SIZE)) (\<lambda>m.
     Ok (AligningData (as_usize usize_bits (m - rem)), 0)))"
| "state_next E (AligningData rem) buf h =
     (let len = advance buf rem;
          rem' = rem - len
      in Ok (if rem' = 0 then AlignedData else AligningData rem', len))"
| "state_next E AlignedData buf h = Ok (ExpectingHeader, 0)"
| "state_next E (ReceivingEof rem) buf h =
     (let (len, empty) = read_run buf rem;
          rem' = rem - len
      in if \<not> empty then Err (state_error_into Error_ExpectingEmptyBlock)
         else Ok (if rem' = 0 then ReceivedEof else ReceivingEof rem', len))"
| "state_next E ReceivedEof buf h = Err (state_error_into Error_Eof)"

section \<open>Basic facts of a transition\<close>

lemma advance_le [simp]: "advance buf m \<le> length buf" "advance buf m \<le> m"
  by (simp_all add: advance_def)

lemma advance_take [simp]: "advance (take k buf) m = min k (advance buf m)"
  by (simp add: advance_def)

lemma advance_Nil [simp]: "advance [] m = 0"
  by (simp add: advance_def)

text \<open>A transition never reports more bytes than the buffer holds.\<close>

lemma state_next_le:
  "state_next E s buf h = Ok (s', n) \<Longrightarrow> n \<le> length buf"
  by (cases s)
    (auto simp: Let_def read_run_def next_receiving_data_def bind_outcome_eq_Ok advance_def
      split: if_splits)

text \<open>The bytes a transition consumes are the only ones it depends on.\<close>

lemma state_next_take:
  assumes "state_next E s buf h = Ok (s', n)" and "n \<le> k"
  shows "state_next E s (take k buf) h = Ok (s', n)"
  using assms
  by (cases s)
    (auto simp: Let_def read_run_def next_receiving_data_def bind_outcome_eq_Ok min_def
      split: if_splits)

text \<open>
  Where a transition consumes nothing of a buffer that has something, the machine moves
  down this rank; so a driver that has bytes left always makes progress.
\<close>

fun idle_rank :: "state \<Rightarrow> nat" where
  "idle_rank (ReceivingHeader rem _) = (if rem = 0 then 7 else 0)"
| "idle_rank ReceivedHeader = 6"
| "idle_rank (ReceivingData rem) = (if rem = 0 then 5 else 0)"
| "idle_rank ReceivedData = 4"
| "idle_rank (AligningData rem) = (if rem = 0 then 3 else 0)"
| "idle_rank AlignedData = 2"
| "idle_rank ExpectingHeader = 1"
| "idle_rank (ReceivingEof rem) = (if rem = 0 then 1 else 0)"
| "idle_rank ReceivedEof = 0"

lemma idle_rank_le: "idle_rank s \<le> 7"
  by (cases s) auto

lemma state_next_progress:
  assumes "state_next E s buf h = Ok (s', n)" and "buf \<noteq> []"
  shows "0 < n \<or> idle_rank s' < idle_rank s"
  using assms
  by (cases s)
    (auto simp: Let_def read_run_def next_receiving_data_def bind_outcome_eq_Ok advance_def
      unat_gt_0 min_def split: if_splits)

lemma state_next_measure:
  assumes "state_next E s buf h = Ok (s', n)" and "n < length buf"
  shows "8 * length (drop n buf) + idle_rank s' < 8 * length buf + idle_rank s"
  using state_next_progress [OF assms(1)] idle_rank_le [of s'] assms(2)
  by (cases "n = 0") auto

section \<open>The drivers\<close>

text \<open>\<open>take_until\<close>: the loop, its offset \<open>cur\<close> counting the bytes read so far.\<close>

function take_until_loop ::
  "cfg \<Rightarrow> state list \<Rightarrow> header option \<Rightarrow> state \<Rightarrow> usize \<Rightarrow> bytes \<Rightarrow> (state \<times> usize) outcome" where
  "take_until_loop E stop h s cur buf =
     bind_outcome (state_next E s buf h) (\<lambda>(s', n).
     bind_outcome (slice_from buf n) (\<lambda>buf'.
       if s' \<in> set stop \<or> buf' = [] then Ok (s', cur + n)
       else take_until_loop E stop h s' (cur + n) buf'))"
  by pat_completeness auto
termination
proof (relation "measure (\<lambda>(E, stop, h, s, cur, buf). 8 * length buf + idle_rank s)")
  fix E stop h s cur buf x s' n buf'
  assume "state_next E s buf h = Ok x" and "(s', n) = x" and "slice_from buf n = Ok buf'"
    and "\<not> (s' \<in> set stop \<or> buf' = [])"
  then show "((E, stop, h, s', cur + n, buf'), (E, stop, h, s, cur, buf)) \<in>
      measure (\<lambda>(E, stop, h, s, cur, buf). 8 * length buf + idle_rank s)"
    using state_next_measure [of E s buf h s' n] by auto
qed simp

declare take_until_loop.simps [simp del]

definition take_until ::
  "cfg \<Rightarrow> state \<Rightarrow> state list \<Rightarrow> bytes \<Rightarrow> header option \<Rightarrow> (state \<times> usize) outcome" where
  "take_until E s stop buf h = take_until_loop E stop h s 0 buf"

definition slices_stop :: "state list" where
  "slices_stop = [ReceivedHeader, ReceivedEof]"

text \<open>\<open>take_slices\<close>: the \<open>for\<close> loop over the slices, then the call that ensures progress.\<close>

fun take_slices_loop ::
  "cfg \<Rightarrow> header option \<Rightarrow> state \<Rightarrow> usize \<Rightarrow> bool \<Rightarrow> bytes list \<Rightarrow>
    (state \<times> usize \<times> bool) outcome" where
  "take_slices_loop E h s cur needs_next [] = Ok (s, cur, needs_next)"
| "take_slices_loop E h s cur needs_next (buf # slices) =
     (if buf = [] then take_slices_loop E h s cur needs_next slices
      else bind_outcome (take_until E s slices_stop buf h) (\<lambda>(s', n).
        if s' \<in> set slices_stop then Ok (s', cur + n, False)
        else take_slices_loop E h s' (cur + n) False slices))"

definition take_slices ::
  "cfg \<Rightarrow> state \<Rightarrow> bytes list \<Rightarrow> header option \<Rightarrow> (state \<times> usize) outcome" where
  "take_slices E s slices h =
     bind_outcome (take_slices_loop E h s 0 True slices) (\<lambda>(s', cur, needs_next).
       if needs_next then
         bind_outcome (take_until E s' slices_stop [] h) (\<lambda>(s'', n). Ok (s'', cur + n))
       else Ok (s', cur))"

definition take_marker :: "cfg \<Rightarrow> state \<Rightarrow> header option \<Rightarrow> unit outcome \<times> state" where
  "take_marker E s h =
     (case bind_outcome (assert_that (is_marker s)) (\<lambda>_.
           bind_outcome (state_next E s [] h) (\<lambda>(s', pos).
           bind_outcome (assert_that (\<not> debug_assertions E \<or> pos = 0)) (\<lambda>_. Ok s'))) of
        Ok s' \<Rightarrow> (Ok (), s')
      | Err e \<Rightarrow> (Err e, s) | Pending \<Rightarrow> (Pending, s) | Panic p \<Rightarrow> (Panic p, s))"

section \<open>The drivers as functions of the bytes they are given\<close>

lemma take_until_loop_offset:
  "take_until_loop E stop h s cur buf =
     bind_outcome (take_until_loop E stop h s 0 buf) (\<lambda>(s', n). Ok (s', cur + n))"
proof (induction "8 * length buf + idle_rank s" arbitrary: s cur buf rule: less_induct)
  case less
  show ?case
  proof (cases "state_next E s buf h")
    case (Ok r)
    then obtain s' n where next_eq: "state_next E s buf h = Ok (s', n)" by (cases r) auto
    show ?thesis
    proof (cases "s' \<in> set stop \<or> drop n buf = []")
      case True
      then show ?thesis
        using next_eq state_next_le [OF next_eq]
        by (simp add: take_until_loop.simps [of E stop h s _ buf] slice_in_range)
    next
      case False
      then have "8 * length (drop n buf) + idle_rank s' < 8 * length buf + idle_rank s"
        using state_next_measure [OF next_eq] by auto
      note IH = less.hyps [OF this]
      from False next_eq state_next_le [OF next_eq] show ?thesis
        by (simp add: take_until_loop.simps [of E stop h s _ buf] slice_in_range
              IH [of "cur + n"] IH [of n])
          (auto simp: bind_outcome_def split: outcome.splits)
    qed
  qed (simp_all add: take_until_loop.simps [of E stop h s _ buf])
qed

lemma take_until_unfold:
  "take_until E s stop buf h =
     bind_outcome (state_next E s buf h) (\<lambda>(s', n).
       if s' \<in> set stop \<or> length buf \<le> n then Ok (s', n)
       else bind_outcome (take_until E s' stop (drop n buf) h) (\<lambda>(s'', m). Ok (s'', n + m)))"
proof (cases "state_next E s buf h")
  case (Ok r)
  then obtain s' n where next_eq: "state_next E s buf h = Ok (s', n)" by (cases r) auto
  with state_next_le [OF next_eq] show ?thesis
    by (simp add: take_until_def take_until_loop.simps [of E stop h s _ buf] slice_in_range)
      (subst take_until_loop_offset, simp)
qed (simp_all add: take_until_def take_until_loop.simps [of E stop h s _ buf])

text \<open>Induction along the iterations of \<open>take_until\<close>.\<close>

lemma take_until_induct [case_names step]:
  assumes "\<And>s buf. (\<And>s' n. state_next E s buf h = Ok (s', n) \<Longrightarrow> s' \<notin> set stop \<Longrightarrow>
      n < length buf \<Longrightarrow> P s' (drop n buf)) \<Longrightarrow> P s buf"
  shows "P s buf"
proof (induction "8 * length buf + idle_rank s" arbitrary: s buf rule: less_induct)
  case less
  show ?case
  proof (rule assms)
    fix s' n
    assume "state_next E s buf h = Ok (s', n)" and "n < length buf"
    then show "P s' (drop n buf)"
      using state_next_measure [of E s buf h s' n] by (intro less.hyps) auto
  qed
qed

lemma take_until_le: "take_until E s stop buf h = Ok (s', n) \<Longrightarrow> n \<le> length buf"
proof (induction s buf arbitrary: s' n rule: take_until_induct [where E = E and h = h and stop = stop])
  case (step s buf)
  from step.prems obtain s1 n1 where next_eq: "state_next E s buf h = Ok (s1, n1)"
    by (subst (asm) take_until_unfold) (auto simp: bind_outcome_eq_Ok)
  show ?case
  proof (cases "s1 \<in> set stop \<or> length buf \<le> n1")
    case True
    with step.prems next_eq state_next_le [OF next_eq] show ?thesis
      by (subst (asm) take_until_unfold) auto
  next
    case False
    with step.prems next_eq obtain s2 n2
      where rest: "take_until E s1 stop (drop n1 buf) h = Ok (s2, n2)" and "n = n1 + n2"
      by (subst (asm) take_until_unfold) (auto simp: bind_outcome_eq_Ok)
    moreover from rest have "n2 \<le> length (drop n1 buf)"
      using False next_eq by (intro step.IH [of s1 n1]) auto
    ultimately show ?thesis using False by (auto simp: not_le)
  qed
qed

text \<open>
  A transition over \<open>b1 @ b2\<close> is the transition over \<open>b1\<close>, when that reached its
  boundary, and otherwise it continues the interrupted run of \<open>b1\<close> with \<open>b2\<close>.
\<close>

definition continues :: "cfg \<Rightarrow> header option \<Rightarrow> state \<Rightarrow> usize \<Rightarrow> bytes \<Rightarrow> (state \<times> usize) outcome"
  where
  "continues E h s n b2 = bind_outcome (state_next E s b2 h) (\<lambda>(s', m). Ok (s', n + m))"

lemma next_receiving_data_append:
  assumes "length b1 < unat rem"
  shows "next_receiving_data usize_bits rem (b1 @ b2) =
    (case next_receiving_data usize_bits (rem - word_of_nat (length b1)) b2 of
       (s, m) \<Rightarrow> (s, length b1 + m))"
proof -
  have "unat (rem - word_of_nat (length b1)) = unat rem - length b1"
    using assms by (simp add: unat_minus_of_nat)
  moreover have "min (unat rem) (length b1 + length b2) =
      length b1 + min (unat rem - length b1) (length b2)"
    using assms by simp
  ultimately show ?thesis
    by (simp add: next_receiving_data_def advance_def Let_def diff_diff_eq)
qed

lemma state_next_split:
  assumes "state_next E s b1 h = Ok (s', n)" and "b1 \<noteq> []"
  shows "state_next E s (b1 @ b2) h = Ok (s', n) \<or>
    n = length b1 \<and> \<not> is_marker s' \<and> state_next E s (b1 @ b2) h = continues E h s' n b2"
proof (cases s)
  case (ReceivingHeader rem e)
  with assms show ?thesis
    by (cases "rem \<le> length b1")
      (auto simp: continues_def read_run_def advance_def Let_def)
next
  case (ReceivingData rem)
  show ?thesis
  proof (cases "unat rem \<le> length b1")
    case True
    with ReceivingData assms show ?thesis
      by (auto simp: next_receiving_data_def advance_def Let_def)
  next
    case False
    then have "rem \<noteq> word_of_nat (length b1)"
      using unat_minus_of_nat [of "length b1" rem] by auto
    with False ReceivingData assms show ?thesis
      by (auto simp: continues_def next_receiving_data_append)
        (auto simp: next_receiving_data_def advance_def Let_def)
  qed
next
  case (AligningData rem)
  with assms show ?thesis
    by (cases "rem \<le> length b1") (auto simp: continues_def advance_def Let_def)
next
  case (ReceivingEof rem)
  with assms show ?thesis
    by (cases "rem \<le> length b1")
      (auto simp: continues_def read_run_def advance_def Let_def split: if_splits)
qed (use assms in auto)

text \<open>
  Errors and panics of a transition over \<open>b1\<close> are found over any extension of it.
\<close>

lemma state_next_fails_append:
  assumes "\<forall>r. state_next E s b1 h \<noteq> Ok r"
  shows "state_next E s (b1 @ b2) h = state_next E s b1 h"
proof (cases s)
  case (ReceivingEof rem)
  with assms show ?thesis
    by (auto simp: read_run_def advance_def Let_def split: if_splits)
qed (use assms in \<open>auto simp: Let_def read_run_def\<close>)

lemma take_until_append:
  assumes "b1 \<noteq> []" and "b2 \<noteq> []" and stop: "\<forall>s \<in> set stop. is_marker s"
  shows "take_until E s stop (b1 @ b2) h =
    bind_outcome (take_until E s stop b1 h) (\<lambda>(s1, n1).
      if s1 \<in> set stop then Ok (s1, n1)
      else bind_outcome (take_until E s1 stop b2 h) (\<lambda>(s2, n2). Ok (s2, n1 + n2)))"
  using assms(1)
proof (induction s b1 rule: take_until_induct [where E = E and h = h and stop = stop])
  case (step s b1)
  show ?case
  proof (cases "state_next E s b1 h")
    case (Ok r)
    then obtain s' n where next_eq: "state_next E s b1 h = Ok (s', n)" by (cases r) auto
    note n_le = state_next_le [OF next_eq]
    from state_next_split [OF next_eq \<open>b1 \<noteq> []\<close>, of b2] show ?thesis
    proof (elim disjE conjE)
      assume whole: "state_next E s (b1 @ b2) h = Ok (s', n)"
      consider "s' \<in> set stop" | "s' \<notin> set stop" "n = length b1" | "s' \<notin> set stop" "n < length b1"
        using n_le by linarith
      then show ?thesis
      proof cases
        case 3
        note IH = step.IH [OF next_eq this]
        from 3 show ?thesis
          by (simp add: take_until_unfold [of E s] next_eq whole IH)
            (auto simp: bind_outcome_def split: outcome.splits)
      qed (use \<open>b2 \<noteq> []\<close> in \<open>simp_all add: take_until_unfold [of E s] next_eq whole\<close>)
    next
      assume part: "n = length b1" "\<not> is_marker s'"
        and whole: "state_next E s (b1 @ b2) h = continues E h s' n b2"
      from part(2) stop have "s' \<notin> set stop" by blast
      then show ?thesis
        using part(1) whole
        by (simp add: take_until_unfold [of E s] take_until_unfold [of E s'] next_eq continues_def)
          (auto simp: bind_outcome_def split: outcome.splits)
    qed
  qed (use state_next_fails_append [of E s b1 h b2] in \<open>simp_all add: take_until_unfold [of E s]\<close>)
qed

lemma slices_stop_markers: "\<forall>s \<in> set slices_stop. is_marker s"
  by (simp add: slices_stop_def)

lemma take_slices_loop_concat:
  "take_slices_loop E h s cur nn slices =
     (if concat slices = [] then Ok (s, cur, nn)
      else bind_outcome (take_until E s slices_stop (concat slices) h)
        (\<lambda>(s', n). Ok (s', cur + n, False)))"
proof (induction slices arbitrary: s cur nn)
  case Nil
  then show ?case by simp
next
  case (Cons buf slices)
  consider "buf = []" | "buf \<noteq> []" "concat slices = []" | "buf \<noteq> []" "concat slices \<noteq> []"
    by blast
  then show ?case
  proof cases
    case 1
    then show ?thesis by (simp only: Cons.IH take_slices_loop.simps concat.simps append_Nil simp_thms if_True)
  next
    case 2
    then show ?thesis
      by (auto simp: bind_outcome_def Cons.IH simp del: concat_eq_Nil_conv split: outcome.splits)
  next
    case 3
    then show ?thesis
      using take_until_append [OF 3 slices_stop_markers, of E s h]
      by (auto simp: bind_outcome_def Cons.IH simp del: concat_eq_Nil_conv split: outcome.splits)
  qed
qed

text \<open>\<open>take_slices\<close> depends only on the bytes of its slices, not on how they are cut.\<close>

lemma take_slices_eq_take_until:
  "take_slices E s slices h = take_until E s slices_stop (concat slices) h"
  by (cases "concat slices = []";
      simp add: take_slices_def take_slices_loop_concat del: concat_eq_Nil_conv)
    (auto simp: bind_outcome_def split: outcome.splits)

section \<open>Well-formed states\<close>

text \<open>
  The counters of a state stay within a block: what is missing of a header or of the
  second empty block is at most a block, what is missing of the padding is less.
\<close>

fun state_wf :: "state \<Rightarrow> bool" where
  "state_wf (ReceivingHeader rem _) \<longleftrightarrow> rem \<le> BLOCK_SIZE"
| "state_wf (AligningData rem) \<longleftrightarrow> rem < BLOCK_SIZE"
| "state_wf (ReceivingEof rem) \<longleftrightarrow> rem \<le> BLOCK_SIZE"
| "state_wf _ \<longleftrightarrow> True"

lemma unat_mod_block: "unat ((x :: u64) mod 512) = unat x mod 512"
  by (simp add: unat_mod_distrib)

lemma next_multiple_of_minus:
  assumes "next_multiple_of checks x 512 = Ok m"
  shows "unat (m - x) = padding 512 (unat x)"
proof (cases "x mod 512 = 0")
  case True
  then have "unat x mod 512 = 0"
    using unat_mod_block [of x] by simp
  with True assms show ?thesis
    by (simp add: next_multiple_of_def padding_def)
next
  case False
  with assms have "m - x = 512 - x mod 512"
    by (auto simp: next_multiple_of_def Let_def split: if_splits)
  moreover have le: "unat (x mod 512) < 512"
    by (simp add: unat_mod_block)
  then have "unat (512 - x mod 512) = 512 - unat x mod 512"
    by (simp add: unat_sub word_le_nat_alt unat_mod_block)
  moreover have "unat x mod 512 \<noteq> 0"
    using False unat_mod_block [of x] by (metis unat_eq_zero)
  ultimately show ?thesis by (simp add: padding_def)
qed

lemma next_multiple_of_Ok:
  assumes "\<not> checks \<or> unat x + 511 < 2 ^ 64"
  shows "\<exists>m. next_multiple_of checks x 512 = Ok m"
proof (cases "x mod 512 = 0")
  case False
  have "unat (x mod 512) < 512"
    by (simp add: unat_mod_block)
  moreover have "unat (x mod 512) \<noteq> 0"
    using False by (simp add: unat_eq_zero)
  ultimately have "unat (512 - x mod 512) \<le> 511"
    by (simp add: unat_sub word_le_nat_alt)
  with assms show ?thesis by (auto simp: next_multiple_of_def Let_def)
qed (simp add: next_multiple_of_def)

lemma state_next_ReceivedData:
  assumes "hdr_entry_size E hdr = Inr n"
    and "\<not> debug_assertions E \<or> unat n + 511 < 2 ^ 64"
  shows "state_next E ReceivedData buf (Some hdr) = Ok (AligningData (padding 512 (unat n)), 0)"
proof -
  from next_multiple_of_Ok [OF assms(2)] obtain m
    where "next_multiple_of (debug_assertions E) n 512 = Ok m" by blast
  with assms(1) next_multiple_of_minus [OF this] show ?thesis
    by (simp add: entry_size_of_def)
qed

lemma state_next_wf:
  assumes "state_wf s" and "state_next E s buf h = Ok (s', n)"
  shows "state_wf s'"
proof (cases s)
  case ReceivedData
  with assms(2) obtain rem m where "next_multiple_of (debug_assertions E) rem 512 = Ok m"
    and "s' = AligningData (unat (m - rem))"
    by (auto simp: bind_outcome_eq_Ok)
  with next_multiple_of_minus [of _ rem m] show ?thesis
    by (simp add: padding_less)
qed (use assms in \<open>auto simp: Let_def read_run_def next_receiving_data_def bind_outcome_eq_Ok
      split: if_splits\<close>)

lemma take_until_wf:
  "take_until E s stop buf h = Ok (s', n) \<Longrightarrow> state_wf s \<Longrightarrow> state_wf s'"
proof (induction s buf arbitrary: s' n rule: take_until_induct [where E = E and h = h and stop = stop])
  case (step s buf)
  from step.prems obtain s1 n1 where next_eq: "state_next E s buf h = Ok (s1, n1)"
    by (subst (asm) take_until_unfold) (auto simp: bind_outcome_eq_Ok)
  note wf1 = state_next_wf [OF step.prems(2) next_eq]
  show ?case
  proof (cases "s1 \<in> set stop \<or> length buf \<le> n1")
    case True
    with step.prems(1) next_eq wf1 show ?thesis
      by (subst (asm) take_until_unfold) auto
  next
    case False
    with step.prems(1) next_eq obtain m where "take_until E s1 stop (drop n1 buf) h = Ok (s', m)"
      by (subst (asm) take_until_unfold) (auto simp: bind_outcome_eq_Ok)
    with False show ?thesis
      by (intro step.IH [OF next_eq _ _ _ wf1]) auto
  qed
qed

lemma take_slices_wf:
  "take_slices E s slices h = Ok (s', n) \<Longrightarrow> state_wf s \<Longrightarrow> state_wf s'"
  unfolding take_slices_eq_take_until by (rule take_until_wf)

lemma take_slices_le:
  "take_slices E s slices h = Ok (s', n) \<Longrightarrow> n \<le> length (concat slices)"
  unfolding take_slices_eq_take_until by (rule take_until_le)

section \<open>The layout of an archive, seen by the machine\<close>

named_theorems layout_steps \<open>one stage of an archive consumed by the machine\<close>

text \<open>Shifting a result by the bytes consumed before it.\<close>

definition shifted :: "usize \<Rightarrow> (state \<times> usize) outcome \<Rightarrow> (state \<times> usize) outcome" where
  "shifted k r = bind_outcome r (\<lambda>(s, n). Ok (s, k + n))"

lemma shifted_simps [simp]:
  "shifted k (Ok (s, n)) = Ok (s, k + n)"
  "shifted k (Err e) = Err e"
  "shifted 0 r = r"
  "shifted k (shifted j r) = shifted (k + j) r"
  by (cases r; auto simp: shifted_def)+

lemma take_until_skip:
  assumes "state_next E s buf h = Ok (s', n)" and "s' \<notin> set stop" and "n < length buf"
  shows "take_until E s stop buf h = shifted n (take_until E s' stop (drop n buf) h)"
  using assms by (simp add: take_until_unfold [of E s] shifted_def)

lemma take_until_halt:
  assumes "state_next E s buf h = Ok (s', n)" and "s' \<in> set stop \<or> n = length buf"
  shows "take_until E s stop buf h = Ok (s', n)"
  using assms by (auto simp: take_until_unfold [of E s])

lemma take_header [layout_steps]:
  assumes "hdr_entry_size E hdr = Inr n" and "buf \<noteq> []"
  shows "take_until E ReceivedHeader slices_stop buf (Some hdr) =
    take_until E (ReceivingData n) slices_stop buf (Some hdr)"
  using assms take_until_skip [of E ReceivedHeader buf "Some hdr" "ReceivingData n" 0 slices_stop]
  by (simp add: entry_size_of_def slices_stop_def)

lemma take_data [layout_steps]:
  assumes "length data = unat n" and "buf \<noteq> []"
  shows "take_until E (ReceivingData n) slices_stop (data @ buf) h =
    shifted (length data) (take_until E ReceivedData slices_stop buf h)"
  using assms take_until_skip [of E "ReceivingData n" "data @ buf" h ReceivedData "length data" slices_stop]
  by (simp add: next_receiving_data_def advance_def slices_stop_def)

lemma take_padding [layout_steps]:
  assumes "hdr_entry_size E hdr = Inr n" and "\<not> debug_assertions E \<or> unat n + 511 < 2 ^ 64"
    and "length pad = padding 512 (unat n)" and "buf \<noteq> []"
  shows "take_until E ReceivedData slices_stop (pad @ buf) (Some hdr) =
    shifted (length pad) (take_until E ExpectingHeader slices_stop buf (Some hdr))"
  using assms
    take_until_skip [OF state_next_ReceivedData [OF assms(1,2)], of slices_stop "pad @ buf"]
    take_until_skip [of E "AligningData (length pad)" "pad @ buf" "Some hdr" AlignedData "length pad" slices_stop]
    take_until_skip [of E AlignedData buf "Some hdr" ExpectingHeader 0 slices_stop]
  by (simp add: slices_stop_def advance_def)

lemma take_first_block [layout_steps]:
  assumes "length blk = 512"
  shows "\<not> all_zero blk \<Longrightarrow>
      take_until E ExpectingHeader slices_stop (blk @ buf) h = Ok (ReceivedHeader, 512)"
    and "all_zero blk \<Longrightarrow> buf \<noteq> [] \<Longrightarrow>
      take_until E ExpectingHeader slices_stop (blk @ buf) h =
        shifted 512 (take_until E (ReceivingEof 512) slices_stop buf h)"
proof -
  have start: "take_until E ExpectingHeader slices_stop (blk @ buf) h =
      take_until E (ReceivingHeader 512 True) slices_stop (blk @ buf) h"
    using assms take_until_skip [of E ExpectingHeader "blk @ buf" h "ReceivingHeader 512 True" 0 slices_stop]
    by (simp add: slices_stop_def)
  then show "\<not> all_zero blk \<Longrightarrow>
      take_until E ExpectingHeader slices_stop (blk @ buf) h = Ok (ReceivedHeader, 512)"
    using assms
    by (simp, intro take_until_halt) (simp_all add: read_run_def advance_def slices_stop_def)
  show "all_zero blk \<Longrightarrow> buf \<noteq> [] \<Longrightarrow>
      take_until E ExpectingHeader slices_stop (blk @ buf) h =
        shifted 512 (take_until E (ReceivingEof 512) slices_stop buf h)"
    using assms start
      take_until_skip [of E "ReceivingHeader 512 True" "blk @ buf" h "ReceivingEof 512" 512 slices_stop]
    by (simp add: read_run_def advance_def slices_stop_def)
qed

lemma take_second_block [layout_steps]:
  assumes "length blk = 512"
  shows "all_zero blk \<Longrightarrow>
      take_until E (ReceivingEof 512) slices_stop (blk @ buf) h = Ok (ReceivedEof, 512)"
    and "\<not> all_zero blk \<Longrightarrow>
      take_until E (ReceivingEof 512) slices_stop (blk @ buf) h =
        Err (state_error_into Error_ExpectingEmptyBlock)"
  using assms
  by (auto intro!: take_until_halt simp: read_run_def advance_def slices_stop_def)
    (simp add: take_until_unfold read_run_def advance_def)

section \<open>Properties of the machine\<close>

text \<open>
  C18. Chunking does not matter: the state and the number of bytes \<open>take_slices\<close> reports, and
  its error, are those of the concatenation of the slices, wherever they are cut and
  however many of them are empty.
\<close>

theorem take_slices_chunking:
  "take_slices E s slices h = take_slices E s [concat slices] h"
  by (simp add: take_slices_eq_take_until)

text \<open>
  C22. From one entry to the next: after a header of an entry of \<open>n\<close> bytes, the machine takes
  the data, the padding up to the next multiple of 512 and the next header, and stops
  exactly at its end, whatever follows.
\<close>

theorem take_slices_next_header:
  assumes "hdr_entry_size E hdr = Inr n" and "\<not> debug_assertions E \<or> unat n + 511 < 2 ^ 64"
    and "length data = unat n" and "length pad = padding 512 (unat n)"
    and "length next_hdr = 512" and "\<not> all_zero next_hdr"
  shows "take_slices E ReceivedHeader [data @ pad @ next_hdr @ rest] (Some hdr) =
    Ok (ReceivedHeader, length data + length pad + 512)"
proof -
  have "next_hdr \<noteq> []" using assms(5) by auto
  then show ?thesis
    using assms by (simp add: take_slices_eq_take_until layout_steps)
qed

theorem take_slices_next_header_witness:
  "take_slices (sample_cfg True) ReceivedHeader
     [[7, 8, 9] @ replicate 509 0 @ sample_header 5 @ [5]] (Some (sample_header 3)) =
   Ok (ReceivedHeader, 1024)"
  using take_slices_next_header [of "sample_cfg True" "sample_header 3" 3 "[7, 8, 9]"
      "replicate 509 0" "sample_header 5" "[5]"]
  by (simp add: padding_def)

text \<open>
  C23. The end of an archive: two empty blocks after the padding of the last entry take the
  machine to its final state and it reads nothing of what follows; where the second
  block is not empty, the archive is rejected.
\<close>

theorem take_slices_end_of_archive:
  assumes "hdr_entry_size E hdr = Inr n" and "\<not> debug_assertions E \<or> unat n + 511 < 2 ^ 64"
    and "length data = unat n" and "length pad = padding 512 (unat n)"
    and "length blk = 512"
  shows "take_slices E ReceivedHeader [data @ pad @ EMPTY_BLOCK @ blk @ rest] (Some hdr) =
    (if all_zero blk then Ok (ReceivedEof, length data + length pad + 1024)
     else Err (state_error_into Error_ExpectingEmptyBlock))"
proof -
  have "blk \<noteq> []" "EMPTY_BLOCK \<noteq> []" using assms(5) by (auto simp: EMPTY_BLOCK_def)
  then show ?thesis
    using assms by (simp add: take_slices_eq_take_until layout_steps)
qed

theorem take_slices_end_of_archive_witness:
  "take_slices (sample_cfg True) ReceivedHeader
     [[7, 8, 9] @ replicate 509 0 @ EMPTY_BLOCK @ sample_header 5 @ [5]] (Some (sample_header 3)) =
   Err (IoError InvalidData ''expecting empty block'')"
  using take_slices_end_of_archive [of "sample_cfg True" "sample_header 3" 3 "[7, 8, 9]"
      "replicate 509 0" "sample_header 5" "[5]"]
  by (simp add: padding_def state_error_into_def state_error_kind_def)

text \<open>
  C21. Consuming a marker explicitly changes nothing about what is read: where \<open>take_marker\<close>
  succeeds, the machine takes any bytes from the state after it as from the marker; where
  it fails it keeps the state, and taking bytes fails in the same way; away from a marker
  it panics.
\<close>

theorem take_marker_transparent:
  assumes "concat slices \<noteq> []"
  shows "case take_marker E s h of
      (Ok _, s') \<Rightarrow> is_marker s \<and> take_slices E s' slices h = take_slices E s slices h
    | (Err e, s') \<Rightarrow> s' = s \<and> take_slices E s slices h = Err e
    | (Pending, s') \<Rightarrow> False
    | (Panic p, s') \<Rightarrow> s' = s \<and> (is_marker s \<longrightarrow> take_slices E s slices h = Panic p)"
proof (cases "is_marker s")
  case False
  then show ?thesis by (simp add: take_marker_def)
next
  case True
  have same: "state_next E s buf h = state_next E s [] h" for buf
    using True by (cases s) simp_all
  show ?thesis
  proof (cases "state_next E s [] h")
    case (Ok r)
    then obtain s' n where next_eq: "state_next E s [] h = Ok (s', n)" by (cases r) auto
    have "n = 0" using state_next_le [OF next_eq] by simp
    moreover have "s' \<notin> set slices_stop"
      using True next_eq by (cases s) (auto simp: slices_stop_def bind_outcome_eq_Ok)
    ultimately have "take_slices E s slices h = take_slices E s' slices h"
      using take_until_skip [of E s "concat slices" h s' n slices_stop] next_eq same assms
      by (simp add: take_slices_eq_take_until)
    with True next_eq \<open>n = 0\<close> show ?thesis by (simp add: take_marker_def)
  next
    case (Err e)
    with True same [of "concat slices"] show ?thesis
      by (simp add: take_marker_def take_slices_eq_take_until take_until_unfold [of E s])
  next
    case Pending
    with True show ?thesis by (cases s) (auto simp: entry_size_of_def next_multiple_of_def Let_def
        bind_outcome_def split: outcome.splits option.splits if_splits)
  next
    case (Panic p)
    with True same [of "concat slices"] show ?thesis
      by (simp add: take_marker_def take_slices_eq_take_until take_until_unfold [of E s])
  qed
qed

theorem take_marker_transparent_witness:
  "case take_marker (sample_cfg True) ReceivedHeader (Some (sample_header 3)) of
      (Ok _, s') \<Rightarrow> take_slices (sample_cfg True) s' [[], [1, 2]] (Some (sample_header 3)) =
        take_slices (sample_cfg True) ReceivedHeader [[], [1, 2]] (Some (sample_header 3))
    | _ \<Rightarrow> False"
  using take_marker_transparent [where slices = "[[], [1, 2]]" and E = "sample_cfg True" and
      s = ReceivedHeader and h = "Some (sample_header 3)"]
  by (simp add: take_marker_def entry_size_of_def)

text \<open>
  Where a \<open>usize\<close> has 32 bits, data of which a positive multiple of 4 GiB is missing makes no
  progress: the transition truncates the counter to zero and takes nothing of any buffer.
\<close>

theorem receiving_data_stalls_32:
  assumes "rem \<noteq> 0" and "2 ^ 32 dvd unat rem"
  shows "next_receiving_data 32 rem buf = (ReceivingData rem, 0)"
proof -
  have "as_usize 32 rem = 0"
    using assms(2) by (simp add: as_usize_def)
  with assms(1) show ?thesis
    by (simp add: next_receiving_data_def advance_def)
qed

theorem receiving_data_stalls_32_witness:
  "next_receiving_data 32 4294967296 [1, 2, 3] = (ReceivingData 4294967296, 0)"
  using receiving_data_stalls_32 [of 4294967296 "[1, 2, 3]"] by simp

end
