(* ===== verification/Buffers.thy ===== *)
theory Buffers
  imports Prelude
begin

text \<open>
  The fixed-size buffer between an archive and its I/O object
  (\<open>src/shared/buffer.rs\<close>): \<open>Buf\<close> with its two cursors, the regions \<open>Region\<close> and
  \<open>RegionMut\<close> that borrow it, and the traits \<open>ReadableRegion\<close> and \<open>WritableRegion\<close>.
\<close>

section \<open>The buffer and its regions\<close>

record buf =
  buf_store :: bytes
  buf_cap :: usize   \<comment> \<open>the write cursor\<close>
  buf_pos :: usize   \<comment> \<open>the read cursor\<close>

text \<open>
  A region borrows the bytes and a mutable reference to one of the cursors. It is a value
  holding both; what it does to the cursor or the bytes is written back to the buffer
  when the borrow ends (\<open>put_buffered\<close>, \<open>put_available\<close>).
\<close>

record region =
  rg_buf :: bytes
  rg_pos :: usize

record region_mut =
  rm_buf :: bytes
  rm_pos :: usize

definition buf_new :: "usize \<Rightarrow> buf" where
  "buf_new capacity = \<lparr>buf_store = replicate capacity 0, buf_cap = 0, buf_pos = 0\<rparr>"

definition buf_capacity :: "buf \<Rightarrow> usize" where
  "buf_capacity b = length (buf_store b)"

definition buf_clear :: "buf \<Rightarrow> buf" where
  "buf_clear b = b\<lparr>buf_cap := 0, buf_pos := 0\<rparr>"

definition buffered :: "buf \<Rightarrow> region outcome" where
  "buffered b =
     bind_outcome (slice_to (buf_store b) (buf_cap b)) (\<lambda>bytes.
     Ok \<lparr>rg_buf = bytes, rg_pos = buf_pos b\<rparr>)"

definition put_buffered :: "buf \<Rightarrow> region \<Rightarrow> buf" where
  "put_buffered b r = b\<lparr>buf_pos := rg_pos r\<rparr>"

definition buffered_bytes :: "buf \<Rightarrow> bytes outcome" where
  "buffered_bytes b = slice_range (buf_store b) (buf_pos b) (buf_cap b)"

definition available :: "buf \<Rightarrow> region_mut" where
  "available b = \<lparr>rm_buf = buf_store b, rm_pos = buf_cap b\<rparr>"

definition put_available :: "buf \<Rightarrow> region_mut \<Rightarrow> buf" where
  "put_available b r = b\<lparr>buf_store := rm_buf r, buf_cap := rm_pos r\<rparr>"

definition available_bytes_mut :: "buf \<Rightarrow> bytes outcome" where
  "available_bytes_mut b = slice_from (buf_store b) (buf_cap b)"

section \<open>The traits\<close>

text \<open>
  The provided methods over the required ones (\<open>buf\<close>, \<open>position\<close>, \<open>set_position\<close>,
  \<open>buf_mut\<close>). The subtraction in \<open>remaining\<close> panics below zero with overflow checks
  and wraps without them.
\<close>

definition usize_sub :: "bool \<Rightarrow> usize \<Rightarrow> usize \<Rightarrow> usize outcome" where
  "usize_sub checks a b =
     (if b \<le> a then Ok (a - b)
      else if checks then Panic ArithmeticOverflow
      else Ok (2 ^ usize_bits + a - b))"

definition region_capacity :: "('r \<Rightarrow> bytes) \<Rightarrow> 'r \<Rightarrow> usize" where
  "region_capacity buf_of r = length (buf_of r)"

definition region_remaining ::
  "('r \<Rightarrow> bytes) \<Rightarrow> ('r \<Rightarrow> usize) \<Rightarrow> bool \<Rightarrow> 'r \<Rightarrow> usize outcome" where
  "region_remaining buf_of position checks r =
     usize_sub checks (region_capacity buf_of r) (position r)"

definition region_commit ::
  "('r \<Rightarrow> usize) \<Rightarrow> ('r \<Rightarrow> usize \<Rightarrow> 'r) \<Rightarrow> 'r \<Rightarrow> usize \<Rightarrow> 'r outcome" where
  "region_commit position set_position r amt =
     bind_outcome (expect_some (checked_add (position r) amt)) (\<lambda>pos. Ok (set_position r pos))"

definition region_bytes :: "('r \<Rightarrow> bytes) \<Rightarrow> ('r \<Rightarrow> usize) \<Rightarrow> 'r \<Rightarrow> bytes outcome" where
  "region_bytes buf_of position r = slice_from (buf_of r) (position r)"

definition region_bytes_mut :: "('r \<Rightarrow> bytes) \<Rightarrow> ('r \<Rightarrow> usize) \<Rightarrow> 'r \<Rightarrow> bytes outcome" where
  "region_bytes_mut buf_of position r = slice_from (buf_of r) (position r)"

definition region_fill ::
  "('r \<Rightarrow> bytes) \<Rightarrow> ('r \<Rightarrow> usize) \<Rightarrow> ('r \<Rightarrow> usize \<Rightarrow> 'r) \<Rightarrow> ('r \<Rightarrow> bytes \<Rightarrow> 'r) \<Rightarrow> bool \<Rightarrow>
    'r \<Rightarrow> bytes \<Rightarrow> (usize \<times> 'r) outcome" where
  "region_fill buf_of position set_position set_buf checks r data =
     bind_outcome (region_remaining buf_of position checks r) (\<lambda>max.
       let len = min (length data) max in
       if 0 < len then
         bind_outcome (region_bytes_mut buf_of position r) (\<lambda>dst.
         bind_outcome (slice_to dst len) (\<lambda>_.
         bind_outcome
           (region_commit position set_position
              (set_buf r (copy_at (buf_of r) (position r) (take len data))) len) (\<lambda>r'.
         Ok (len, r'))))
       else Ok (len, r))"

fun region_fill_from_slices ::
  "('r \<Rightarrow> bytes) \<Rightarrow> ('r \<Rightarrow> usize) \<Rightarrow> ('r \<Rightarrow> usize \<Rightarrow> 'r) \<Rightarrow> ('r \<Rightarrow> bytes \<Rightarrow> 'r) \<Rightarrow> bool \<Rightarrow>
    usize \<Rightarrow> 'r \<Rightarrow> bytes list \<Rightarrow> (usize \<times> 'r) outcome" where
  "region_fill_from_slices buf_of position set_position set_buf checks len r [] = Ok (len, r)"
| "region_fill_from_slices buf_of position set_position set_buf checks len r (s # slices) =
     bind_outcome (region_fill buf_of position set_position set_buf checks r s) (\<lambda>(n, r').
       region_fill_from_slices buf_of position set_position set_buf checks (len + n) r' slices)"

subsection \<open>The implementations\<close>

definition rg_set_position :: "region \<Rightarrow> usize \<Rightarrow> region" where
  "rg_set_position r pos = r\<lparr>rg_pos := pos\<rparr>"

definition rg_len :: "bool \<Rightarrow> region \<Rightarrow> usize outcome" where
  "rg_len checks r = region_remaining rg_buf rg_pos checks r"

definition rg_is_empty :: "bool \<Rightarrow> region \<Rightarrow> bool outcome" where
  "rg_is_empty checks r = bind_outcome (rg_len checks r) (\<lambda>n. Ok (n = 0))"

definition rg_commit :: "region \<Rightarrow> usize \<Rightarrow> region outcome" where
  "rg_commit = region_commit rg_pos rg_set_position"

definition rg_bytes :: "region \<Rightarrow> bytes outcome" where
  "rg_bytes = region_bytes rg_buf rg_pos"

definition rm_set_position :: "region_mut \<Rightarrow> usize \<Rightarrow> region_mut" where
  "rm_set_position r pos = r\<lparr>rm_pos := pos\<rparr>"

definition rm_set_buf :: "region_mut \<Rightarrow> bytes \<Rightarrow> region_mut" where
  "rm_set_buf r bytes = r\<lparr>rm_buf := bytes\<rparr>"

definition rm_len :: "region_mut \<Rightarrow> usize" where
  "rm_len r = rm_pos r"

definition rm_is_empty :: "region_mut \<Rightarrow> bool" where
  "rm_is_empty r \<longleftrightarrow> rm_len r = 0"

definition rm_bytes :: "region_mut \<Rightarrow> bytes outcome" where
  "rm_bytes = region_bytes rm_buf rm_pos"

definition rm_bytes_mut :: "region_mut \<Rightarrow> bytes outcome" where
  "rm_bytes_mut = region_bytes_mut rm_buf rm_pos"

definition rm_remaining :: "bool \<Rightarrow> region_mut \<Rightarrow> usize outcome" where
  "rm_remaining = region_remaining rm_buf rm_pos"

definition rm_commit :: "region_mut \<Rightarrow> usize \<Rightarrow> region_mut outcome" where
  "rm_commit = region_commit rm_pos rm_set_position"

definition rm_fill :: "bool \<Rightarrow> region_mut \<Rightarrow> bytes \<Rightarrow> (usize \<times> region_mut) outcome" where
  "rm_fill = region_fill rm_buf rm_pos rm_set_position rm_set_buf"

definition rm_fill_from_slices ::
  "bool \<Rightarrow> region_mut \<Rightarrow> bytes list \<Rightarrow> (usize \<times> region_mut) outcome" where
  "rm_fill_from_slices checks r slices =
     region_fill_from_slices rm_buf rm_pos rm_set_position rm_set_buf checks 0 r slices"

text \<open>What \<open>{:?}\<close> prints of a buffer and its regions: the sizes and cursors, not the bytes.\<close>

definition buf_debug :: "buf \<Rightarrow> string" where
  "buf_debug b =
     ''Buf { buf: '' @ show_nat (length (buf_store b)) @ '', cap: '' @ show_nat (buf_cap b) @
     '', pos: '' @ show_nat (buf_pos b) @ '' }''"

definition region_debug :: "region \<Rightarrow> string" where
  "region_debug r =
     ''Region { buf: '' @ show_nat (length (rg_buf r)) @ '', pos: '' @ show_nat (rg_pos r) @
     '', capacity: '' @ show_nat (region_capacity rg_buf r) @ '' }''"

definition region_mut_debug :: "region_mut \<Rightarrow> string" where
  "region_mut_debug r =
     ''RegionMut { buf: '' @ show_nat (length (rm_buf r)) @ '', pos: '' @ show_nat (rm_pos r) @
     '', capacity: '' @ show_nat (region_capacity rm_buf r) @ '' }''"

section \<open>The contracts of the traits\<close>

text \<open>A readable region: its cursor can be set, and setting it leaves the bytes alone.\<close>

locale readable_region =
  fixes buf_of :: "'r \<Rightarrow> bytes"
    and position :: "'r \<Rightarrow> usize"
    and set_position :: "'r \<Rightarrow> usize \<Rightarrow> 'r"
  assumes position_set_position [simp]: "position (set_position r p) = p"
    and buf_of_set_position [simp]: "buf_of (set_position r p) = buf_of r"
begin

lemma remaining_eq:
  "position r \<le> length (buf_of r) \<Longrightarrow>
    region_remaining buf_of position checks r = Ok (length (buf_of r) - position r)"
  by (simp add: region_remaining_def region_capacity_def usize_sub_def)

lemma commit_eq:
  assumes "position r + n \<le> length (buf_of r)" and "length (buf_of r) \<le> usize_max"
  shows "region_commit position set_position r n = Ok (set_position r (position r + n))"
  using assms by (simp add: region_commit_def checked_add_def)

lemma bytes_eq:
  "position r \<le> length (buf_of r) \<Longrightarrow>
    region_bytes buf_of position r = Ok (drop (position r) (buf_of r))"
  by (simp add: region_bytes_def slice_in_range)

lemma bytes_after_commit:
  assumes "position r + n \<le> length (buf_of r)" and "length (buf_of r) \<le> usize_max"
    and "region_bytes buf_of position r = Ok bs"
    and "region_commit position set_position r n = Ok r'"
  shows "region_bytes buf_of position r' = Ok (drop n bs)"
  using assms by (auto simp: commit_eq bytes_eq add.commute)

end

text \<open>A writable region: its bytes can be replaced too.\<close>

locale writable_region = readable_region +
  fixes set_buf :: "'r \<Rightarrow> bytes \<Rightarrow> 'r"
  assumes buf_of_set_buf [simp]: "buf_of (set_buf r bs) = bs"
    and position_set_buf [simp]: "position (set_buf r bs) = position r"
begin

abbreviation "fill \<equiv> region_fill buf_of position set_position set_buf"
abbreviation "fill_slices \<equiv> region_fill_from_slices buf_of position set_position set_buf"

lemma fill_spec:
  fixes data :: bytes
  assumes "position r \<le> length (buf_of r)" and "length (buf_of r) \<le> usize_max"
  defines "n \<equiv> min (length data) (length (buf_of r) - position r)"
  obtains r' where "fill checks r data = Ok (n, r')"
    and "buf_of r' = copy_at (buf_of r) (position r) (take n data)"
    and "position r' = position r + n"
proof (cases "0 < n")
  case True
  let ?r = "set_buf r (copy_at (buf_of r) (position r) (take n data))"
  have len: "position r + length (take n data) \<le> length (buf_of r)"
    using assms by auto
  then have "fill checks r data = Ok (n, set_position ?r (position r + n))"
    using True assms commit_eq [of ?r n]
    by (simp add: region_fill_def remaining_eq Let_def region_bytes_mut_def slice_in_range)
  then show thesis by (rule that) simp_all
next
  case False
  then have "fill checks r data = Ok (n, r)"
    using assms by (auto simp: region_fill_def remaining_eq Let_def)
  then show thesis by (rule that) (use False in simp_all)
qed

lemma min_split: "min (a + b) c = min a c + min b (c - min a c)" for a b c :: nat
  by (auto simp: min_def)

lemma fill_slices_spec:
  assumes "position r \<le> length (buf_of r)" and "length (buf_of r) \<le> usize_max"
  shows "\<exists>r'. let n = min (length (concat slices)) (length (buf_of r) - position r) in
    fill_slices checks acc r slices = Ok (acc + n, r') \<and>
    buf_of r' = copy_at (buf_of r) (position r) (take n (concat slices)) \<and>
    position r' = position r + n"
  using assms
proof (induction slices arbitrary: acc r)
  case Nil
  then show ?case by simp
next
  case (Cons s slices)
  define n where "n = min (length s) (length (buf_of r) - position r)"
  obtain r1 where r1: "fill checks r s = Ok (n, r1)"
      "buf_of r1 = copy_at (buf_of r) (position r) (take n s)" "position r1 = position r + n"
    using fill_spec [OF Cons.prems, where data = s and checks = checks] unfolding n_def by metis
  have len1: "length (buf_of r1) = length (buf_of r)"
    using r1(2) Cons.prems by (simp add: n_def)
  define m where "m = min (length (concat slices)) (length (buf_of r1) - position r1)"
  have le: "position r + n \<le> length (buf_of r)"
    using Cons.prems(1) by (simp add: n_def)
  then obtain r2 where r2: "fill_slices checks (acc + n) r1 slices = Ok (acc + n + m, r2)"
      "buf_of r2 = copy_at (buf_of r1) (position r1) (take m (concat slices))"
      "position r2 = position r1 + m"
    using Cons.IH [of r1 "acc + n"] Cons.prems(2) r1(3) len1 unfolding m_def Let_def by auto
  have total: "min (length (concat (s # slices))) (length (buf_of r) - position r) = n + m"
    using min_split [of "length s" "length (concat slices)" "length (buf_of r) - position r"]
      r1(3) len1 by (simp add: n_def m_def diff_diff_eq)
  have "take (n + m) (concat (s # slices)) = take n s @ take m (concat slices)"
    using r1(3) len1 by (cases "length s \<le> length (buf_of r) - position r") (simp_all add: n_def m_def)
  moreover have "copy_at (copy_at (buf_of r) (position r) (take n s)) (position r + n)
      (take m (concat slices)) = copy_at (buf_of r) (position r) (take n s @ take m (concat slices))"
    using le by (simp add: copy_at_def n_def min_def add.assoc add.commute add.left_commute)
  ultimately show ?case
    using r1 r2 total by (auto simp: Let_def add.assoc)
qed

end

interpretation rg: readable_region rg_buf rg_pos rg_set_position
  by unfold_locales (simp_all add: rg_set_position_def)

interpretation rm: writable_region rm_buf rm_pos rm_set_position rm_set_buf
  by unfold_locales (simp_all add: rm_set_position_def rm_set_buf_def)

section \<open>The buffer as a queue of bytes\<close>

text \<open>
  The archive uses a buffer through its regions in four ways: it fills the available
  region, advances the cursor of either region and clears the buffer.
\<close>

definition buf_remaining :: "bool \<Rightarrow> buf \<Rightarrow> usize outcome" where
  "buf_remaining checks b = rm_remaining checks (available b)"

definition buf_write :: "bool \<Rightarrow> buf \<Rightarrow> bytes list \<Rightarrow> (usize \<times> buf) outcome" where
  "buf_write checks b slices =
     bind_outcome (rm_fill_from_slices checks (available b) slices) (\<lambda>(n, r).
     Ok (n, put_available b r))"

definition buf_commit_available :: "buf \<Rightarrow> usize \<Rightarrow> buf outcome" where
  "buf_commit_available b n =
     bind_outcome (rm_commit (available b) n) (\<lambda>r. Ok (put_available b r))"

definition buf_commit_buffered :: "buf \<Rightarrow> usize \<Rightarrow> buf outcome" where
  "buf_commit_buffered b n =
     bind_outcome (buffered b) (\<lambda>r. bind_outcome (rg_commit r n) (\<lambda>r'. Ok (put_buffered b r')))"

text \<open>What is in the queue, the room behind it, and when the cursors make sense.\<close>

definition buf_contents :: "buf \<Rightarrow> bytes" where
  "buf_contents b = drop (buf_pos b) (take (buf_cap b) (buf_store b))"

definition buf_room :: "buf \<Rightarrow> usize" where
  "buf_room b = length (buf_store b) - buf_cap b"

definition buf_wf :: "buf \<Rightarrow> bool" where
  "buf_wf b \<longleftrightarrow> buf_pos b \<le> buf_cap b \<and> buf_cap b \<le> length (buf_store b) \<and>
     length (buf_store b) \<le> usize_max"

lemma buf_new_simps [simp]:
  "buf_contents (buf_new c) = []" "buf_room (buf_new c) = c" "buf_capacity (buf_new c) = c"
  "buf_wf (buf_new c) \<longleftrightarrow> c \<le> usize_max"
  by (simp_all add: buf_new_def buf_contents_def buf_room_def buf_capacity_def buf_wf_def)

text \<open>
  The contract the archive works with: bytes leave the queue in the order they entered it,
  and an operation within the bounds does not panic.
\<close>

locale byte_queue =
  fixes wf :: "'q \<Rightarrow> bool"
    and contents :: "'q \<Rightarrow> bytes"
    and room :: "'q \<Rightarrow> usize"
    and capacity :: "'q \<Rightarrow> usize"
    and push :: "'q \<Rightarrow> bytes list \<Rightarrow> (usize \<times> 'q) outcome"
    and pop :: "'q \<Rightarrow> usize \<Rightarrow> 'q outcome"
    and clear :: "'q \<Rightarrow> 'q"
  assumes push_spec: "wf q \<Longrightarrow> \<exists>q'. push q slices = Ok (min (length (concat slices)) (room q), q') \<and>
      contents q' = contents q @ take (room q) (concat slices) \<and>
      room q' = room q - length (concat slices) \<and> capacity q' = capacity q \<and> wf q'"
    and pop_spec: "wf q \<Longrightarrow> n \<le> length (contents q) \<Longrightarrow> \<exists>q'. pop q n = Ok q' \<and>
      contents q' = drop n (contents q) \<and> room q' = room q \<and> capacity q' = capacity q \<and> wf q'"
    and clear_spec: "wf q \<Longrightarrow> contents (clear q) = [] \<and> room (clear q) = capacity q \<and>
      capacity (clear q) = capacity q \<and> wf (clear q)"
begin

lemma push_all:
  assumes "wf q" and "length (concat slices) \<le> room q"
  obtains q' where "push q slices = Ok (length (concat slices), q')"
    and "contents q' = contents q @ concat slices" and "capacity q' = capacity q" and "wf q'"
  using push_spec [OF assms(1), of slices] assms(2) by auto

lemma push_partial:
  assumes "wf q" and "push q slices = Ok (n, q')"
  shows "n = min (length (concat slices)) (room q)" and "n \<le> length (concat slices)"
    and "contents q' = contents q @ take n (concat slices)"
    and "capacity q' = capacity q" and "wf q'"
  using push_spec [OF assms(1), of slices] assms(2) by (auto simp: min_def)

lemma pop_all:
  assumes "wf q"
  obtains q' where "pop q (length (contents q)) = Ok q'" and "contents q' = []"
    and "capacity q' = capacity q" and "wf q'"
  using pop_spec [OF assms, of "length (contents q)"] by auto

lemma push_pop:
  assumes "wf q" and "push q slices = Ok (n, q1)" and "m \<le> length (contents q)"
  obtains q2 where "pop q1 m = Ok q2"
    and "contents q2 = drop m (contents q) @ take n (concat slices)"
  using push_partial [OF assms(1,2)] pop_spec [of q1 m] assms(3) by auto

end

lemma region_mut_store: "rm_buf (available b) = buf_store b" "rm_pos (available b) = buf_cap b"
  by (simp_all add: available_def)

lemma buf_write_spec:
  assumes wf: "buf_wf b"
  shows "\<exists>b'. buf_write checks b slices = Ok (min (length (concat slices)) (buf_room b), b') \<and>
    buf_contents b' = buf_contents b @ take (buf_room b) (concat slices) \<and>
    buf_room b' = buf_room b - length (concat slices) \<and>
    buf_capacity b' = buf_capacity b \<and> buf_wf b'"
proof -
  define data where "data = take (buf_room b) (concat slices)"
  have len: "length data = min (length (concat slices)) (buf_room b)"
    and data: "take (length data) (concat slices) = data"
    by (auto simp: data_def min_def)
  obtain r where r: "rm_fill_from_slices checks (available b) slices = Ok (length data, r)"
      "rm_buf r = copy_at (buf_store b) (buf_cap b) data"
      "rm_pos r = buf_cap b + length data"
    using rm.fill_slices_spec [of "available b" slices checks 0] wf data len
    by (simp add: region_mut_store buf_wf_def Let_def rm_fill_from_slices_def buf_room_def) metis
  have le: "buf_cap b + length data \<le> length (buf_store b)"
    using wf len by (auto simp: buf_wf_def buf_room_def)
  have "take (buf_cap b + length data) (rm_buf r) = take (buf_cap b) (buf_store b) @ data"
    using take_copy_at [OF le] r(2) by simp
  then have "buf_contents (put_available b r) = buf_contents b @ data"
    using wf r(3) by (simp add: buf_contents_def put_available_def buf_wf_def)
  moreover have "length (rm_buf r) = length (buf_store b)"
    using r(2) le by simp
  ultimately show ?thesis
    using r wf le len unfolding data_def [symmetric]
    by (auto simp: buf_write_def buf_room_def buf_capacity_def buf_wf_def put_available_def min_def)
qed

lemma buf_pop_spec:
  assumes wf: "buf_wf b" and n: "n \<le> length (buf_contents b)"
  shows "\<exists>b'. buf_commit_buffered b n = Ok b' \<and> buf_contents b' = drop n (buf_contents b) \<and>
    buf_room b' = buf_room b \<and> buf_capacity b' = buf_capacity b \<and> buf_wf b'"
proof -
  let ?r = "\<lparr>rg_buf = take (buf_cap b) (buf_store b), rg_pos = buf_pos b\<rparr>"
  have "buffered b = Ok ?r"
    using wf by (simp add: buffered_def buf_wf_def slice_in_range)
  moreover have "rg_commit ?r n = Ok (rg_set_position ?r (buf_pos b + n))"
    unfolding rg_commit_def
    by (subst rg.commit_eq) (use wf n in \<open>auto simp: buf_wf_def buf_contents_def\<close>)
  ultimately show ?thesis
    using wf n
    by (auto simp: buf_commit_buffered_def put_buffered_def rg_set_position_def buf_contents_def
        buf_room_def buf_capacity_def buf_wf_def add.commute)
qed

lemma buf_clear_spec:
  assumes "buf_wf b"
  shows "buf_contents (buf_clear b) = [] \<and> buf_room (buf_clear b) = buf_capacity b \<and>
    buf_capacity (buf_clear b) = buf_capacity b \<and> buf_wf (buf_clear b)"
  using assms
  by (simp add: buf_clear_def buf_contents_def buf_room_def buf_capacity_def buf_wf_def)

interpretation bq: byte_queue buf_wf buf_contents buf_room buf_capacity
    "buf_write checks" buf_commit_buffered buf_clear for checks
  by unfold_locales (rule buf_write_spec buf_pop_spec buf_clear_spec; assumption)+

section \<open>The property of the buffer\<close>

lemma buffered_wf:
  "buf_wf b \<Longrightarrow> buffered b = Ok \<lparr>rg_buf = take (buf_cap b) (buf_store b), rg_pos = buf_pos b\<rparr>"
  by (simp add: buffered_def buf_wf_def slice_in_range)

lemma rg_is_empty_buffered:
  assumes "buf_wf b" and "buffered b = Ok r"
  shows "rg_is_empty checks r = Ok (buf_contents b = [])"
proof -
  have r: "r = \<lparr>rg_buf = take (buf_cap b) (buf_store b), rg_pos = buf_pos b\<rparr>"
    using assms by (simp add: buffered_wf)
  have "rg_len checks r = Ok (buf_cap b - buf_pos b)"
    using assms(1) unfolding rg_len_def r by (subst rg.remaining_eq) (auto simp: buf_wf_def)
  then show ?thesis
    using assms(1) by (auto simp: rg_is_empty_def buf_contents_def buf_wf_def)
qed

text \<open>
  A run of the buffer as the archive uses it: writes of slices, and reads of up to \<open>n\<close>
  bytes that are then committed, with the buffer cleared once it is empty. It returns the
  bytes that went in, the bytes that came out and the buffer after it.
\<close>

datatype buf_op = BufWrite "bytes list" | BufRead usize

fun run_ops :: "bool \<Rightarrow> buf_op list \<Rightarrow> buf \<Rightarrow> (bytes \<times> bytes \<times> buf) outcome" where
  "run_ops checks [] b = Ok ([], [], b)"
| "run_ops checks (BufWrite slices # ops) b =
     bind_outcome (buf_write checks b slices) (\<lambda>(n, b).
     bind_outcome (run_ops checks ops b) (\<lambda>(ins, outs, b).
     Ok (take n (concat slices) @ ins, outs, b)))"
| "run_ops checks (BufRead n # ops) b =
     bind_outcome (buffered_bytes b) (\<lambda>bs.
     bind_outcome (slice_to bs (min n (length bs))) (\<lambda>out.
     bind_outcome (buf_commit_buffered b (length out)) (\<lambda>b.
     bind_outcome (buffered b) (\<lambda>r.
     bind_outcome (rg_is_empty checks r) (\<lambda>is_empty.
     bind_outcome (run_ops checks ops (if is_empty then buf_clear b else b)) (\<lambda>(ins, outs, b).
     Ok (ins, out @ outs, b)))))))"

lemma run_read:
  assumes "buf_wf b"
  obtains b' where "\<And>ops. run_ops checks (BufRead n # ops) b =
      bind_outcome (run_ops checks ops b') (\<lambda>(ins, outs, q).
        Ok (ins, take n (buf_contents b) @ outs, q))"
    and "buf_contents b' = drop n (buf_contents b)" and "buf_capacity b' = buf_capacity b"
    and "buf_wf b'"
proof -
  let ?k = "min n (length (buf_contents b))"
  have cut: "drop ?k (buf_contents b) = drop n (buf_contents b)"
      "take ?k (buf_contents b) = take n (buf_contents b)"
    by (simp_all add: min_def)
  from cut(1) obtain b1 where b1: "buf_commit_buffered b ?k = Ok b1"
      "buf_contents b1 = drop n (buf_contents b)" "buf_capacity b1 = buf_capacity b" "buf_wf b1"
    using bq.pop_spec [OF assms, of ?k] by auto
  define b' where "b' = (if buf_contents b1 = [] then buf_clear b1 else b1)"
  have buffered: "buffered_bytes b = Ok (buf_contents b)"
    using assms by (simp add: buffered_bytes_def buf_contents_def buf_wf_def slice_in_range)
  have run: "run_ops checks (BufRead n # ops) b =
      bind_outcome (run_ops checks ops b') (\<lambda>(ins, outs, q).
        Ok (ins, take n (buf_contents b) @ outs, q))" for ops
    using cut(2) buffered b1(1) buffered_wf [OF b1(4)] rg_is_empty_buffered [OF b1(4) buffered_wf [OF b1(4)]]
    by (simp add: slice_in_range b'_def min.commute cong del: bind_outcome_weak_cong)
  show thesis
    by (rule that [OF run]) (use b1 bq.clear_spec [OF b1(4)] in \<open>auto simp: b'_def\<close>)
qed

text \<open>
  C27. The buffer is a first-in first-out queue of bounded size: any run of writes and reads
  succeeds, what was in it followed by what went in is what came out followed by what is
  left, and its size never changes.
\<close>

theorem buffer_is_fifo:
  assumes "buf_wf b"
  shows "\<exists>ins outs b'. run_ops checks ops b = Ok (ins, outs, b') \<and>
    buf_contents b @ ins = outs @ buf_contents b' \<and> buf_wf b' \<and> buf_capacity b' = buf_capacity b"
  using assms
proof (induction ops arbitrary: b)
  case (Cons op ops)
  show ?case
  proof (cases op)
    case (BufWrite slices)
    obtain n b1 where w: "buf_write checks b slices = Ok (n, b1)"
      using bq.push_spec [OF Cons.prems, of checks slices] by auto
    note b1 = bq.push_partial(3-5) [OF Cons.prems w]
    from Cons.IH [OF b1(3)] obtain ins outs b' where "run_ops checks ops b1 = Ok (ins, outs, b')"
        "buf_contents b1 @ ins = outs @ buf_contents b'" "buf_wf b'" "buf_capacity b' = buf_capacity b1"
      by auto
    with BufWrite w b1 show ?thesis by simp
  next
    case (BufRead n)
    obtain b1 where b1: "\<And>ops. run_ops checks (BufRead n # ops) b =
        bind_outcome (run_ops checks ops b1) (\<lambda>(ins, outs, q).
          Ok (ins, take n (buf_contents b) @ outs, q))"
        "buf_contents b1 = drop n (buf_contents b)" "buf_capacity b1 = buf_capacity b" "buf_wf b1"
      by (rule run_read [OF Cons.prems]) (rule that)
    from Cons.IH [OF b1(4)] obtain ins outs b'
      where run: "run_ops checks ops b1 = Ok (ins, outs, b')"
        and bytes: "buf_contents b1 @ ins = outs @ buf_contents b'" and "buf_wf b'"
        and "buf_capacity b' = buf_capacity b1"
      by auto
    have "buf_contents b @ ins = (take n (buf_contents b) @ outs) @ buf_contents b'"
      using bytes b1(2) by (metis append.assoc append_take_drop_id)
    with run b1(1,3) \<open>buf_wf b'\<close> \<open>buf_capacity b' = _\<close> show ?thesis
      unfolding BufRead b1(1) run by simp
  qed
qed auto

theorem buffer_is_fifo_witness:
  "\<exists>ins outs b'. run_ops True [BufWrite [[1, 2], [3]], BufRead 2, BufWrite [[4, 5, 6]], BufRead 9]
      (buf_new 5) = Ok (ins, outs, b') \<and> ins = outs @ buf_contents b' \<and> buf_capacity b' = 5"
proof -
  have "buf_wf (buf_new 5)"
    by (simp add: usize_max_def usize_bits_def)
  then obtain ins outs b' where "run_ops True [BufWrite [[1, 2], [3]], BufRead 2,
        BufWrite [[4, 5, 6]], BufRead 9] (buf_new 5) = Ok (ins, outs, b')"
      "buf_contents (buf_new 5) @ ins = outs @ buf_contents b'"
      "buf_capacity b' = buf_capacity (buf_new 5)"
    using buffer_is_fifo by blast
  moreover have "buf_contents (buf_new 5) = []" "buf_capacity (buf_new 5) = 5"
    by simp_all
  ultimately show ?thesis by simp
qed

end
