(* ===== verification/Slices.thy ===== *)
theory Slices
  imports Prelude
begin

text \<open>
  Arrays of I/O slices and their splitting at a byte offset without copying
  (\<open>src/shared/slices.rs\<close>): the trait \<open>Slices\<close> with its implementations for arrays of
  \<open>IoSlice\<close> and for \<open>Prefix\<close>, the two halves \<open>Prefix\<close> and \<open>Suffix\<close> of a split,
  and the iterators \<open>TakeBytesLen\<close> and \<open>SkipBytesLen\<close>.
\<close>

section \<open>Prefixes and suffixes\<close>

text \<open>An \<open>IoSlice\<close> dereferences to its bytes.\<close>

type_synonym io_slice = bytes

datatype split_inner = SplitInner (inner_slices: "io_slice list") (inner_remainder: io_slice)

datatype prefix = Prefix (prefix_inner: split_inner)

datatype suffix = Suffix (suffix_inner: split_inner)

definition inner_remainder_slices :: "split_inner \<Rightarrow> io_slice list" where
  "inner_remainder_slices p = [inner_remainder p]"

definition prefix_from_parts :: "io_slice list \<Rightarrow> bytes \<Rightarrow> prefix" where
  "prefix_from_parts slices remainder = Prefix (SplitInner slices remainder)"

definition prefix_slices :: "prefix \<Rightarrow> io_slice list" where
  "prefix_slices p = inner_slices (prefix_inner p)"

definition prefix_remainder_slices :: "prefix \<Rightarrow> io_slice list" where
  "prefix_remainder_slices p = inner_remainder_slices (prefix_inner p)"

definition prefix_remainder :: "prefix \<Rightarrow> bytes" where
  "prefix_remainder p = hd (prefix_remainder_slices p)"

definition suffix_from_parts :: "io_slice list \<Rightarrow> bytes \<Rightarrow> suffix" where
  "suffix_from_parts slices remainder = Suffix (SplitInner slices remainder)"

definition suffix_slices :: "suffix \<Rightarrow> io_slice list" where
  "suffix_slices p = inner_slices (suffix_inner p)"

definition suffix_remainder_slices :: "suffix \<Rightarrow> io_slice list" where
  "suffix_remainder_slices p = inner_remainder_slices (suffix_inner p)"

definition suffix_remainder :: "suffix \<Rightarrow> bytes" where
  "suffix_remainder p = hd (suffix_remainder_slices p)"

definition suffix_empty :: suffix where
  "suffix_empty = suffix_from_parts [] []"

section \<open>The iterators\<close>

definition array_iter_slices :: "io_slice list \<Rightarrow> io_slice list" where
  "array_iter_slices xs = xs"

definition prefix_iter_slices :: "prefix \<Rightarrow> io_slice list" where
  "prefix_iter_slices p = prefix_slices p @ prefix_remainder_slices p"

definition suffix_iter_slices :: "suffix \<Rightarrow> io_slice list" where
  "suffix_iter_slices p = suffix_remainder_slices p @ suffix_slices p"

text \<open>\<open>into_buffers\<close> maps each slice to the bytes it refers to, \<open>&slice[..]\<close>.\<close>

definition into_buffers :: "io_slice list \<Rightarrow> bytes list" where
  "into_buffers slices = map (\<lambda>s. take (length s) s) slices"

definition prefix_iter_buffers :: "prefix \<Rightarrow> bytes list" where
  "prefix_iter_buffers p = into_buffers (prefix_iter_slices p)"

definition bytes_len :: "io_slice list \<Rightarrow> usize" where
  "bytes_len slices = foldl (\<lambda>acc b. saturating_add acc (length b)) 0 slices"

section \<open>Splitting\<close>

text \<open>\<open>[T]::split_at\<close> panics outside the array.\<close>

definition split_at :: "'a list \<Rightarrow> usize \<Rightarrow> ('a list \<times> 'a list) outcome" where
  "split_at xs i = (if i \<le> length xs then Ok (take i xs, drop i xs) else Panic IndexOutOfRange)"

definition array_as_prefix :: "io_slice list \<Rightarrow> prefix" where
  "array_as_prefix xs = prefix_from_parts xs []"

definition array_split_at_index ::
  "io_slice list \<Rightarrow> usize \<Rightarrow> usize \<Rightarrow> (prefix \<times> suffix) outcome" where
  "array_split_at_index self index offset =
     bind_outcome (split_at self index) (\<lambda>(prefix, suffix).
       if offset = 0 then Ok (prefix_from_parts prefix [], suffix_from_parts suffix [])
       else
         bind_outcome (split_at suffix 1) (\<lambda>(buf, suffix).
         bind_outcome (slice_to (buf ! 0) offset) (\<lambda>left.
         bind_outcome (slice_from (buf ! 0) offset) (\<lambda>right.
         Ok (prefix_from_parts prefix left, suffix_from_parts suffix right)))))"

definition prefix_as_prefix :: "prefix \<Rightarrow> prefix" where
  "prefix_as_prefix p = prefix_from_parts (prefix_slices p) (prefix_remainder p)"

definition prefix_split_at_index ::
  "prefix \<Rightarrow> usize \<Rightarrow> usize \<Rightarrow> (prefix \<times> suffix) outcome" where
  "prefix_split_at_index self index offset =
     (if index = length (prefix_slices self) then
        bind_outcome (slice_to (prefix_remainder self) offset) (\<lambda>left.
        bind_outcome (slice_from (prefix_remainder self) offset) (\<lambda>right.
        Ok (prefix_from_parts (prefix_slices self) left, suffix_from_parts [] right)))
      else
        bind_outcome (split_at (prefix_slices self) index) (\<lambda>(prefix, suffix).
          if offset = 0 then Ok (prefix_from_parts prefix [], suffix_from_parts suffix [])
          else
            bind_outcome (split_at suffix 1) (\<lambda>(buf, suffix).
            bind_outcome (slice_to (buf ! 0) offset) (\<lambda>left.
            bind_outcome (slice_from (buf ! 0) offset) (\<lambda>right.
            Ok (prefix_from_parts prefix left, suffix_from_parts suffix right))))))"

text \<open>
  The provided methods of the trait \<open>Slices\<close>, over the required ones of an
  implementation: the \<open>find_map\<close> of \<open>split_at_byte_offset\<close>, the method and
  \<open>take_prefix\<close>.
\<close>

fun find_split :: "usize \<Rightarrow> usize \<Rightarrow> io_slice list \<Rightarrow> (usize \<times> usize) option" where
  "find_split index rem [] = None"
| "find_split index rem (s # slices) =
     (let len = length s in
      if len \<le> rem then find_split (index + 1) (rem - len) slices
      else Some (index, rem))"

definition split_at_byte_offset ::
  "('s \<Rightarrow> io_slice list) \<Rightarrow> ('s \<Rightarrow> usize \<Rightarrow> usize \<Rightarrow> (prefix \<times> suffix) outcome) \<Rightarrow> ('s \<Rightarrow> prefix) \<Rightarrow>
    's \<Rightarrow> usize \<Rightarrow> (prefix \<times> suffix) outcome" where
  "split_at_byte_offset iter_slices split_at_index as_prefix self offset =
     (case find_split 0 offset (iter_slices self) of
        Some (index, offset) \<Rightarrow> split_at_index self index offset
      | None \<Rightarrow> Ok (as_prefix self, suffix_empty))"

definition array_split_at_byte_offset ::
  "io_slice list \<Rightarrow> usize \<Rightarrow> (prefix \<times> suffix) outcome" where
  "array_split_at_byte_offset =
     split_at_byte_offset array_iter_slices array_split_at_index array_as_prefix"

definition prefix_split_at_byte_offset :: "prefix \<Rightarrow> usize \<Rightarrow> (prefix \<times> suffix) outcome" where
  "prefix_split_at_byte_offset =
     split_at_byte_offset prefix_iter_slices prefix_split_at_index prefix_as_prefix"

definition array_take_prefix :: "io_slice list \<Rightarrow> usize \<Rightarrow> prefix outcome" where
  "array_take_prefix self len =
     bind_outcome (array_split_at_byte_offset self len) (\<lambda>r. Ok (fst r))"

definition prefix_take_prefix :: "prefix \<Rightarrow> usize \<Rightarrow> prefix outcome" where
  "prefix_take_prefix self len =
     bind_outcome (prefix_split_at_byte_offset self len) (\<lambda>r. Ok (fst r))"

definition prefix_bytes_len :: "prefix \<Rightarrow> usize" where
  "prefix_bytes_len p = bytes_len (prefix_iter_slices p)"

section \<open>The iterators that take or skip a number of bytes\<close>

text \<open>An iterator is what it has left; \<open>next\<close> returns an item and the iterator after it.\<close>

fun take_bytes_next :: "bytes list \<times> usize \<Rightarrow> bytes option \<times> bytes list \<times> usize" where
  "take_bytes_next (bufs, n) =
     (if n = 0 then (None, bufs, n)
      else case bufs of
        [] \<Rightarrow> (None, [], n)
      | buf # bufs' \<Rightarrow>
          (let len = length buf in
           if len \<le> n then (Some buf, bufs', n - len)
           else (Some (take n buf), bufs', 0)))"

fun skip_bytes_loop :: "usize \<Rightarrow> bytes list \<Rightarrow> bytes option \<times> bytes list \<times> usize" where
  "skip_bytes_loop rem [] = (None, [], 0)"
| "skip_bytes_loop rem (buf # bufs) =
     (let len = length buf in
      if len \<le> rem then skip_bytes_loop (rem - len) bufs
      else (Some (drop rem buf), bufs, 0))"

fun skip_bytes_next :: "bytes list \<times> usize \<Rightarrow> bytes option \<times> bytes list \<times> usize" where
  "skip_bytes_next (bufs, n) =
     (if n = 0 then (case bufs of [] \<Rightarrow> (None, [], 0) | buf # bufs' \<Rightarrow> (Some buf, bufs', 0))
      else skip_bytes_loop n bufs)"

text \<open>Every \<open>Some\<close> of an iterator takes an item of the inner one, so collecting ends.\<close>

lemma take_bytes_next_shorter:
  "take_bytes_next (bufs, n) = (Some buf, bufs', n') \<Longrightarrow> length bufs' < length bufs"
  by (auto simp: Let_def split: if_splits list.splits)

lemma skip_bytes_loop_shorter:
  "skip_bytes_loop n bufs = (Some buf, bufs', n') \<Longrightarrow> length bufs' < length bufs"
  by (induction n bufs rule: skip_bytes_loop.induct) (auto simp: Let_def split: if_splits)

lemma skip_bytes_next_shorter:
  "skip_bytes_next (bufs, n) = (Some buf, bufs', n') \<Longrightarrow> length bufs' < length bufs"
  by (auto split: if_splits list.splits dest: skip_bytes_loop_shorter)

function collect_take :: "bytes list \<times> usize \<Rightarrow> bytes list" where
  "collect_take it =
     (case take_bytes_next it of (None, it') \<Rightarrow> [] | (Some buf, it') \<Rightarrow> buf # collect_take it')"
  by pat_completeness auto
termination
proof (relation "measure (\<lambda>it. length (fst it))")
  fix it x it' buf
  assume "(x, it') = take_bytes_next it" and "x = Some buf"
  then show "(it', it) \<in> measure (\<lambda>it. length (fst it))"
    using take_bytes_next_shorter [of "fst it" "snd it" buf "fst it'" "snd it'"] by simp
qed simp

function collect_skip :: "bytes list \<times> usize \<Rightarrow> bytes list" where
  "collect_skip it =
     (case skip_bytes_next it of (None, it') \<Rightarrow> [] | (Some buf, it') \<Rightarrow> buf # collect_skip it')"
  by pat_completeness auto
termination
proof (relation "measure (\<lambda>it. length (fst it))")
  fix it x it' buf
  assume "(x, it') = skip_bytes_next it" and "x = Some buf"
  then show "(it', it) \<in> measure (\<lambda>it. length (fst it))"
    using skip_bytes_next_shorter [of "fst it" "snd it" buf "fst it'" "snd it'"] by simp
qed simp

declare collect_take.simps [simp del] collect_skip.simps [simp del]

section \<open>The bytes of a split\<close>

definition array_bytes :: "io_slice list \<Rightarrow> bytes" where
  "array_bytes xs = concat (array_iter_slices xs)"

definition prefix_bytes :: "prefix \<Rightarrow> bytes" where
  "prefix_bytes p = concat (prefix_iter_slices p)"

definition suffix_bytes :: "suffix \<Rightarrow> bytes" where
  "suffix_bytes p = concat (suffix_iter_slices p)"

named_theorems slices_simps \<open>the accessors of prefixes and suffixes\<close>

lemma prefix_parts [slices_simps]:
  "prefix_slices (prefix_from_parts xs r) = xs"
  "prefix_remainder (prefix_from_parts xs r) = r"
  "prefix_remainder_slices (prefix_from_parts xs r) = [r]"
  "prefix_iter_slices (prefix_from_parts xs r) = xs @ [r]"
  by (simp_all add: prefix_from_parts_def prefix_slices_def prefix_remainder_def
      prefix_remainder_slices_def inner_remainder_slices_def prefix_iter_slices_def)

lemma suffix_parts [slices_simps]:
  "suffix_slices (suffix_from_parts xs r) = xs"
  "suffix_iter_slices (suffix_from_parts xs r) = r # xs"
  "suffix_remainder (suffix_from_parts xs r) = r"
  by (simp_all add: suffix_from_parts_def suffix_slices_def suffix_remainder_slices_def suffix_remainder_def
      inner_remainder_slices_def suffix_iter_slices_def)

lemma prefix_iter_slices_eq [slices_simps]:
  "prefix_iter_slices p = prefix_slices p @ [prefix_remainder p]"
  by (simp add: prefix_iter_slices_def prefix_remainder_def prefix_remainder_slices_def
      inner_remainder_slices_def)

lemma into_buffers_id [simp]: "into_buffers slices = slices"
  by (simp add: into_buffers_def)

lemma array_iter_slices_id [simp]: "array_iter_slices xs = xs"
  by (simp add: array_iter_slices_def)

lemma prefix_bytes_eq: "prefix_bytes p = concat (prefix_slices p) @ prefix_remainder p"
  by (simp add: prefix_bytes_def slices_simps)

lemma concat_prefix_iter_buffers [simp]: "concat (prefix_iter_buffers p) = prefix_bytes p"
  by (simp add: prefix_iter_buffers_def prefix_bytes_def)

text \<open>The saturating length is the number of bytes, unless that exceeds a \<open>usize\<close>.\<close>

lemma foldl_saturating:
  "foldl (\<lambda>acc b. saturating_add acc (length b)) (min a usize_max) bufs =
     min (a + length (concat bufs)) usize_max"
proof (induction bufs arbitrary: a)
  case (Cons b bufs)
  have "saturating_add (min a usize_max) (length b) = min (a + length b) usize_max"
    by (auto simp: saturating_add_def)
  with Cons.IH [of "a + length b"] show ?case by (simp add: add.assoc)
qed simp

lemma bytes_len_eq: "bytes_len bufs = min (length (concat bufs)) usize_max"
  using foldl_saturating [of 0 bufs] by (simp add: bytes_len_def)

lemma prefix_bytes_len_eq: "prefix_bytes_len p = min (length (prefix_bytes p)) usize_max"
  by (simp add: prefix_bytes_len_def bytes_len_eq prefix_bytes_def)

text \<open>Where \<open>find_map\<close> stops: in the slice that holds the byte at the offset.\<close>

lemma find_split_Some:
  "find_split i rem xs = Some (j, off) \<Longrightarrow>
    \<exists>k < length xs. j = i + k \<and> off < length (xs ! k) \<and>
      take rem (concat xs) = concat (take k xs) @ take off (xs ! k) \<and>
      drop rem (concat xs) = drop off (xs ! k) @ concat (drop (Suc k) xs)"
proof (induction i rem xs rule: find_split.induct)
  case (2 i rem s xs)
  show ?case
  proof (cases "length s \<le> rem")
    case True
    with "2.prems" have "find_split (i + 1) (rem - length s) xs = Some (j, off)" by simp
    with "2.IH" True obtain k where "k < length xs" "j = i + 1 + k" "off < length (xs ! k)"
      "take (rem - length s) (concat xs) = concat (take k xs) @ take off (xs ! k)"
      "drop (rem - length s) (concat xs) = drop off (xs ! k) @ concat (drop (Suc k) xs)"
      by auto
    with True show ?thesis by (intro exI [of _ "Suc k"]) simp
  next
    case False
    with "2.prems" show ?thesis by (intro exI [of _ 0]) auto
  qed
qed simp

lemma find_split_None: "find_split i rem xs = None \<Longrightarrow> length (concat xs) \<le> rem"
  by (induction i rem xs rule: find_split.induct) (auto simp: Let_def split: if_splits)

section \<open>The contract of the trait\<close>

text \<open>
  What the provided methods need of an implementation: splitting at a position inside a
  slice yields a prefix with the bytes before it. The extended contract is about the
  suffix too.
\<close>

locale slices_trait =
  fixes iter_slices :: "'s \<Rightarrow> io_slice list"
    and split_at_index :: "'s \<Rightarrow> usize \<Rightarrow> usize \<Rightarrow> (prefix \<times> suffix) outcome"
    and as_prefix :: "'s \<Rightarrow> prefix"
  assumes as_prefix_bytes: "prefix_bytes (as_prefix s) = concat (iter_slices s)"
    and split_at_index_prefix: "k < length (iter_slices s) \<Longrightarrow> off < length (iter_slices s ! k) \<Longrightarrow>
      \<exists>p q. split_at_index s k off = Ok (p, q) \<and>
        prefix_bytes p = concat (take k (iter_slices s)) @ take off (iter_slices s ! k)"
begin

abbreviation "split_offset \<equiv> split_at_byte_offset iter_slices split_at_index as_prefix"

lemma split_offset_prefix:
  "\<exists>p q. split_offset s n = Ok (p, q) \<and> prefix_bytes p = take n (concat (iter_slices s))"
proof (cases "find_split 0 n (iter_slices s)")
  case None
  with find_split_None [OF this] show ?thesis
    by (simp add: split_at_byte_offset_def as_prefix_bytes)
next
  case (Some r)
  obtain j off where "r = (j, off)" by (cases r)
  with Some show ?thesis
    using find_split_Some [of 0 n "iter_slices s" j off] split_at_index_prefix [of j s off]
    by (auto simp: split_at_byte_offset_def)
qed

end

locale splitting_slices_trait = slices_trait +
  assumes split_at_index_suffix: "k < length (iter_slices s) \<Longrightarrow> off < length (iter_slices s ! k) \<Longrightarrow>
      split_at_index s k off = Ok (p, q) \<Longrightarrow>
      suffix_bytes q = drop off (iter_slices s ! k) @ concat (drop (Suc k) (iter_slices s))"
begin

lemma split_offset_suffix:
  assumes "split_offset s n = Ok (p, q)"
  shows "suffix_bytes q = drop n (concat (iter_slices s))"
proof (cases "find_split 0 n (iter_slices s)")
  case None
  with find_split_None [OF this] assms show ?thesis
    by (auto simp: split_at_byte_offset_def suffix_bytes_def suffix_empty_def slices_simps)
next
  case (Some r)
  obtain j off where "r = (j, off)" by (cases r)
  with Some assms show ?thesis
    using find_split_Some [of 0 n "iter_slices s" j off] split_at_index_suffix [of j s off p q]
    by (auto simp: split_at_byte_offset_def)
qed

end

text \<open>Splitting an array inside the slice at index \<open>k\<close>.\<close>

lemma array_split_at_index_eq:
  assumes "k < length xs" and "off \<le> length (xs ! k)"
  shows "array_split_at_index xs k off =
    (if off = 0 then Ok (prefix_from_parts (take k xs) [], suffix_from_parts (drop k xs) [])
     else Ok (prefix_from_parts (take k xs) (take off (xs ! k)),
              suffix_from_parts (drop (Suc k) xs) (drop off (xs ! k))))"
proof -
  have "drop k xs = xs ! k # drop (Suc k) xs"
    using assms(1) by (simp add: Cons_nth_drop_Suc)
  with assms show ?thesis
    by (simp add: array_split_at_index_def split_at_def slice_in_range)
qed

interpretation arr: splitting_slices_trait array_iter_slices array_split_at_index array_as_prefix
proof unfold_locales
  fix xs :: "io_slice list"
  show "prefix_bytes (array_as_prefix xs) = concat (array_iter_slices xs)"
    by (simp add: array_as_prefix_def prefix_bytes_eq slices_simps)
next
  fix xs :: "io_slice list" and k off p q
  assume "k < length (array_iter_slices xs)" and "off < length (array_iter_slices xs ! k)"
  then have k: "k < length xs" and off: "off < length (xs ! k)" by simp_all
  note eq = array_split_at_index_eq [OF k order_less_imp_le [OF off]]
  show "\<exists>p q. array_split_at_index xs k off = Ok (p, q) \<and>
      prefix_bytes p = concat (take k (array_iter_slices xs)) @ take off (array_iter_slices xs ! k)"
    by (simp add: eq prefix_bytes_eq slices_simps)
  assume "array_split_at_index xs k off = Ok (p, q)"
  with k show "suffix_bytes q =
      drop off (array_iter_slices xs ! k) @ concat (drop (Suc k) (array_iter_slices xs))"
    by (auto simp: eq suffix_bytes_def slices_simps Cons_nth_drop_Suc [symmetric] split: if_splits)
qed

interpretation pre: slices_trait prefix_iter_slices prefix_split_at_index prefix_as_prefix
proof unfold_locales
  fix p
  show "prefix_bytes (prefix_as_prefix p) = concat (prefix_iter_slices p)"
    by (simp add: prefix_as_prefix_def prefix_bytes_eq slices_simps)
next
  fix p k off
  assume k: "k < length (prefix_iter_slices p)" and off: "off < length (prefix_iter_slices p ! k)"
  show "\<exists>p' q. prefix_split_at_index p k off = Ok (p', q) \<and>
      prefix_bytes p' = concat (take k (prefix_iter_slices p)) @ take off (prefix_iter_slices p ! k)"
  proof (cases "k = length (prefix_slices p)")
    case True
    with off show ?thesis
      by (simp add: prefix_split_at_index_def slices_simps nth_append prefix_bytes_eq slice_in_range)
  next
    case False
    with k have "k < length (prefix_slices p)" by (simp add: slices_simps)
    moreover from this off have "off \<le> length (prefix_slices p ! k)"
      by (simp add: slices_simps nth_append)
    ultimately show ?thesis
      using array_split_at_index_eq [of k "prefix_slices p" off] False
      by (simp add: prefix_split_at_index_def array_split_at_index_def slices_simps nth_append
          prefix_bytes_eq)
  qed
qed

section \<open>What the callers use\<close>

lemma array_take_prefix_bytes:
  obtains p where "array_take_prefix bufs n = Ok p" and "prefix_bytes p = take n (concat bufs)"
  using arr.split_offset_prefix [of bufs n]
  by (auto simp: array_take_prefix_def array_split_at_byte_offset_def)

lemma prefix_take_prefix_bytes:
  obtains p' where "prefix_take_prefix p n = Ok p'" and "prefix_bytes p' = take n (prefix_bytes p)"
  using pre.split_offset_prefix [of p n]
  by (auto simp: prefix_take_prefix_def prefix_split_at_byte_offset_def prefix_bytes_def)

text \<open>A prefix as long as the array is the array, with an empty remainder.\<close>

lemma find_split_beyond: "length (concat xs) \<le> rem \<Longrightarrow> find_split i rem xs = None"
  by (induction i rem xs rule: find_split.induct) auto

lemma array_take_prefix_all:
  "length (concat bufs) \<le> n \<Longrightarrow> array_take_prefix bufs n = Ok (prefix_from_parts bufs [])"
  by (simp add: array_take_prefix_def array_split_at_byte_offset_def split_at_byte_offset_def
      find_split_beyond array_as_prefix_def)

section \<open>Properties of splitting\<close>

text \<open>
  C25. Splitting an array of slices at any byte offset never panics and never loses or
  reorders a byte: the prefix holds the bytes before the offset, the suffix the rest.
\<close>

theorem array_split_partitions:
  "\<exists>p q. array_split_at_byte_offset bufs n = Ok (p, q) \<and>
     prefix_bytes p = take n (concat bufs) \<and> suffix_bytes q = drop n (concat bufs)"
  using arr.split_offset_prefix [of bufs n] arr.split_offset_suffix [of bufs n]
  by (auto simp: array_split_at_byte_offset_def)

text \<open>
  The prefix of a prefix is right on every input, the case the writer relies on when
  the underlying object accepted only part of what it was given.
\<close>

theorem prefix_take_prefix_correct:
  "\<exists>p'. prefix_take_prefix p n = Ok p' \<and> prefix_bytes p' = take n (prefix_bytes p)"
  by (rule prefix_take_prefix_bytes [of p n]) blast

lemma find_split_append:
  "rem < length (concat xs) \<Longrightarrow> find_split i rem (xs @ ys) = find_split i rem xs"
  by (induction i rem xs rule: find_split.induct) (auto simp: Let_def)

text \<open>
  Splitting a prefix inside its full slices drops its remainder: the suffix holds the
  rest of the full slices only, so prefix and suffix together lose the bytes of the remainder.
\<close>

theorem prefix_split_loses_remainder:
  assumes "n < length (concat (prefix_slices p))"
  shows "\<exists>p' q. prefix_split_at_byte_offset p n = Ok (p', q) \<and>
    prefix_bytes p' @ suffix_bytes q = concat (prefix_slices p)"
proof -
  let ?xs = "prefix_slices p"
  have find: "find_split 0 n (prefix_iter_slices p) = find_split 0 n ?xs"
    using assms by (simp add: slices_simps find_split_append)
  obtain j off where some: "find_split 0 n ?xs = Some (j, off)"
    using assms find_split_None [of 0 n ?xs] by (cases "find_split 0 n ?xs") auto
  then have j: "j < length ?xs" and off: "off < length (?xs ! j)"
    using find_split_Some [of 0 n ?xs j off] by auto
  from j have "prefix_split_at_index p j off = array_split_at_index ?xs j off"
    by (simp add: prefix_split_at_index_def array_split_at_index_def)
  then have "prefix_split_at_byte_offset p n = array_split_at_byte_offset ?xs n"
    by (simp add: prefix_split_at_byte_offset_def array_split_at_byte_offset_def
        split_at_byte_offset_def find some)
  then show ?thesis
    using arr.split_offset_prefix [of ?xs n] arr.split_offset_suffix [of ?xs n]
    by (auto simp: array_split_at_byte_offset_def)
qed

theorem prefix_split_loses_remainder_witness:
  "\<exists>p' q. prefix_split_at_byte_offset (prefix_from_parts [[1, 2], [3]] [4, 5]) 1 = Ok (p', q) \<and>
     prefix_bytes p' @ suffix_bytes q = [1, 2, 3] \<and>
     prefix_bytes (prefix_from_parts [[1, 2], [3]] [4, 5]) = [1, 2, 3, 4, 5]"
  using prefix_split_loses_remainder [of 1 "prefix_from_parts [[1, 2], [3]] [4, 5]"]
  by (simp add: slices_simps prefix_bytes_eq)

lemma collect_take_0: "collect_take (bufs, 0) = []"
  by (subst collect_take.simps) simp

lemma concat_collect_take: "concat (collect_take (bufs, n)) = take n (concat bufs)"
proof (induction bufs arbitrary: n)
  case Nil
  show ?case by (simp add: collect_take.simps [of "([], n)"])
next
  case (Cons buf bufs)
  show ?case
  proof (cases "n = 0")
    case True
    then show ?thesis by (simp only: collect_take_0 concat.simps take_0)
  next
    case False
    then show ?thesis
      using Cons.IH [of "n - length buf"] Cons.IH [of 0]
      by (simp add: collect_take.simps [of "(buf # bufs, n)"] Let_def)
  qed
qed

lemma collect_skip_0: "collect_skip (bufs, 0) = bufs"
  by (induction bufs) (simp_all add: collect_skip.simps [of "(_, 0)"])

lemma concat_collect_skip: "concat (collect_skip (bufs, n)) = drop n (concat bufs)"
proof (cases "n = 0")
  case False
  have "(case skip_bytes_loop n bufs of (None, it') \<Rightarrow> [] | (Some buf, it') \<Rightarrow> buf # collect_skip it') =
      xs \<Longrightarrow> concat xs = drop n (concat bufs)" for xs
    by (induction n bufs arbitrary: xs rule: skip_bytes_loop.induct)
      (auto simp: Let_def collect_skip_0 split: if_splits)
  then show ?thesis using False by (simp add: collect_skip.simps [of "(bufs, n)"])
qed (simp add: collect_skip_0)

text \<open>
  C26. The two iterators cut the byte stream of the inner iterator at the given length:
  collecting \<open>TakeBytesLen\<close> gives the bytes before it, collecting \<open>SkipBytesLen\<close> the
  bytes after it, and both come to an end.
\<close>

theorem byte_iterators_cut:
  "concat (collect_take (bufs, n)) @ concat (collect_skip (bufs, n)) = concat bufs \<and>
   concat (collect_take (bufs, n)) = take n (concat bufs)"
  by (simp add: concat_collect_take concat_collect_skip)

end
