(* ===== verification/Archives.thy ===== *)
theory Archives
  imports Machine Buffers Slices
begin

text \<open>
  The public types of the crate (\<open>src/lib.rs\<close>): an \<open>Archive\<close> couples an I/O object with
  the buffer and the position in the stream, an \<open>Entry\<close> is a handle to the entry that is
  being read or written.
\<close>

section \<open>The archive\<close>

record 'io archive =
  ar_buf :: buf
  ar_state :: state
  ar_io :: 'io

abbreviation ar_bytes :: "'io archive \<Rightarrow> bytes" where
  "ar_bytes a \<equiv> buf_contents (ar_buf a)"

abbreviation ar_capacity :: "'io archive \<Rightarrow> usize" where
  "ar_capacity a \<equiv> buf_capacity (ar_buf a)"

definition DEFAULT_BUFFER_CAPACITY :: usize where
  "DEFAULT_BUFFER_CAPACITY = 8"

definition non_zero :: "usize \<Rightarrow> usize option" where
  "non_zero n = (if n = 0 then None else Some n)"

definition archive_with_capacity :: "'io \<Rightarrow> usize \<Rightarrow> 'io archive outcome" where
  "archive_with_capacity io capacity =
     bind_outcome (expect_some (checked_mul capacity BLOCK_SIZE)) (\<lambda>cap.
     Ok \<lparr>ar_buf = buf_new cap, ar_state = state_default, ar_io = io\<rparr>)"

definition archive_new :: "'io \<Rightarrow> 'io archive outcome" where
  "archive_new io =
     bind_outcome (expect_some (non_zero DEFAULT_BUFFER_CAPACITY)) (\<lambda>capacity.
     archive_with_capacity io capacity)"

definition into_inner :: "'io archive \<Rightarrow> 'io" where
  "into_inner a = ar_io a"

section \<open>Entries\<close>

text \<open>
  An entry borrows the archive for its lifetime; the archive is passed along explicitly, so
  what remains of the entry is its header.
\<close>

record entry =
  en_header :: header

definition entry_new :: "cfg \<Rightarrow> header \<Rightarrow> entry outcome" where
  "entry_new E header =
     bind_outcome (of_result (hdr_cksum E header)) (\<lambda>cksum.
     bind_outcome (assert_that (0 < cksum)) (\<lambda>_.
     bind_outcome (of_result (hdr_size E header)) (\<lambda>_.
     Ok \<lparr>en_header = header\<rparr>)))"

definition entry_header :: "entry \<Rightarrow> header" where
  "entry_header en = en_header en"

definition entry_size :: "cfg \<Rightarrow> entry \<Rightarrow> u64 outcome" where
  "entry_size E en = expect_ok (of_result (hdr_size E (en_header en)))"

definition entry_len :: "cfg \<Rightarrow> entry \<Rightarrow> u64 outcome" where
  "entry_len E en = expect_ok (of_result (hdr_entry_size E (en_header en)))"

definition entry_is_empty :: "cfg \<Rightarrow> entry \<Rightarrow> bool outcome" where
  "entry_is_empty E en = bind_outcome (entry_len E en) (\<lambda>n. Ok (n = 0))"

definition entry_path :: "cfg \<Rightarrow> entry \<Rightarrow> bytes" where
  "entry_path E en = hdr_path_bytes E (en_header en)"

section \<open>Well-formed archives\<close>

text \<open>
  The invariant of every operation: the cursors of the buffer are in order, its capacity
  is a positive number of blocks, a buffer that has been read to the end has been cleared,
  and the counters of the state are within a block.
\<close>

definition archive_wf :: "'io archive \<Rightarrow> bool" where
  "archive_wf a \<longleftrightarrow>
     buf_wf (ar_buf a) \<and> 512 dvd buf_capacity (ar_buf a) \<and> 0 < buf_capacity (ar_buf a) \<and>
     (buf_contents (ar_buf a) = [] \<longrightarrow> buf_room (ar_buf a) = buf_capacity (ar_buf a)) \<and>
     state_wf (ar_state a)"

lemma archive_wf_new [simp]:
  "archive_wf \<lparr>ar_buf = buf_new 512, ar_state = s, ar_io = io\<rparr> \<longleftrightarrow> state_wf s"
  by (simp add: archive_wf_def usize_max_def usize_bits_def)

lemma archive_with_capacity_Ok:
  assumes "0 < capacity" and "capacity * 512 \<le> usize_max"
  obtains a where "archive_with_capacity io capacity = Ok a" and "archive_wf a"
    and "ar_state a = ExpectingHeader" and "ar_io a = io" and "buf_contents (ar_buf a) = []"
    and "buf_capacity (ar_buf a) = capacity * 512"
  using assms
  by (simp add: archive_with_capacity_def checked_mul_def archive_wf_def buf_new_def buf_wf_def
      buf_capacity_def buf_contents_def buf_room_def state_default_def)

lemma archive_with_capacity_overflow:
  "usize_max < capacity * 512 \<Longrightarrow> archive_with_capacity io capacity = Panic UnwrapFailed"
  by (simp add: archive_with_capacity_def checked_mul_def)

text \<open>The bytes the buffer holds, seen through \<open>buffered_bytes\<close>.\<close>

lemma buffered_bytes_eq: "buf_wf b \<Longrightarrow> buffered_bytes b = Ok (buf_contents b)"
  by (simp add: buffered_bytes_def buf_contents_def buf_wf_def slice_in_range)

lemma buffered_eq:
  "buf_wf b \<Longrightarrow>
    buffered b = Ok \<lparr>rg_buf = take (buf_cap b) (buf_store b), rg_pos = buf_pos b\<rparr>"
  by (simp add: buffered_def buf_wf_def slice_in_range)

lemma available_bytes_mut_eq:
  "buf_wf b \<Longrightarrow> \<exists>dst. available_bytes_mut b = Ok dst \<and> length dst = buf_room b"
  by (simp add: available_bytes_mut_def buf_wf_def slice_in_range buf_room_def)

lemma entry_new_Ok:
  "entry_new E h = Ok en \<longleftrightarrow>
    (\<exists>c. hdr_cksum E h = Inr c \<and> 0 < c) \<and> (\<exists>n. hdr_size E h = Inr n) \<and> en = \<lparr>en_header = h\<rparr>"
  by (auto simp: entry_new_def bind_outcome_eq_Ok)

section \<open>The property of construction\<close>

text \<open>
  Construction: with a capacity whose size in bytes fits in a \<open>usize\<close>, the archive is
  empty, well formed and expects a header; with any larger one it panics.
\<close>

theorem archive_with_capacity_total:
  assumes "0 < capacity"
  shows "if capacity * 512 \<le> usize_max
    then \<exists>a. archive_with_capacity io capacity = Ok a \<and> archive_wf a \<and>
      ar_state a = ExpectingHeader \<and> into_inner a = io \<and> ar_bytes a = [] \<and>
      buf_room (ar_buf a) = capacity * 512
    else archive_with_capacity io capacity = Panic UnwrapFailed"
proof (cases "capacity * 512 \<le> usize_max")
  case True
  obtain a where "archive_with_capacity io capacity = Ok a" "archive_wf a"
      "ar_state a = ExpectingHeader" "ar_io a = io" "ar_bytes a = []" "ar_capacity a = capacity * 512"
    by (rule archive_with_capacity_Ok [OF assms True])
  with True show ?thesis by (auto simp: into_inner_def archive_wf_def)
next
  case False
  then show ?thesis by (simp add: archive_with_capacity_overflow)
qed

lemma archive_with_capacity_start:
  assumes "archive_with_capacity io capacity = Ok a" and "0 < capacity"
  shows "archive_wf a" and "ar_state a = ExpectingHeader" and "ar_io a = io" and "ar_bytes a = []"
    and "ar_capacity a = capacity * 512"
proof -
  have "capacity * 512 \<le> usize_max"
    using assms(1) by (auto simp: archive_with_capacity_def checked_mul_def split: if_splits)
  from archive_with_capacity_Ok [OF assms(2) this, of io]
  show "archive_wf a" and "ar_state a = ExpectingHeader" and "ar_io a = io" and "ar_bytes a = []"
    and "ar_capacity a = capacity * 512"
    using assms(1) by auto
qed

theorem archive_with_capacity_total_witness:
  "(\<exists>a. archive_with_capacity [7 :: u8] 8 = Ok a \<and> archive_wf a \<and>
      ar_state a = ExpectingHeader \<and> into_inner a = [7] \<and> ar_bytes a = [] \<and>
      buf_room (ar_buf a) = 4096) \<and>
    archive_with_capacity [7 :: u8] (2 ^ 55) = Panic UnwrapFailed"
  using archive_with_capacity_total [of 8 "[7 :: u8]"]
    archive_with_capacity_total [of "2 ^ 55" "[7 :: u8]"]
  by (simp add: usize_max_def usize_bits_def)

end
