(* ===== verification/Writer.thy ===== *)
theory Writer
  imports Archives
begin

text \<open>
  Writing an archive (\<open>src/write/mod.rs\<close>, \<open>src/write/error.rs\<close>): sending the buffer,
  the vectored write that passes large runs through, writing headers, data and padding,
  and finishing an entry or the archive.
\<close>

section \<open>Errors\<close>

datatype write_error =
    WriteUnexpectedEof (we_expected: u64) (we_received: u64)
  | WriteErrorZero
  | OverlappingEntry

fun write_error_kind :: "write_error \<Rightarrow> error_kind" where
  "write_error_kind (WriteUnexpectedEof expected received) = UnexpectedEof"
| "write_error_kind WriteErrorZero = WriteZero"
| "write_error_kind OverlappingEntry = Unsupported"

fun write_error_display :: "write_error \<Rightarrow> string" where
  "write_error_display (WriteUnexpectedEof expected received) =
     ''expecting more data for entry; expected = '' @ show_nat (unat expected) @
     '', received = '' @ show_nat (unat received)"
| "write_error_display WriteErrorZero = ''failed to write the buffered data''"
| "write_error_display OverlappingEntry =
     ''cannot write new entry while another is being written''"

definition write_error_into :: "write_error \<Rightarrow> io_error" where
  "write_error_into e = IoError (write_error_kind e) (write_error_display e)"

section \<open>The underlying writer\<close>

text \<open>
  The I/O object is not part of the repository: its methods are a parameter, functions of
  the state of the object. A write returns how many of the bytes it accepted.
\<close>

record 'w writer =
  wr_poll_write :: "'w \<Rightarrow> bytes \<Rightarrow> usize outcome \<times> 'w"
  wr_poll_write_vectored :: "'w \<Rightarrow> io_slice list \<Rightarrow> usize outcome \<times> 'w"
  wr_is_write_vectored :: "'w \<Rightarrow> bool"
  wr_poll_flush :: "'w \<Rightarrow> unit outcome \<times> 'w"
  wr_poll_shutdown :: "'w \<Rightarrow> unit outcome \<times> 'w"

section \<open>Sending the buffer\<close>

text \<open>
  The loop of \<open>poll_flush_buffered\<close>: the region keeps its cursor when the loop is left
  early.
\<close>

function flush_loop ::
  "bool \<Rightarrow> 'w writer \<Rightarrow> region \<Rightarrow> 'w \<Rightarrow> unit outcome \<times> (region \<times> 'w)" where
  "flush_loop checks W buf io =
     and_then (rg_is_empty checks buf, (buf, io)) (\<lambda>is_empty s.
       if is_empty then (Ok (), s)
       else
         and_then (rg_bytes buf, s) (\<lambda>bytes s.
           case wr_poll_write W io bytes of (r, io') \<Rightarrow>
             and_then (r, (buf, io')) (\<lambda>bytes_written s.
               if bytes_written = 0 then (Err (write_error_into WriteErrorZero), s)
               else and_then (rg_commit buf bytes_written, s) (\<lambda>buf' s.
                 flush_loop checks W buf' io'))))"
  by pat_completeness auto
termination
proof (relation "measure (\<lambda>(checks, W, buf, io). length (rg_buf buf) - rg_pos buf)")
  fix checks :: bool and W :: "'w writer" and buf :: region and io io' :: 'w
    and is_empty s bytes s' res r n s'' buf' s'''
  assume "(rg_is_empty checks buf, buf, io) = (Ok is_empty, s)" and "\<not> is_empty"
    and "(rg_bytes buf, s) = (Ok bytes, s')" and "n \<noteq> (0 :: usize)"
    and "(rg_commit buf n, s'') = (Ok buf', s''')"
  then have "rg_pos buf \<le> length (rg_buf buf)" and "rg_is_empty checks buf = Ok False"
    and "rg_buf buf' = rg_buf buf" and "rg_pos buf' = rg_pos buf + n"
    by (auto simp: rg_bytes_def region_bytes_def rg_commit_def region_commit_def rg_set_position_def
        bind_outcome_eq_Ok expect_some_def checked_add_def split: option.splits if_splits)
  with \<open>n \<noteq> 0\<close> show "((checks, W, buf', io'), checks, W, buf, io) \<in>
      measure (\<lambda>(checks, W, buf, io). length (rg_buf buf) - rg_pos buf)"
    by (auto simp: rg_is_empty_def rg_len_def rg.remaining_eq)
qed simp

declare flush_loop.simps [simp del]

definition poll_flush_buffered ::
  "cfg \<Rightarrow> 'w writer \<Rightarrow> 'w archive \<Rightarrow> unit outcome \<times> 'w archive" where
  "poll_flush_buffered E W a =
     and_then (buffered (ar_buf a), a) (\<lambda>buf a.
       case flush_loop (debug_assertions E) W buf (ar_io a) of (r, (buf, io)) \<Rightarrow>
         and_then (r, a\<lparr>ar_buf := put_buffered (ar_buf a) buf, ar_io := io\<rparr>) (\<lambda>_ a.
           (Ok (), a\<lparr>ar_buf := buf_clear (ar_buf a)\<rparr>)))"

definition poll_flush :: "cfg \<Rightarrow> 'w writer \<Rightarrow> 'w archive \<Rightarrow> unit outcome \<times> 'w archive" where
  "poll_flush E W a =
     and_then (poll_flush_buffered E W a) (\<lambda>_ a.
       case wr_poll_flush W (ar_io a) of (r, io) \<Rightarrow> (r, a\<lparr>ar_io := io\<rparr>))"

definition is_write_vectored :: "'w archive \<Rightarrow> bool" where
  "is_write_vectored a = True"

section \<open>The vectored write\<close>

text \<open>An addition of \<open>usize\<close> values, which panics or wraps above the maximum.\<close>

definition usize_add :: "bool \<Rightarrow> usize \<Rightarrow> usize \<Rightarrow> usize outcome" where
  "usize_add checks a b =
     (if a + b \<le> usize_max then Ok (a + b)
      else if checks then Panic ArithmeticOverflow
      else Ok ((a + b) mod 2 ^ usize_bits))"

text \<open>
  Passing the slices through: when all full slices were written the remainder is tried, and
  whatever happens to it, what was written so far is reported.
\<close>

definition pass_through ::
  "cfg \<Rightarrow> 'w writer \<Rightarrow> prefix \<Rightarrow> usize \<Rightarrow> 'w archive \<Rightarrow> usize outcome \<times> 'w archive" where
  "pass_through E W prefix prefix_len a =
     and_then (usize_sub (debug_assertions E) prefix_len (length (prefix_remainder prefix)), a)
       (\<lambda>slices_len a.
       case wr_poll_write_vectored W (ar_io a) (prefix_slices prefix) of (r, io) \<Rightarrow>
         and_then (r, a\<lparr>ar_io := io\<rparr>) (\<lambda>n a.
           if n = slices_len then
             (case wr_poll_write W (ar_io a) (prefix_remainder prefix) of
                (Ok w, io) \<Rightarrow> (usize_add (debug_assertions E) n w, a\<lparr>ar_io := io\<rparr>)
              | (Err e, io) \<Rightarrow> (Ok n, a\<lparr>ar_io := io\<rparr>)
              | (Pending, io) \<Rightarrow> (Ok n, a\<lparr>ar_io := io\<rparr>)
              | (Panic p, io) \<Rightarrow> (Panic p, a\<lparr>ar_io := io\<rparr>))
           else (Ok n, a)))"

text \<open>Filling the buffer.\<close>

definition fill_buffer ::
  "cfg \<Rightarrow> prefix \<Rightarrow> 'w archive \<Rightarrow> usize outcome \<times> 'w archive" where
  "fill_buffer E prefix a =
     and_then (buf_write (debug_assertions E) (ar_buf a) (prefix_iter_buffers prefix), a)
       (\<lambda>r a. (Ok (fst r), a\<lparr>ar_buf := snd r\<rparr>))"

text \<open>The state after \<open>bytes_written\<close> bytes of the prefix.\<close>

definition state_after ::
  "cfg \<Rightarrow> state \<Rightarrow> prefix \<Rightarrow> header option \<Rightarrow> usize \<Rightarrow> state outcome" where
  "state_after E s prefix header bytes_written =
     bind_outcome (prefix_take_prefix prefix bytes_written) (\<lambda>prefix.
     bind_outcome (expect_ok (take_slices E s (prefix_iter_buffers prefix) header)) (\<lambda>r.
     bind_outcome (assert_that (snd r = bytes_written)) (\<lambda>_. Ok (fst r))))"

definition poll_write_vectored ::
  "cfg \<Rightarrow> 'w writer \<Rightarrow> io_slice list \<Rightarrow> usize \<Rightarrow> header option \<Rightarrow> 'w archive \<Rightarrow>
    usize outcome \<times> 'w archive" where
  "poll_write_vectored E W bufs max_len header a =
     and_then (array_take_prefix bufs max_len, a) (\<lambda>prefix a.
     let prefix_len = prefix_bytes_len prefix in
     and_then (take_slices E (ar_state a) (prefix_iter_buffers prefix) header, a) (\<lambda>next_st a.
     and_then (assert_that (snd next_st = prefix_len), a) (\<lambda>_ a.
     let can_pass_through =
       buf_capacity (ar_buf a) \<le> prefix_len \<and> wr_is_write_vectored W (ar_io a) in
     and_then
       (if can_pass_through then poll_flush_buffered E W a
        else
          and_then (buf_remaining (debug_assertions E) (ar_buf a), a) (\<lambda>remaining a.
            if remaining < prefix_len then poll_flush_buffered E W a else (Ok (), a))) (\<lambda>_ a.
     and_then
       (if can_pass_through then pass_through E W prefix prefix_len a
        else fill_buffer E prefix a) (\<lambda>bytes_written a.
     and_then
       (if bytes_written = prefix_len then Ok (fst next_st)
        else state_after E (ar_state a) prefix header bytes_written, a) (\<lambda>st a.
     (Ok bytes_written, a\<lparr>ar_state := st\<rparr>)))))))"

definition poll_write_data ::
  "cfg \<Rightarrow> 'w writer \<Rightarrow> bytes \<Rightarrow> header option \<Rightarrow> 'w archive \<Rightarrow> usize outcome \<times> 'w archive" where
  "poll_write_data E W buf header a = poll_write_vectored E W [buf] (length buf) header a"

text \<open>A marker is consumed without any bytes, and the new state is stored.\<close>

definition archive_take_marker ::
  "cfg \<Rightarrow> header option \<Rightarrow> 'w archive \<Rightarrow> unit outcome \<times> 'w archive" where
  "archive_take_marker E header a =
     (case take_marker E (ar_state a) header of (r, st) \<Rightarrow> (r, a\<lparr>ar_state := st\<rparr>))"

section \<open>The loops\<close>

text \<open>
  The loops call the underlying object until the state says they are done. Nothing but the
  object bounds the number of iterations, so they are partial functions: \<open>None\<close> is a
  loop that never ends.
\<close>

partial_function (option) poll_write_header ::
  "cfg \<Rightarrow> 'w writer \<Rightarrow> header \<Rightarrow> 'w archive \<Rightarrow> (unit outcome \<times> 'w archive) option" where
  "poll_write_header E W header a =
     (case ar_state a of
        ExpectingHeader \<Rightarrow>
          loop_then (poll_write_data E W header (Some header) a) (\<lambda>n a.
            if n = 0 then Some (Err (write_error_into WriteErrorZero), a)
            else poll_write_header E W header a)
      | ReceivingHeader rem is_empty \<Rightarrow>
          if is_empty then Some (Panic ExplicitPanic, a)
          else
            loop_then (usize_sub (debug_assertions E) BLOCK_SIZE rem, a) (\<lambda>pos a.
            loop_then (slice_from header pos, a) (\<lambda>buf a.
            loop_then (poll_write_data E W buf (Some header) a) (\<lambda>n a.
              if n = 0 \<and> 0 < rem then Some (Err (write_error_into WriteErrorZero), a)
              else poll_write_header E W header a)))
      | ReceivedHeader \<Rightarrow> Some (archive_take_marker E (Some header) a)
      | ReceivingData _ \<Rightarrow> Some (Err (write_error_into OverlappingEntry), a)
      | ReceivedData \<Rightarrow> Some (Err (write_error_into OverlappingEntry), a)
      | AligningData _ \<Rightarrow> Some (Err (write_error_into OverlappingEntry), a)
      | AlignedData \<Rightarrow> Some (Err (write_error_into OverlappingEntry), a)
      | _ \<Rightarrow> Some (Panic ExplicitPanic, a))"

partial_function (option) poll_finish_entry ::
  "cfg \<Rightarrow> 'w writer \<Rightarrow> header \<Rightarrow> 'w archive \<Rightarrow> (unit outcome \<times> 'w archive) option" where
  "poll_finish_entry E W header a =
     (case ar_state a of
        ReceivedData \<Rightarrow>
          loop_then (archive_take_marker E (Some header) a) (\<lambda>_ a.
            poll_finish_entry E W header a)
      | AligningData rem \<Rightarrow>
          loop_then (slice_to (as_bytes block_empty) rem, a) (\<lambda>buf a.
          loop_then (poll_write_data E W buf (Some header) a) (\<lambda>_ a.
            poll_finish_entry E W header a))
      | AlignedData \<Rightarrow> Some (archive_take_marker E None a)
      | ExpectingHeader \<Rightarrow> Some (Ok (), a)
      | _ \<Rightarrow> Some (Panic ExplicitPanic, a))"

definition poll_write_entry ::
  "cfg \<Rightarrow> 'w writer \<Rightarrow> io_slice list \<Rightarrow> header \<Rightarrow> 'w archive \<Rightarrow>
    (usize outcome \<times> 'w archive) option" where
  "poll_write_entry E W bufs header a =
     (case ar_state a of
        ReceivingData rem \<Rightarrow>
          loop_then
            (poll_write_vectored E W bufs (as_usize usize_bits rem) (Some header) a) (\<lambda>n a.
            if word_of_nat n = rem then
              loop_then (assert_that (\<not> debug_assertions E \<or> bytes_len bufs = n), a) (\<lambda>_ a.
              loop_then
                (assert_that (\<not> debug_assertions E \<or> ar_state a = ReceivedData), a) (\<lambda>_ a.
              Option.bind (poll_finish_entry E W header a) (\<lambda>res.
                case res of
                  (Ok _, a) \<Rightarrow> Some (Ok n, a)
                | (Err e, a) \<Rightarrow> Some (if debug_assertions E then Panic AssertFailed else Ok n, a)
                | (Pending, a) \<Rightarrow> Some (Pending, a)
                | (Panic p, a) \<Rightarrow> Some (Panic p, a))))
            else Some (Ok n, a))
      | _ \<Rightarrow> Some (Panic ExplicitPanic, a))"

partial_function (option) poll_finish ::
  "cfg \<Rightarrow> 'w writer \<Rightarrow> 'w archive \<Rightarrow> (unit outcome \<times> 'w archive) option" where
  "poll_finish E W a =
     (case ar_state a of
        ExpectingHeader \<Rightarrow>
          loop_then (poll_write_data E W (as_bytes block_empty) None a) (\<lambda>_ a.
            poll_finish E W a)
      | ReceivingHeader rem is_empty \<Rightarrow>
          if is_empty then
            loop_then (slice_to (as_bytes block_empty) rem, a) (\<lambda>buf a.
            loop_then (poll_write_data E W buf None a) (\<lambda>_ a. poll_finish E W a))
          else Some (Panic ExplicitPanic, a)
      | ReceivingEof rem \<Rightarrow>
          loop_then (slice_to (as_bytes block_empty) rem, a) (\<lambda>buf a.
          loop_then (poll_write_data E W buf None a) (\<lambda>_ a. poll_finish E W a))
      | ReceivedEof \<Rightarrow>
          loop_then (poll_flush_buffered E W a) (\<lambda>_ a.
            case wr_poll_shutdown W (ar_io a) of (r, io) \<Rightarrow> Some (r, a\<lparr>ar_io := io\<rparr>))
      | _ \<Rightarrow> Some (Panic ExplicitPanic, a))"

declare poll_write_header.simps [simp del] poll_finish_entry.simps [simp del]
  poll_finish.simps [simp del]

section \<open>Handles and futures\<close>

text \<open>\<open>AsyncWrite\<close> of an entry, and the futures of the archive.\<close>

definition entry_poll_write_vectored ::
  "cfg \<Rightarrow> 'w writer \<Rightarrow> entry \<Rightarrow> io_slice list \<Rightarrow> 'w archive \<Rightarrow>
    (usize outcome \<times> 'w archive) option" where
  "entry_poll_write_vectored E W en bufs a = poll_write_entry E W bufs (en_header en) a"

definition entry_poll_write ::
  "cfg \<Rightarrow> 'w writer \<Rightarrow> entry \<Rightarrow> bytes \<Rightarrow> 'w archive \<Rightarrow> (usize outcome \<times> 'w archive) option" where
  "entry_poll_write E W en buf a = entry_poll_write_vectored E W en [buf] a"

definition entry_poll_flush ::
  "cfg \<Rightarrow> 'w writer \<Rightarrow> entry \<Rightarrow> 'w archive \<Rightarrow> unit outcome \<times> 'w archive" where
  "entry_poll_flush E W en a = poll_flush E W a"

definition entry_poll_shutdown ::
  "cfg \<Rightarrow> 'w writer \<Rightarrow> entry \<Rightarrow> 'w archive \<Rightarrow> (unit outcome \<times> 'w archive) option" where
  "entry_poll_shutdown E W en a =
     Option.bind (poll_finish_entry E W (en_header en) a) (\<lambda>r.
       loop_then r (\<lambda>_ a. Some (poll_flush E W a)))"

definition entry_is_write_vectored :: "entry \<Rightarrow> 'w archive \<Rightarrow> bool" where
  "entry_is_write_vectored en a = is_write_vectored a"

definition add_entry ::
  "cfg \<Rightarrow> 'w writer \<Rightarrow> header \<Rightarrow> 'w archive \<Rightarrow> (entry outcome \<times> 'w archive) option" where
  "add_entry E W header a =
     Option.bind (poll_write_header E W header a) (\<lambda>r.
       loop_then r (\<lambda>_ a. Some (entry_new E header, a)))"

definition archive_finish ::
  "cfg \<Rightarrow> 'w writer \<Rightarrow> 'w archive \<Rightarrow> (unit outcome \<times> 'w archive) option" where
  "archive_finish E W a = poll_finish E W a"

definition entry_finish ::
  "cfg \<Rightarrow> 'w writer \<Rightarrow> entry \<Rightarrow> 'w archive \<Rightarrow> (unit outcome \<times> 'w archive) option" where
  "entry_finish E W en a = entry_poll_shutdown E W en a"

end
