(* ===== verification/Format.thy ===== *)
theory Format
  imports Archives
begin

text \<open>
  The layout of an archive, as the helpers of the crate's tests build it
  (\<open>src/shared/test.rs\<close>): every entry is its header, its data and zero bytes up to the
  next block; two zero blocks end the archive.
\<close>

definition entry_bytes :: "header \<times> bytes \<Rightarrow> bytes" where
  "entry_bytes e = fst e @ snd e @ replicate (padding 512 (length (snd e))) 0"

definition make_eof_data :: bytes where
  "make_eof_data = replicate 1024 0"

definition archive_bytes :: "(header \<times> bytes) list \<Rightarrow> bytes" where
  "archive_bytes es = concat (map entry_bytes es) @ make_eof_data"

text \<open>
  What makes a header acceptable: 512 bytes, not all zero, with the checksum it should
  have, and with readable sizes (and no overflow of the padded size in debug builds).
\<close>

definition valid_header :: "cfg \<Rightarrow> header \<Rightarrow> u64 \<Rightarrow> bool" where
  "valid_header E hdr n \<longleftrightarrow>
     length hdr = 512 \<and> \<not> all_zero hdr \<and> hdr_cksum E hdr = Inr (calc_cksum hdr) \<and>
     (case hdr_size E hdr of Inl _ \<Rightarrow> False | Inr _ \<Rightarrow> True) \<and> hdr_entry_size E hdr = Inr n \<and>
     (debug_assertions E \<longrightarrow> unat n + 511 < 2 ^ 64)"

text \<open>An entry fits its header when the header announces the length of its data.\<close>

definition entry_fits :: "cfg \<Rightarrow> header \<times> bytes \<Rightarrow> bool" where
  "entry_fits E e \<longleftrightarrow>
     (case hdr_entry_size E (fst e) of
        Inl _ \<Rightarrow> False
      | Inr n \<Rightarrow> valid_header E (fst e) n \<and> length (snd e) = unat n)"

lemma calc_cksum_pos: "length hdr = 512 \<Longrightarrow> 0 < calc_cksum hdr"
  by (simp add: word_less_nat_alt unat_calc_cksum)

lemma valid_headerD:
  assumes "valid_header E hdr n"
  shows "length hdr = 512" and "\<not> all_zero hdr" and "as_header E (Block hdr) = Ok hdr"
    and "hdr_entry_size E hdr = Inr n" and "entry_new E hdr = Ok \<lparr>en_header = hdr\<rparr>"
    and "\<not> debug_assertions E \<or> unat n + 511 < 2 ^ 64"
  using assms calc_cksum_pos [of hdr]
  by (auto simp: valid_header_def as_header_Ok entry_new_Ok split: sum.splits)

lemma entry_fitsE:
  assumes "entry_fits E e"
  obtains n where "valid_header E (fst e) n" and "length (snd e) = unat n"
  using assms by (auto simp: entry_fits_def split: sum.splits)

lemma valid_sample_header: "valid_header (sample_cfg d) (sample_header b) (ucast b)"
proof -
  have "unat (ucast b :: u64) < 256"
    using unat_u8_le [of b] by (simp add: unsigned_ucast_eq take_bit_nat_eq_self)
  then show ?thesis by (simp add: valid_header_def)
qed

lemma entry_fits_sample [simp]:
  "entry_fits (sample_cfg d) (sample_header b, data) \<longleftrightarrow> length data = unat (ucast b :: u64)"
  using valid_sample_header [of d b] by (simp add: entry_fits_def)

lemma padding_le_511: "padding 512 n \<le> 511"
  using padding_less [of 512 n] by simp

lemma dvd_length_entry_bytes: "entry_fits E e \<Longrightarrow> 512 dvd length (entry_bytes e)"
  using dvd_add_padding [of 512 "length (snd e)"]
  by (auto elim!: entry_fitsE dest!: valid_headerD(1) simp: entry_bytes_def)

lemma dvd_length_archive_bytes:
  "(\<And>e. e \<in> set es \<Longrightarrow> entry_fits E e) \<Longrightarrow> 512 dvd length (archive_bytes es)"
proof (induction es)
  case Nil
  then show ?case by (simp add: archive_bytes_def make_eof_data_def)
next
  case (Cons e es)
  have "512 dvd length (archive_bytes es)" using Cons by simp
  with dvd_length_entry_bytes [of E e] Cons.prems show ?case
    by (simp add: archive_bytes_def add.assoc)
qed

lemma archive_bytes_simps:
  "archive_bytes [] = replicate 1024 0"
  "archive_bytes (e # es) =
     fst e @ snd e @ replicate (padding 512 (length (snd e))) 0 @ archive_bytes es"
  by (simp_all add: archive_bytes_def entry_bytes_def make_eof_data_def)

lemma archive_bytes_not_Nil [simp]: "archive_bytes es \<noteq> []"
  by (simp add: archive_bytes_def make_eof_data_def)

end
