(* ===== verification/Writing.thy ===== *)
theory Writing
  imports Writer Format
begin

text \<open>
  Correctness of writing: how each operation of \<open>Writer\<close> extends the byte stream that has
  been handed to the archive, under the documented behaviour of the underlying object.
\<close>

section \<open>Parts of a run of the machine\<close>

text \<open>Where the machine takes a whole run, it takes every part of it from the front.\<close>

lemma take_until_part:
  assumes "take_until E s slices_stop buf h = Ok (s', length buf)" and "m \<le> length buf"
  obtains s1 where "take_until E s slices_stop (take m buf) h = Ok (s1, m)"
    and "0 < m \<Longrightarrow> m < length buf \<Longrightarrow> s1 \<notin> set slices_stop \<and>
      take_until E s1 slices_stop (drop m buf) h = Ok (s', length buf - m)"
proof -
  consider "m = 0" | "m = length buf" | "0 < m" "m < length buf" using assms(2) by linarith
  then show thesis
  proof cases
    case 1
    obtain r where r: "state_next E s buf h = Ok r"
      using assms(1) by (subst (asm) take_until_unfold) (auto simp: bind_outcome_eq_Ok)
    have "\<exists>r'. state_next E s [] h = Ok r'"
    proof (rule ccontr)
      assume none: "\<not> ?thesis"
      with state_next_fails_append [of E s "[]" h buf] r have "state_next E s [] h = Ok r" by simp
      with none show False by blast
    qed
    then obtain r' where r': "state_next E s [] h = Ok r'" ..
    then obtain s1 where "state_next E s [] h = Ok (s1, 0)"
      using state_next_le [of E s "[]" h "fst r'" "snd r'"] by (cases r') auto
    then have "take_until E s slices_stop (take m buf) h = Ok (s1, m)"
      using 1 by (simp add: take_until_unfold [of E s])
    then show thesis using that 1 by simp
  next
    case 2
    then show thesis using that assms(1) by simp
  next
    case 3
    then have "take m buf \<noteq> []" "drop m buf \<noteq> []" by auto
    from take_until_append [OF this slices_stop_markers, of E s h] assms(1)
    have "bind_outcome (take_until E s slices_stop (take m buf) h) (\<lambda>(s1, n1).
        if s1 \<in> set slices_stop then Ok (s1, n1)
        else bind_outcome (take_until E s1 slices_stop (drop m buf) h)
          (\<lambda>(s2, n2). Ok (s2, n1 + n2))) = Ok (s', length buf)"
      by simp
    then obtain s1 n1 where b1: "take_until E s slices_stop (take m buf) h = Ok (s1, n1)"
      and b2: "(if s1 \<in> set slices_stop then Ok (s1, n1)
        else bind_outcome (take_until E s1 slices_stop (drop m buf) h) (\<lambda>(s2, n2). Ok (s2, n1 + n2)))
        = Ok (s', length buf)"
      by (auto simp: bind_outcome_eq_Ok)
    have n1: "n1 \<le> m" using take_until_le [OF b1] by simp
    with b2 3 have go: "s1 \<notin> set slices_stop" by (auto split: if_splits)
    with b2 obtain n2 where "take_until E s1 slices_stop (drop m buf) h = Ok (s', n2)"
        "n1 + n2 = length buf"
      by (auto simp: bind_outcome_eq_Ok)
    moreover from this(1) have "n2 \<le> length buf - m"
      using take_until_le by fastforce
    ultimately have "n1 = m" "take_until E s1 slices_stop (drop m buf) h = Ok (s', length buf - m)"
      using n1 3 by auto
    then show thesis using that b1 go by simp
  qed
qed

section \<open>The stream behind an archive\<close>

text \<open>
  A sink holds the bytes sent to it, \<open>sent\<close>. A write takes some of the given bytes from
  the front, and none when it is pending or fails.
\<close>

definition appends :: "'w writer \<Rightarrow> ('w \<Rightarrow> bytes) \<Rightarrow> bool" where
  "appends W sent \<longleftrightarrow>
     (\<forall>w bs. case wr_poll_write W w bs of
        (Ok n, w') \<Rightarrow> n \<le> length bs \<and> sent w' = sent w @ take n bs
      | (Panic p, w') \<Rightarrow> True
      | (_, w') \<Rightarrow> sent w' = sent w) \<and>
     (\<forall>w bufs. case wr_poll_write_vectored W w bufs of
        (Ok n, w') \<Rightarrow> n \<le> length (concat bufs) \<and> sent w' = sent w @ take n (concat bufs)
      | (Panic p, w') \<Rightarrow> True
      | (_, w') \<Rightarrow> sent w' = sent w) \<and>
     (\<forall>w. sent (snd (wr_poll_flush W w)) = sent w \<and> sent (snd (wr_poll_shutdown W w)) = sent w)"

lemma appendsD:
  assumes "appends W sent"
  shows "wr_poll_write W w bs = (Ok n, w') \<Longrightarrow> n \<le> length bs \<and> sent w' = sent w @ take n bs"
    and "wr_poll_write W w bs = (Err e, w') \<Longrightarrow> sent w' = sent w"
    and "wr_poll_write W w bs = (Pending, w') \<Longrightarrow> sent w' = sent w"
    and "wr_poll_write_vectored W w bufs = (Ok n, w') \<Longrightarrow>
      n \<le> length (concat bufs) \<and> sent w' = sent w @ take n (concat bufs)"
    and "wr_poll_write_vectored W w bufs = (Err e, w') \<Longrightarrow> sent w' = sent w"
    and "wr_poll_write_vectored W w bufs = (Pending, w') \<Longrightarrow> sent w' = sent w"
    and "wr_poll_flush W w = (r, w') \<Longrightarrow> sent w' = sent w"
    and "wr_poll_shutdown W w = (r, w') \<Longrightarrow> sent w' = sent w"
proof -
  note parts = assms [unfolded appends_def]
  note plain = parts [THEN conjunct1, THEN spec, THEN spec, of bs w]
    and vectored = parts [THEN conjunct2, THEN conjunct1, THEN spec, THEN spec, of bufs w]
    and other = parts [THEN conjunct2, THEN conjunct2, THEN spec, of w]
  show "wr_poll_write W w bs = (Ok n, w') \<Longrightarrow> n \<le> length bs \<and> sent w' = sent w @ take n bs"
    and "wr_poll_write W w bs = (Err e, w') \<Longrightarrow> sent w' = sent w"
    and "wr_poll_write W w bs = (Pending, w') \<Longrightarrow> sent w' = sent w"
    using plain by simp_all
  show "wr_poll_write_vectored W w bufs = (Ok n, w') \<Longrightarrow>
      n \<le> length (concat bufs) \<and> sent w' = sent w @ take n (concat bufs)"
    and "wr_poll_write_vectored W w bufs = (Err e, w') \<Longrightarrow> sent w' = sent w"
    and "wr_poll_write_vectored W w bufs = (Pending, w') \<Longrightarrow> sent w' = sent w"
    using vectored by simp_all
  show "wr_poll_flush W w = (r, w') \<Longrightarrow> sent w' = sent w"
    and "wr_poll_shutdown W w = (r, w') \<Longrightarrow> sent w' = sent w"
    using other by simp_all
qed

text \<open>The bytes the archive has accepted: those sent, then those it still buffers.\<close>

definition written :: "('w \<Rightarrow> bytes) \<Rightarrow> 'w archive \<Rightarrow> bytes" where
  "written sent a = sent (ar_io a) @ ar_bytes a"

section \<open>Sending the buffer\<close>

lemma flush_loop_spec:
  "appends W sent \<Longrightarrow> flush_loop checks W buf io = (r, buf', io') \<Longrightarrow> \<not> panicked r \<Longrightarrow>
    rg_pos buf \<le> length (rg_buf buf) \<Longrightarrow> length (rg_buf buf) \<le> usize_max \<Longrightarrow>
    rg_buf buf' = rg_buf buf \<and> rg_pos buf' \<le> length (rg_buf buf) \<and>
    sent io' @ drop (rg_pos buf') (rg_buf buf) = sent io @ drop (rg_pos buf) (rg_buf buf) \<and>
    (r = Ok () \<longleftrightarrow> rg_pos buf' = length (rg_buf buf))"
proof (induction "length (rg_buf buf) - rg_pos buf" arbitrary: buf io rule: less_induct)
  case less
  note len = less.prems(4)
  have steps: "rg_is_empty checks buf = Ok (rg_pos buf = length (rg_buf buf))"
      "rg_bytes buf = Ok (drop (rg_pos buf) (rg_buf buf))"
    using len by (auto simp: rg_is_empty_def rg_len_def rg_bytes_def rg.remaining_eq rg.bytes_eq)
  show ?case
  proof (cases "rg_pos buf = length (rg_buf buf)")
    case True
    with less.prems(2) steps show ?thesis by (auto simp: flush_loop.simps [of checks W buf io])
  next
    case False
    with len have pos: "rg_pos buf < length (rg_buf buf)" by simp
    obtain res io1 where io1: "wr_poll_write W io (drop (rg_pos buf) (rg_buf buf)) = (res, io1)"
      by fastforce
    show ?thesis
    proof (cases res)
      case (Ok n)
      from appendsD(1) [OF less.prems(1) io1 [unfolded Ok]]
      have n: "rg_pos buf + n \<le> length (rg_buf buf)"
          "sent io1 = sent io @ take n (drop (rg_pos buf) (rg_buf buf))"
        using pos by auto
      show ?thesis
      proof (cases "n = 0")
        case True
        with less.prems(2) steps False io1 Ok n pos show ?thesis
          by (auto simp: flush_loop.simps [of checks W buf io])
      next
        case n0: False
        let ?buf = "rg_set_position buf (rg_pos buf + n)"
        have commit: "rg_commit buf n = Ok ?buf"
          using rg.commit_eq [OF n(1) less.prems(5)] by (simp add: rg_commit_def)
        then have "flush_loop checks W ?buf io1 = (r, buf', io')"
          using less.prems(2) steps False io1 Ok n0 by (simp add: flush_loop.simps [of checks W buf io])
        moreover have "rg_buf ?buf = rg_buf buf" "rg_pos ?buf = rg_pos buf + n" by simp_all
        ultimately have "rg_buf buf' = rg_buf buf \<and> rg_pos buf' \<le> length (rg_buf buf) \<and>
            sent io' @ drop (rg_pos buf') (rg_buf buf) =
              sent io1 @ drop (rg_pos buf + n) (rg_buf buf) \<and>
            (r = Ok () \<longleftrightarrow> rg_pos buf' = length (rg_buf buf))"
          using less.hyps [of ?buf io1] less.prems(1,3,5) n(1) n0 pos by simp
        moreover have "sent io1 @ drop (rg_pos buf + n) (rg_buf buf) =
            sent io @ drop (rg_pos buf) (rg_buf buf)"
          using n(2) by (simp add: add.commute) (metis append_take_drop_id drop_drop)
        ultimately show ?thesis by simp
      qed
    next
      case (Err e)
      with less.prems(2) steps False io1 pos appendsD(2) [OF less.prems(1) io1 [unfolded Err]]
      show ?thesis by (auto simp: flush_loop.simps [of checks W buf io])
    next
      case Pending
      with less.prems(2) steps False io1 pos appendsD(3) [OF less.prems(1) io1 [unfolded Pending]]
      show ?thesis by (auto simp: flush_loop.simps [of checks W buf io])
    next
      case (Panic p)
      with less.prems(2,3) steps False io1 show ?thesis
        by (auto simp: flush_loop.simps [of checks W buf io])
    qed
  qed
qed

lemma archive_wfD':
  assumes "archive_wf a"
  shows "buf_wf (ar_buf a)" and "state_wf (ar_state a)"
  using assms by (simp_all add: archive_wf_def)

text \<open>Sending the buffer, as a whole: nothing is lost, and after a success it is empty.\<close>

lemma flush_spec:
  assumes wf: "archive_wf a" and sink: "appends W sent"
    and flush: "poll_flush_buffered E W a = (r, a')" and ok: "\<not> panicked r"
  shows "archive_wf a'" and "written sent a' = written sent a" and "ar_state a' = ar_state a"
    and "ar_capacity a' = ar_capacity a"
    and "r = Ok () \<Longrightarrow> ar_bytes a' = [] \<and> buf_room (ar_buf a') = ar_capacity a'"
proof -
  have wfb: "buf_wf (ar_buf a)" using wf by (simp add: archive_wf_def)
  let ?b = "ar_buf a"
  let ?reg = "\<lparr>rg_buf = take (buf_cap ?b) (buf_store ?b), rg_pos = buf_pos ?b\<rparr>"
  obtain r0 reg io where loop: "flush_loop (debug_assertions E) W ?reg (ar_io a) = (r0, reg, io)"
    by (metis prod_cases3)
  from flush have cases: "r0 = Ok () \<and> r = Ok () \<and>
        a' = a\<lparr>ar_buf := buf_clear (put_buffered ?b reg), ar_io := io\<rparr> \<or>
      r0 \<noteq> Ok () \<and> r = r0 \<and> a' = a\<lparr>ar_buf := put_buffered ?b reg, ar_io := io\<rparr>"
    by (cases r0) (auto simp: poll_flush_buffered_def buffered_eq [OF wfb] loop)
  then have "\<not> panicked r0" using ok by auto
  from flush_loop_spec [OF sink loop this] wfb
  have reg: "rg_pos reg \<le> buf_cap ?b"
      "sent io @ drop (rg_pos reg) (take (buf_cap ?b) (buf_store ?b)) = written sent a"
      "r0 = Ok () \<longleftrightarrow> rg_pos reg = buf_cap ?b"
    by (auto simp: buf_wf_def written_def buf_contents_def)
  show "archive_wf a'" and "written sent a' = written sent a" and "ar_state a' = ar_state a"
    and "ar_capacity a' = ar_capacity a"
    and "r = Ok () \<Longrightarrow> ar_bytes a' = [] \<and> buf_room (ar_buf a') = ar_capacity a'"
    using cases reg wf
    by (auto simp: archive_wf_def written_def buf_wf_def buf_contents_def buf_capacity_def
        buf_room_def buf_clear_def put_buffered_def)
qed

section \<open>The vectored write\<close>

lemma pass_through_spec:
  assumes sink: "appends W sent" and len: "prefix_len = length (prefix_bytes p)"
      "prefix_len \<le> usize_max"
    and pass: "pass_through E W p prefix_len a = (r, a')" and ok: "\<not> panicked r"
  shows "ar_buf a' = ar_buf a \<and> ar_state a' = ar_state a \<and>
    (case r of
       Ok n \<Rightarrow> n \<le> prefix_len \<and> sent (ar_io a') = sent (ar_io a) @ take n (prefix_bytes p)
     | _ \<Rightarrow> sent (ar_io a') = sent (ar_io a))"
proof -
  let ?data = "concat (prefix_slices p)"
  have bytes: "prefix_bytes p = ?data @ prefix_remainder p" by (rule prefix_bytes_eq)
  have sub: "usize_sub (debug_assertions E) prefix_len (length (prefix_remainder p)) = Ok (length ?data)"
    using len(1) bytes by (simp add: usize_sub_def)
  obtain r1 io1 where io1: "wr_poll_write_vectored W (ar_io a) (prefix_slices p) = (r1, io1)"
    by fastforce
  show ?thesis
  proof (cases r1)
    case (Ok n)
    from appendsD(4) [OF sink io1 [unfolded Ok]]
    have n: "n \<le> length ?data" "sent io1 = sent (ar_io a) @ take n ?data" by simp_all
    show ?thesis
    proof (cases "n = length ?data")
      case False
      with pass sub io1 Ok n show ?thesis
        by (auto simp: pass_through_def bytes len(1))
    next
      case True
      obtain r2 io2 where io2: "wr_poll_write W io1 (prefix_remainder p) = (r2, io2)" by fastforce
      show ?thesis
      proof (cases r2)
        case (Ok w)
        from appendsD(1) [OF sink io2 [unfolded Ok]]
        have "w \<le> length (prefix_remainder p)" "sent io2 = sent io1 @ take w (prefix_remainder p)"
          by simp_all
        with pass sub io1 io2 \<open>r1 = Ok n\<close> Ok True n len(2) show ?thesis
          by (auto simp: pass_through_def bytes len(1) usize_add_def)
      next
        case (Err e)
        have "r = Ok n" "a' = a\<lparr>ar_io := io2\<rparr>"
          using pass sub io1 io2 \<open>r1 = Ok n\<close> Err True by (simp_all add: pass_through_def)
        with appendsD(2) [OF sink io2 [unfolded Err]] n True show ?thesis
          by (simp add: bytes len(1))
      next
        case Pending
        have "r = Ok n" "a' = a\<lparr>ar_io := io2\<rparr>"
          using pass sub io1 io2 \<open>r1 = Ok n\<close> Pending True by (simp_all add: pass_through_def)
        with appendsD(3) [OF sink io2 [unfolded Pending]] n True show ?thesis
          by (simp add: bytes len(1))
      next
        case (Panic x)
        then show ?thesis using pass sub io1 io2 \<open>r1 = Ok n\<close> True ok
          by (auto simp: pass_through_def)
      qed
    qed
  next
    case (Err e)
    with pass sub io1 appendsD(5) [OF sink io1 [unfolded Err]] show ?thesis
      by (auto simp: pass_through_def)
  next
    case Pending
    with pass sub io1 appendsD(6) [OF sink io1 [unfolded Pending]] show ?thesis
      by (auto simp: pass_through_def)
  next
    case (Panic x)
    with pass sub io1 ok show ?thesis by (auto simp: pass_through_def)
  qed
qed

lemma fill_buffer_spec:
  assumes wf: "archive_wf a"
  obtains a' where "fill_buffer E p a = (Ok (min (length (prefix_bytes p)) (buf_room (ar_buf a))), a')"
    and "archive_wf a'" and "ar_bytes a' = ar_bytes a @ take (buf_room (ar_buf a)) (prefix_bytes p)"
    and "ar_io a' = ar_io a" and "ar_state a' = ar_state a" and "ar_capacity a' = ar_capacity a"
proof -
  have "buf_wf (ar_buf a)" using wf by (simp add: archive_wf_def)
  from bq.push_spec [OF this, of "debug_assertions E" "prefix_iter_buffers p"] obtain b
    where "buf_write (debug_assertions E) (ar_buf a) (prefix_iter_buffers p) =
        Ok (min (length (prefix_bytes p)) (buf_room (ar_buf a)), b)"
      "buf_contents b = ar_bytes a @ take (buf_room (ar_buf a)) (prefix_bytes p)"
      "buf_room b = buf_room (ar_buf a) - length (prefix_bytes p)"
      "buf_capacity b = ar_capacity a" "buf_wf b"
    by auto
  then show thesis
    using that [of "a\<lparr>ar_buf := b\<rparr>"] wf
    by (auto simp: fill_buffer_def archive_wf_def)
qed

text \<open>
  A write is refused before anything is written: when the machine does not take the bytes,
  and when it does not take all of them.
\<close>

lemma write_vectored_checks:
  assumes "length (take m (concat bufs)) \<le> usize_max"
  shows "take_slices E (ar_state a) [take m (concat bufs)] h = Err e \<Longrightarrow>
      poll_write_vectored E W bufs m h a = (Err e, a)"
    and "take_slices E (ar_state a) [take m (concat bufs)] h = Ok (st, n) \<Longrightarrow>
      n \<noteq> length (take m (concat bufs)) \<Longrightarrow>
      poll_write_vectored E W bufs m h a = (Panic AssertFailed, a)"
proof -
  obtain p where p: "array_take_prefix bufs m = Ok p" "prefix_bytes p = take m (concat bufs)"
    by (rule array_take_prefix_bytes)
  have "prefix_bytes_len p = length (take m (concat bufs))"
    using assms p(2) by (simp add: prefix_bytes_len_eq)
  moreover have "take_slices E (ar_state a) (prefix_iter_buffers p) h =
      take_slices E (ar_state a) [take m (concat bufs)] h"
    by (simp add: take_slices_eq_take_until p(2))
  ultimately show "take_slices E (ar_state a) [take m (concat bufs)] h = Err e \<Longrightarrow>
      poll_write_vectored E W bufs m h a = (Err e, a)"
    and "take_slices E (ar_state a) [take m (concat bufs)] h = Ok (st, n) \<Longrightarrow>
      n \<noteq> length (take m (concat bufs)) \<Longrightarrow>
      poll_write_vectored E W bufs m h a = (Panic AssertFailed, a)"
    using p(1) by (simp_all add: poll_write_vectored_def Let_def)
qed

lemma state_after_spec:
  assumes "take_slices E s [prefix_bytes p] h = Ok (st, length (prefix_bytes p))"
    and "n \<le> length (prefix_bytes p)"
  obtains s1 where "state_after E s p h n = Ok s1"
    and "take_slices E s [take n (prefix_bytes p)] h = Ok (s1, n)"
proof -
  obtain p' where p': "prefix_take_prefix p n = Ok p'" "prefix_bytes p' = take n (prefix_bytes p)"
    by (rule prefix_take_prefix_bytes)
  obtain s1 where "take_slices E s [take n (prefix_bytes p)] h = Ok (s1, n)"
    using take_until_part [of E s "prefix_bytes p" h st n] assms
    by (auto simp: take_slices_eq_take_until)
  then show thesis
    using that [of s1] p' by (simp add: state_after_def take_slices_eq_take_until)
qed

text \<open>
  The outcome of a write of \<open>data\<close>: the accepted bytes, and only they, are appended to the
  stream, and the machine has taken exactly them.
\<close>

definition write_outcome ::
  "cfg \<Rightarrow> ('w \<Rightarrow> bytes) \<Rightarrow> bytes \<Rightarrow> header option \<Rightarrow> 'w archive \<Rightarrow> usize outcome \<Rightarrow> 'w archive \<Rightarrow> bool"
  where
  "write_outcome E sent data h a r a' \<longleftrightarrow> archive_wf a' \<and> ar_capacity a' = ar_capacity a \<and>
     (case r of
        Ok n \<Rightarrow> n \<le> length data \<and> written sent a' = written sent a @ take n data \<and>
          take_slices E (ar_state a) [take n data] h = Ok (ar_state a', n)
      | _ \<Rightarrow> written sent a' = written sent a \<and> ar_state a' = ar_state a)"

text \<open>What a write that passed the checks does: send the buffer if it has to, then write.\<close>

definition passes :: "'w writer \<Rightarrow> usize \<Rightarrow> 'w archive \<Rightarrow> bool" where
  "passes W len a \<longleftrightarrow> ar_capacity a \<le> len \<and> wr_is_write_vectored W (ar_io a)"

definition make_room :: "cfg \<Rightarrow> 'w writer \<Rightarrow> usize \<Rightarrow> 'w archive \<Rightarrow> unit outcome \<times> 'w archive" where
  "make_room E W len a =
     (if passes W len a then poll_flush_buffered E W a
      else if buf_room (ar_buf a) < len then poll_flush_buffered E W a
      else (Ok (), a))"

lemma make_room_spec:
  assumes wf: "archive_wf a" and sink: "appends W sent"
    and room: "make_room E W len a = (r, a')" and ok: "\<not> panicked r"
  shows "archive_wf a' \<and> written sent a' = written sent a \<and> ar_state a' = ar_state a \<and>
    ar_capacity a' = ar_capacity a \<and>
    (r = Ok () \<longrightarrow> passes W len a \<longrightarrow> ar_bytes a' = []) \<and>
    (r = Ok () \<longrightarrow> min len (ar_capacity a) \<le> buf_room (ar_buf a'))"
proof (cases "passes W len a \<or> buf_room (ar_buf a) < len")
  case True
  then have "poll_flush_buffered E W a = (r, a')"
    using room by (cases "passes W len a") (simp_all add: make_room_def)
  from flush_spec [OF wf sink this ok] show ?thesis by auto
next
  case False
  with room wf show ?thesis by (auto simp: make_room_def)
qed

lemma write_vectored_eq:
  assumes wf: "archive_wf a"
    and len: "length (take m (concat bufs)) \<le> usize_max"
    and take: "take_slices E (ar_state a) [take m (concat bufs)] h =
      Ok (st, length (take m (concat bufs)))"
  obtains p where "prefix_bytes p = take m (concat bufs)"
    and "poll_write_vectored E W bufs m h a =
      and_then (make_room E W (length (take m (concat bufs))) a) (\<lambda>_ b.
      and_then
        (if passes W (length (take m (concat bufs))) a
         then pass_through E W p (length (take m (concat bufs))) b else fill_buffer E p b) (\<lambda>n c.
      and_then
        (if n = length (take m (concat bufs)) then Ok st else state_after E (ar_state c) p h n, c)
        (\<lambda>st d. (Ok n, d\<lparr>ar_state := st\<rparr>))))"
    and "array_take_prefix bufs m = Ok p"
proof -
  define data where "data = take m (concat bufs)"
  obtain p where p: "array_take_prefix bufs m = Ok p" "prefix_bytes p = data"
    unfolding data_def by (rule array_take_prefix_bytes)
  have plen: "prefix_bytes_len p = length data"
    using len p(2) by (simp add: prefix_bytes_len_eq data_def)
  have taken: "take_slices E (ar_state a) (prefix_iter_buffers p) h = Ok (st, length data)"
    using take by (simp add: take_slices_eq_take_until p(2) data_def)
  have remaining: "buf_remaining (debug_assertions E) (ar_buf a) = Ok (buf_room (ar_buf a))"
    using wf by (simp add: archive_wf_def buf_remaining_def rm_remaining_def rm.remaining_eq
        region_mut_store buf_wf_def buf_room_def)
  have "poll_write_vectored E W bufs m h a =
      and_then (make_room E W (length data) a) (\<lambda>_ b.
      and_then
        (if passes W (length data) a then pass_through E W p (length data) b
         else fill_buffer E p b) (\<lambda>n c.
      and_then (if n = length data then Ok st else state_after E (ar_state c) p h n, c) (\<lambda>st d.
      (Ok n, d\<lparr>ar_state := st\<rparr>))))"
    by (simp only: poll_write_vectored_def p(1) plen taken remaining Let_def passes_def make_room_def
        and_then_simps assert_that_simps fst_conv snd_conv cong del: and_then_weak_cong if_weak_cong)
  then show thesis
    unfolding data_def by (rule that [OF p(2) [unfolded data_def] _ p(1)])
qed

lemma write_vectored_spec:
  assumes wf: "archive_wf a" and sink: "appends W sent"
    and len: "length (take m (concat bufs)) \<le> usize_max"
    and take: "take_slices E (ar_state a) [take m (concat bufs)] h =
      Ok (st, length (take m (concat bufs)))"
    and run: "poll_write_vectored E W bufs m h a = (r, a')" and ok: "\<not> panicked r"
  shows "write_outcome E sent (take m (concat bufs)) h a r a'"
proof -
  define data where "data = take m (concat bufs)"
  note taken = take [folded data_def]
  obtain p where p: "prefix_bytes p = data" and run_eq: "poll_write_vectored E W bufs m h a =
      and_then (make_room E W (length data) a) (\<lambda>_ b.
      and_then
        (if passes W (length data) a then pass_through E W p (length data) b
         else fill_buffer E p b) (\<lambda>n c.
      and_then (if n = length data then Ok st else state_after E (ar_state c) p h n, c) (\<lambda>st d.
      (Ok n, d\<lparr>ar_state := st\<rparr>))))"
    by (rule write_vectored_eq [OF wf len take, of W, folded data_def]) (rule that)
  obtain r1 a1 where a1: "make_room E W (length data) a = (r1, a1)" by fastforce
  have ok1: "\<not> panicked r1"
  proof (cases r1)
    case (Panic x)
    with run a1 have "(r, a') = (Panic x, a1)" by (simp add: run_eq)
    with ok show ?thesis by simp
  qed simp_all
  have flushed: "archive_wf a1" "written sent a1 = written sent a" "ar_state a1 = ar_state a"
      "ar_capacity a1 = ar_capacity a"
      "r1 = Ok () \<Longrightarrow> passes W (length data) a \<Longrightarrow> ar_bytes a1 = []"
    using make_room_spec [OF wf sink a1 ok1] by simp_all
  show ?thesis
  proof (cases r1)
    case (Ok u)
    obtain r2 a2 where a2: "(if passes W (length data) a then pass_through E W p (length data) a1
        else fill_buffer E p a1) = (r2, a2)" by fastforce
    have run1: "(r, a') = and_then (r2, a2) (\<lambda>n c.
        and_then (if n = length data then Ok st else state_after E (ar_state c) p h n, c) (\<lambda>st d.
        (Ok n, d\<lparr>ar_state := st\<rparr>)))"
      using run a1 a2 Ok by (simp add: run_eq)
    then have ok2: "\<not> panicked r2" using ok by (cases r2) auto
    have io: "archive_wf a2 \<and> ar_capacity a2 = ar_capacity a \<and> ar_state a2 = ar_state a \<and>
      (case r2 of Ok n \<Rightarrow> n \<le> length data \<and> written sent a2 = written sent a @ take n data
        | _ \<Rightarrow> written sent a2 = written sent a)"
    proof (cases "passes W (length data) a")
      case True
      then have "pass_through E W p (length data) a1 = (r2, a2)" using a2 by simp
      from pass_through_spec [OF sink _ _ this ok2] p len [folded data_def]
      have "ar_buf a2 = ar_buf a1 \<and> ar_state a2 = ar_state a1 \<and>
        (case r2 of
           Ok n \<Rightarrow> n \<le> length data \<and> sent (ar_io a2) = sent (ar_io a1) @ take n data
         | _ \<Rightarrow> sent (ar_io a2) = sent (ar_io a1))"
        by (cases r2) simp_all
      with flushed(1-4) flushed(5) [OF _ True] Ok show ?thesis
        by (cases r2) (simp_all add: written_def archive_wf_def)
    next
      case False
      obtain a3 where a3: "fill_buffer E p a1 = (Ok (min (length data) (buf_room (ar_buf a1))), a3)"
          "archive_wf a3" "ar_bytes a3 = ar_bytes a1 @ take (buf_room (ar_buf a1)) data"
          "ar_io a3 = ar_io a1" "ar_state a3 = ar_state a1" "ar_capacity a3 = ar_capacity a1"
        using fill_buffer_spec [OF flushed(1), of E p] p by metis
      with False a2 have "r2 = Ok (min (length data) (buf_room (ar_buf a1)))" "a2 = a3" by simp_all
      with a3 flushed(2-4) show ?thesis
        by (simp add: written_def min_def)
    qed
    show ?thesis
    proof (cases r2)
      case (Ok n)
      with io have n: "n \<le> length data" by simp
      obtain s1 where s1: "state_after E (ar_state a) p h n = Ok s1"
          "take_slices E (ar_state a) [take n data] h = Ok (s1, n)"
        using state_after_spec [of E "ar_state a" p h st n] taken n p
        by (metis take_slices_eq_take_until concat_prefix_iter_buffers concat.simps append_Nil2)
      have "n = length data \<Longrightarrow> st = s1"
        using s1(2) taken by simp
      then have "(r, a') = (Ok n, a2\<lparr>ar_state := s1\<rparr>)"
        using run1 s1(1) io by (cases "n = length data") (simp_all add: Ok)
      then have "r = Ok n" "a' = a2\<lparr>ar_state := s1\<rparr>" by simp_all
      moreover have "state_wf s1"
        using take_slices_wf [OF s1(2) archive_wfD'(2) [OF wf]] .
      ultimately show ?thesis
        using io Ok s1(2) n
        by (simp add: write_outcome_def written_def archive_wf_def flip: data_def, elim conjE, simp)
    qed (use run1 io in \<open>simp_all add: write_outcome_def flip: data_def\<close>)
  next
    case (Err e)
    with run a1 have "r = Err e" "a' = a1" by (simp_all add: run_eq)
    with flushed(1-4) show ?thesis by (simp add: write_outcome_def)
  next
    case Pending
    with run a1 have "r = Pending" "a' = a1" by (simp_all add: run_eq)
    with flushed(1-4) show ?thesis by (simp add: write_outcome_def)
  next
    case (Panic x)
    with ok1 show ?thesis by simp
  qed
qed

section \<open>Objects that accept what they are given\<close>

text \<open>
  A willing writer neither fails nor waits, and every write of something accepts at least
  one byte, like a \<open>Vec<u8>\<close> or a file. How much it accepts is left open.
\<close>

definition willing :: "'w writer \<Rightarrow> bool" where
  "willing W \<longleftrightarrow>
     (\<forall>w bs. \<exists>n w'. wr_poll_write W w bs = (Ok n, w') \<and> (bs \<noteq> [] \<longrightarrow> 0 < n)) \<and>
     (\<forall>w bufs. \<exists>n w'. wr_poll_write_vectored W w bufs = (Ok n, w') \<and>
       (concat bufs \<noteq> [] \<longrightarrow> 0 < n)) \<and>
     (\<forall>w. \<exists>w'. wr_poll_flush W w = (Ok (), w')) \<and> (\<forall>w. \<exists>w'. wr_poll_shutdown W w = (Ok (), w'))"

lemma willingD:
  assumes "willing W"
  obtains n w' where "wr_poll_write W w bs = (Ok n, w')" and "bs \<noteq> [] \<longrightarrow> 0 < n"
  using assms unfolding willing_def by blast

lemma willing_vectored:
  assumes "willing W"
  obtains n w' where "wr_poll_write_vectored W w bufs = (Ok n, w')"
    and "concat bufs \<noteq> [] \<longrightarrow> 0 < n"
  using assms unfolding willing_def by blast

lemma willing_flush:
  assumes "willing W"
  obtains w' where "wr_poll_flush W w = (Ok (), w')"
  using assms unfolding willing_def by blast

lemma willing_shutdown:
  assumes "willing W"
  obtains w' where "wr_poll_shutdown W w = (Ok (), w')"
  using assms unfolding willing_def by blast

lemma flush_loop_willing:
  assumes "appends W sent" and "willing W"
  shows "rg_pos buf \<le> length (rg_buf buf) \<Longrightarrow> length (rg_buf buf) \<le> usize_max \<Longrightarrow>
    \<exists>s. flush_loop checks W buf io = (Ok (), s)"
proof (induction "length (rg_buf buf) - rg_pos buf" arbitrary: buf io rule: less_induct)
  case less
  have steps: "rg_is_empty checks buf = Ok (rg_pos buf = length (rg_buf buf))"
      "rg_bytes buf = Ok (drop (rg_pos buf) (rg_buf buf))"
    using less.prems by (auto simp: rg_is_empty_def rg_len_def rg_bytes_def rg.remaining_eq rg.bytes_eq)
  show ?case
  proof (cases "rg_pos buf = length (rg_buf buf)")
    case True
    with steps show ?thesis by (simp add: flush_loop.simps [of checks W buf io])
  next
    case False
    obtain n io1 where io1: "wr_poll_write W io (drop (rg_pos buf) (rg_buf buf)) = (Ok n, io1)"
        "drop (rg_pos buf) (rg_buf buf) \<noteq> [] \<longrightarrow> 0 < n"
      by (rule willingD [OF assms(2)])
    have n: "0 < n" "rg_pos buf + n \<le> length (rg_buf buf)"
      using io1(2) appendsD(1) [OF assms(1) io1(1)] False less.prems(1) by auto
    let ?buf = "rg_set_position buf (rg_pos buf + n)"
    have commit: "rg_commit buf n = Ok ?buf"
      using rg.commit_eq [OF n(2) less.prems(2)] by (simp add: rg_commit_def)
    then have "flush_loop checks W buf io = flush_loop checks W ?buf io1"
      using steps False io1(1) n(1) by (simp add: flush_loop.simps [of checks W buf io])
    then show ?thesis
      using less.hyps [of ?buf io1] less.prems n by simp
  qed
qed

lemma poll_flush_buffered_willing:
  assumes wf: "archive_wf a" and sink: "appends W sent" "willing W"
  obtains a' where "poll_flush_buffered E W a = (Ok (), a')"
proof -
  let ?reg = "\<lparr>rg_buf = take (buf_cap (ar_buf a)) (buf_store (ar_buf a)), rg_pos = buf_pos (ar_buf a)\<rparr>"
  have wfb: "buf_wf (ar_buf a)" using wf by (simp add: archive_wf_def)
  then obtain s where "flush_loop (debug_assertions E) W ?reg (ar_io a) = (Ok (), s)"
    using flush_loop_willing [OF sink, of ?reg "debug_assertions E" "ar_io a"]
    by (auto simp: buf_wf_def)
  then show thesis
    using that by (cases s) (simp add: poll_flush_buffered_def buffered_eq [OF wfb])
qed

lemma make_room_willing:
  assumes "archive_wf a" and "appends W sent" "willing W"
  obtains a' where "make_room E W len a = (Ok (), a')"
proof (cases "passes W len a \<or> buf_room (ar_buf a) < len")
  case True
  then have "make_room E W len a = poll_flush_buffered E W a"
    by (cases "passes W len a") (simp_all add: make_room_def)
  with poll_flush_buffered_willing [OF assms, of E] that show thesis by metis
next
  case False
  then have "make_room E W len a = (Ok (), a)" by (simp add: make_room_def)
  then show thesis by (rule that)
qed

lemma pass_through_willing:
  assumes sink: "appends W sent" "willing W" and len: "len = length (prefix_bytes p)" "len \<le> usize_max"
  obtains n a' where "pass_through E W p len a = (Ok n, a')" and "prefix_bytes p \<noteq> [] \<longrightarrow> 0 < n"
proof -
  let ?data = "concat (prefix_slices p)"
  have bytes: "prefix_bytes p = ?data @ prefix_remainder p" by (rule prefix_bytes_eq)
  have sub: "usize_sub (debug_assertions E) len (length (prefix_remainder p)) = Ok (length ?data)"
    using len(1) bytes by (simp add: usize_sub_def)
  obtain n io1 where io1: "wr_poll_write_vectored W (ar_io a) (prefix_slices p) = (Ok n, io1)"
      "?data \<noteq> [] \<longrightarrow> 0 < n"
    by (rule willing_vectored [OF sink(2)])
  show thesis
  proof (cases "n = length ?data")
    case False
    then have "0 < n"
      using io1(2) appendsD(4) [OF sink(1) io1(1)] by (cases n) auto
    then show thesis
      using that False sub io1(1) by (simp add: pass_through_def)
  next
    case True
    obtain w io2 where io2: "wr_poll_write W io1 (prefix_remainder p) = (Ok w, io2)"
        "prefix_remainder p \<noteq> [] \<longrightarrow> 0 < w"
      by (rule willingD [OF sink(2)])
    have "w \<le> length (prefix_remainder p)"
      using appendsD(1) [OF sink(1) io2(1)] by simp
    then have "usize_add (debug_assertions E) n w = Ok (n + w)"
      using len bytes True by (simp add: usize_add_def)
    then have "pass_through E W p len a = (Ok (n + w), a\<lparr>ar_io := io1\<rparr>\<lparr>ar_io := io2\<rparr>)"
      using sub io1(1) io2(1) True by (simp add: pass_through_def)
    moreover have "prefix_bytes p \<noteq> [] \<longrightarrow> 0 < n + w"
      using bytes io1(2) io2(2) by (auto simp del: concat_eq_Nil_conv)
    ultimately show thesis by (rule that)
  qed
qed

text \<open>Then every write of something the machine takes goes through, at least in part.\<close>

lemma write_vectored_willing:
  assumes wf: "archive_wf a" and sink: "appends W sent" "willing W"
    and len: "length (take m (concat bufs)) \<le> usize_max"
    and take: "take_slices E (ar_state a) [take m (concat bufs)] h =
      Ok (st, length (take m (concat bufs)))"
  obtains n a' where "poll_write_vectored E W bufs m h a = (Ok n, a')"
    and "take m (concat bufs) \<noteq> [] \<longrightarrow> 0 < n"
    and "write_outcome E sent (take m (concat bufs)) h a (Ok n) a'"
proof -
  define data where "data = take m (concat bufs)"
  note len' = len [folded data_def]
  obtain p where p: "prefix_bytes p = data" and run_eq: "poll_write_vectored E W bufs m h a =
      and_then (make_room E W (length data) a) (\<lambda>_ b.
      and_then
        (if passes W (length data) a then pass_through E W p (length data) b
         else fill_buffer E p b) (\<lambda>n c.
      and_then (if n = length data then Ok st else state_after E (ar_state c) p h n, c) (\<lambda>st d.
      (Ok n, d\<lparr>ar_state := st\<rparr>))))"
    by (rule write_vectored_eq [OF wf len take, of W, folded data_def]) (rule that)
  obtain a1 where a1: "make_room E W (length data) a = (Ok (), a1)"
    by (rule make_room_willing [OF wf sink])
  have room: "archive_wf a1" "ar_state a1 = ar_state a" "ar_capacity a1 = ar_capacity a"
      "min (length data) (ar_capacity a) \<le> buf_room (ar_buf a1)"
    using make_room_spec [OF wf sink(1) a1] by simp_all
  have "0 < ar_capacity a" using wf by (simp add: archive_wf_def)
  obtain n a2 where a2: "(if passes W (length data) a then pass_through E W p (length data) a1
      else fill_buffer E p a1) = (Ok n, a2)" "data \<noteq> [] \<longrightarrow> 0 < n"
  proof (cases "passes W (length data) a")
    case True
    from pass_through_willing [OF sink _ len', of p E a1] p obtain n a2
      where "pass_through E W p (length data) a1 = (Ok n, a2)" "data \<noteq> [] \<longrightarrow> 0 < n" by metis
    with True show thesis by (intro that [of n a2]) simp_all
  next
    case False
    from fill_buffer_spec [OF room(1), of E p] p obtain a2
      where "fill_buffer E p a1 = (Ok (min (length data) (buf_room (ar_buf a1))), a2)" by metis
    moreover have "data \<noteq> [] \<longrightarrow> 0 < min (length data) (buf_room (ar_buf a1))"
      using room(4) \<open>0 < ar_capacity a\<close> by (cases data) (auto simp: min_def split: if_splits)
    ultimately show thesis
      using False by (intro that [of "min (length data) (buf_room (ar_buf a1))" a2]) simp_all
  qed
  have "ar_state a2 = ar_state a \<and> n \<le> length data"
  proof (cases "passes W (length data) a")
    case True
    then have "pass_through E W p (length data) a1 = (Ok n, a2)" using a2(1) by simp
    from pass_through_spec [OF sink(1) _ len' this] p room(2) show ?thesis by simp
  next
    case False
    with a2(1) fill_buffer_spec [OF room(1), of E p] p room(2) show ?thesis
      by (metis fst_conv snd_conv outcome.inject(1) min.cobounded1)
  qed
  moreover from this obtain s1 where "state_after E (ar_state a) p h n = Ok s1"
    using state_after_spec [of E "ar_state a" p h st n] take [folded data_def] p by metis
  ultimately have "poll_write_vectored E W bufs m h a =
      (Ok n, a2\<lparr>ar_state := if n = length data then st else s1\<rparr>)"
    using a1 a2(1) by (simp add: run_eq)
  from this a2(2) [unfolded data_def] write_vectored_spec [OF wf sink(1) len take this]
  show thesis by (intro that) simp_all
qed

end
