(* ===== verification/Encoding.thy ===== *)
theory Encoding
  imports Writing
begin

text \<open>
  Whole archives: a client that adds entries, writes their data and finishes the archive
  produces exactly the layout of \<open>Format\<close>, for every buffer capacity and however the
  underlying object splits the writes.
\<close>

section \<open>Writing bytes\<close>

lemma write_data_willing:
  assumes wf: "archive_wf a" and sink: "appends W sent" "willing W"
    and len: "length buf \<le> usize_max"
    and take: "take_until E (ar_state a) slices_stop buf h = Ok (st, length buf)"
  obtains n a' where "poll_write_data E W buf h a = (Ok n, a')" and "buf \<noteq> [] \<longrightarrow> 0 < n"
    and "n \<le> length buf" and "archive_wf a'" and "ar_capacity a' = ar_capacity a"
    and "written sent a' = written sent a @ take n buf"
    and "take_until E (ar_state a) slices_stop (take n buf) h = Ok (ar_state a', n)"
proof -
  have whole: "take (length buf) (concat [buf]) = buf" by simp
  have "length (take (length buf) (concat [buf])) \<le> usize_max"
      "take_slices E (ar_state a) [take (length buf) (concat [buf])] h =
        Ok (st, length (take (length buf) (concat [buf])))"
    using len take by (simp_all add: take_slices_eq_take_until)
  from write_vectored_willing [OF wf sink this] obtain n a'
    where "poll_write_data E W buf h a = (Ok n, a')" "buf \<noteq> [] \<longrightarrow> 0 < n"
      "write_outcome E sent buf h a (Ok n) a'"
    unfolding whole poll_write_data_def by metis
  then show thesis
    using that [of n a'] by (simp add: write_outcome_def take_slices_eq_take_until)
qed

lemma block_le_usize_max: "n \<le> 512 \<Longrightarrow> n \<le> usize_max"
  by (simp add: usize_max_def usize_bits_def)

text \<open>The runs of the machine over the pieces that are written.\<close>

lemma take_header_piece:
  assumes "0 < length buf" and "length buf \<le> rem"
  shows "take_until E (ReceivingHeader rem e) slices_stop buf h =
    Ok (if length buf = rem
        then if e \<and> all_zero buf then ReceivingEof 512 else ReceivedHeader
        else ReceivingHeader (rem - length buf) (e \<and> all_zero buf), length buf)"
  using assms by (simp add: take_until_unfold read_run_def advance_def Let_def min_absorb2)

lemma take_first_piece:
  assumes "0 < length buf" and "length buf \<le> 512"
  shows "take_until E ExpectingHeader slices_stop buf h =
    Ok (if length buf = 512
        then if all_zero buf then ReceivingEof 512 else ReceivedHeader
        else ReceivingHeader (512 - length buf) (all_zero buf), length buf)"
proof -
  have "take_until E ExpectingHeader slices_stop buf h =
      take_until E (ReceivingHeader 512 True) slices_stop buf h"
    using assms take_until_skip [of E ExpectingHeader buf h "ReceivingHeader 512 True" 0 slices_stop]
    by (simp add: slices_stop_def)
  with take_header_piece [of buf 512 E True h] assms show ?thesis by simp
qed

lemma take_data_piece:
  assumes "length buf \<le> unat n"
  shows "take_until E (ReceivingData n) slices_stop buf h =
    Ok (if length buf = unat n then ReceivedData else ReceivingData (n - word_of_nat (length buf)),
      length buf)"
proof -
  have "n - word_of_nat (length buf) = 0 \<longleftrightarrow> length buf = unat n"
    using unat_minus_of_nat [OF assms] assms by (auto simp flip: unat_eq_zero)
  with assms show ?thesis
    by (simp add: take_until_unfold next_receiving_data_def advance_def Let_def min_absorb2)
qed

lemma take_padding_piece:
  assumes "length buf \<le> rem"
  shows "take_until E (AligningData rem) slices_stop buf h =
    Ok (if length buf = rem then AlignedData else AligningData (rem - length buf), length buf)"
  using assms by (auto simp add: take_until_unfold advance_def Let_def min_absorb2)

lemma take_eof_piece:
  assumes "0 < n" and "n \<le> rem"
  shows "take_until E (ReceivingEof rem) slices_stop (replicate n 0) h =
    Ok (if n = rem then ReceivedEof else ReceivingEof (rem - n), n)"
  using assms by (auto simp add: take_until_unfold read_run_def advance_def Let_def min_absorb2)

section \<open>Headers\<close>

lemma write_header_rest:
  assumes "archive_wf a" and sink: "appends W sent" "willing W" and hdr: "length hdr = 512"
    and "ar_state a = ReceivingHeader rem False" and "0 < rem" and "rem \<le> 512"
    and size: "hdr_entry_size E hdr = Inr n"
  obtains a' where "poll_write_header E W hdr a = Some (Ok (), a')" and "archive_wf a'"
    and "ar_capacity a' = ar_capacity a" and "ar_state a' = ReceivingData n"
    and "written sent a' = written sent a @ drop (512 - rem) hdr"
  using assms(1,5-7)
proof (induction rem arbitrary: a thesis rule: less_induct)
  case (less rem)
  let ?buf = "drop (512 - rem) hdr"
  have len: "length ?buf = rem" using hdr less.prems(5) by simp
  have whole: "take_until E (ar_state a) slices_stop ?buf (Some hdr) = Ok (ReceivedHeader, length ?buf)"
    using take_header_piece [of ?buf rem E False "Some hdr"] len less.prems(3,4) by simp
  have "length ?buf \<le> usize_max" using len less.prems(5) block_le_usize_max by simp
  from write_data_willing [OF less.prems(2) sink this whole] obtain k a1
    where k: "poll_write_data E W ?buf (Some hdr) a = (Ok k, a1)" "?buf \<noteq> [] \<longrightarrow> 0 < k"
      "k \<le> length ?buf" "archive_wf a1" "ar_capacity a1 = ar_capacity a"
      "written sent a1 = written sent a @ take k ?buf"
      "take_until E (ar_state a) slices_stop (take k ?buf) (Some hdr) = Ok (ar_state a1, k)" .
  then have k0: "0 < k" "k \<le> rem" using len less.prems(4) by auto
  with k(7) take_header_piece [of "take k ?buf" rem E False "Some hdr"] less.prems(3) len
  have st: "ar_state a1 = (if k = rem then ReceivedHeader else ReceivingHeader (rem - k) False)"
    by simp
  have step: "poll_write_header E W hdr a = poll_write_header E W hdr a1"
    using k(1) k0 less.prems(3,5) hdr
    by (simp add: poll_write_header.simps [of E W hdr a] usize_sub_def slice_in_range)
  show ?case
  proof (cases "k = rem")
    case True
    then have "ar_state a1 = ReceivedHeader" using st by simp
    then have "poll_write_header E W hdr a1 = Some (Ok (), a1\<lparr>ar_state := ReceivingData n\<rparr>)"
      using size by (simp add: poll_write_header.simps [of E W hdr a1] archive_take_marker_def
          take_marker_def entry_size_of_def)
    with step less.prems(1) k(4-6) True len show ?thesis
      by (simp add: archive_wf_def written_def)
  next
    case False
    then have "ar_state a1 = ReceivingHeader (rem - k) False" "0 < rem - k" "rem - k \<le> 512" "rem - k < rem"
      using st k0 less.prems(5) by simp_all
    moreover have "take k ?buf @ drop (512 - (rem - k)) hdr = ?buf"
    proof -
      have "512 - (rem - k) = k + (512 - rem)" using k0 less.prems(5) by simp
      then show ?thesis by (metis append_take_drop_id drop_drop)
    qed
    ultimately show ?thesis
      using less.IH [of "rem - k" a1 thesis] less.prems(1) k(4-6) step by simp
  qed
qed

lemma write_header:
  assumes wf: "archive_wf a" and sink: "appends W sent" "willing W"
    and st: "ar_state a = ExpectingHeader" and hdr: "length hdr = 512" "hdr ! 0 \<noteq> 0"
    and size: "hdr_entry_size E hdr = Inr n"
  obtains a' where "poll_write_header E W hdr a = Some (Ok (), a')" and "archive_wf a'"
    and "ar_capacity a' = ar_capacity a" and "ar_state a' = ReceivingData n"
    and "written sent a' = written sent a @ hdr"
proof -
  have nonzero: "\<not> all_zero (take k hdr)" if "0 < k" for k
    using hdr that by (cases hdr; cases k) auto
  then have "\<not> all_zero hdr" using hdr(1) by (metis take_all order_refl zero_less_numeral)
  then have whole: "take_until E (ar_state a) slices_stop hdr (Some hdr) = Ok (ReceivedHeader, length hdr)"
    using take_first_piece [of hdr E "Some hdr"] hdr(1) st by simp
  have "length hdr \<le> usize_max" using hdr(1) block_le_usize_max by simp
  from write_data_willing [OF wf sink this whole] obtain k a1
    where k: "poll_write_data E W hdr (Some hdr) a = (Ok k, a1)" "hdr \<noteq> [] \<longrightarrow> 0 < k"
      "k \<le> length hdr" "archive_wf a1" "ar_capacity a1 = ar_capacity a"
      "written sent a1 = written sent a @ take k hdr"
      "take_until E (ar_state a) slices_stop (take k hdr) (Some hdr) = Ok (ar_state a1, k)" .
  then have k0: "0 < k" "k \<le> 512" using hdr(1) by auto
  with k(7) take_first_piece [of "take k hdr" E "Some hdr"] nonzero [of k] st hdr(1)
  have st1: "ar_state a1 = (if k = 512 then ReceivedHeader else ReceivingHeader (512 - k) False)"
    by (cases "k = 512") (auto split: if_splits)
  have step: "poll_write_header E W hdr a = poll_write_header E W hdr a1"
    using k(1) k0 st by (simp add: poll_write_header.simps [of E W hdr a])
  show thesis
  proof (cases "k = 512")
    case True
    then have "ar_state a1 = ReceivedHeader" using st1 by simp
    then have "poll_write_header E W hdr a1 = Some (Ok (), a1\<lparr>ar_state := ReceivingData n\<rparr>)"
      using size by (simp add: poll_write_header.simps [of E W hdr a1] archive_take_marker_def
          take_marker_def entry_size_of_def)
    with step that k(4-6) True hdr(1) show thesis
      by (simp add: archive_wf_def written_def)
  next
    case False
    then have "ar_state a1 = ReceivingHeader (512 - k) False" "0 < 512 - k" "512 - k \<le> 512"
      using st1 k0 by simp_all
    from write_header_rest [OF k(4) sink hdr(1) this size] obtain a2
      where "poll_write_header E W hdr a1 = Some (Ok (), a2)" "archive_wf a2"
        "ar_capacity a2 = ar_capacity a1" "ar_state a2 = ReceivingData n"
        "written sent a2 = written sent a1 @ drop (512 - (512 - k)) hdr" .
    with step that [of a2] k(5,6) k0 show thesis by simp
  qed
qed

section \<open>Entries\<close>

lemma finish_entry_padding:
  assumes "archive_wf a" and sink: "appends W sent" "willing W"
    and "ar_state a = AligningData rem" and "rem < 512"
  obtains a' where "poll_finish_entry E W hdr a = Some (Ok (), a')" and "archive_wf a'"
    and "ar_capacity a' = ar_capacity a" and "ar_state a' = ExpectingHeader"
    and "written sent a' = written sent a @ replicate rem 0"
  using assms(1,4,5)
proof (induction rem arbitrary: a thesis rule: less_induct)
  case (less rem)
  let ?buf = "replicate rem (0 :: u8)"
  have buf: "take rem EMPTY_BLOCK = ?buf" using less.prems(4) by (simp add: take_EMPTY_BLOCK)
  have whole: "take_until E (ar_state a) slices_stop ?buf (Some hdr) = Ok (AlignedData, length ?buf)"
    using take_padding_piece [of ?buf rem E "Some hdr"] less.prems(3) by simp
  have "length ?buf \<le> usize_max" using less.prems(4) block_le_usize_max by simp
  from write_data_willing [OF less.prems(2) sink this whole] obtain k a1
    where k: "poll_write_data E W ?buf (Some hdr) a = (Ok k, a1)" "?buf \<noteq> [] \<longrightarrow> 0 < k"
      "k \<le> length ?buf" "archive_wf a1" "ar_capacity a1 = ar_capacity a"
      "written sent a1 = written sent a @ take k ?buf"
      "take_until E (ar_state a) slices_stop (take k ?buf) (Some hdr) = Ok (ar_state a1, k)" .
  then have k0: "k \<le> rem" "0 < rem \<longrightarrow> 0 < k" by auto
  with k(7) take_padding_piece [of "take k ?buf" rem E "Some hdr"] less.prems(3)
  have st: "ar_state a1 = (if k = rem then AlignedData else AligningData (rem - k))"
    by (auto split: if_splits)
  have step: "poll_finish_entry E W hdr a = poll_finish_entry E W hdr a1"
    using k(1) less.prems(3,4) buf
    by (simp add: poll_finish_entry.simps [of E W hdr a] slice_in_range)
  have pad: "take k ?buf @ replicate (rem - k) 0 = ?buf"
    using k0(1) by (simp flip: replicate_add)
  show ?case
  proof (cases "k = rem")
    case True
    then have "ar_state a1 = AlignedData" using st by simp
    then have "poll_finish_entry E W hdr a1 = Some (Ok (), a1\<lparr>ar_state := ExpectingHeader\<rparr>)"
      by (simp add: poll_finish_entry.simps [of E W hdr a1] archive_take_marker_def take_marker_def)
    with step less.prems(1) k(4-6) True show ?thesis
      by (simp add: archive_wf_def written_def)
  next
    case False
    then have "ar_state a1 = AligningData (rem - k)" "rem - k < 512" "rem - k < rem"
      using st k0 less.prems(4) by auto
    then show ?thesis
      using less.IH [of "rem - k" a1 thesis] less.prems(1) k(4-6) step pad by simp
  qed
qed

lemma finish_entry_start:
  assumes "ar_state a = ReceivedData"
    and "hdr_entry_size E hdr = Inr n" and "\<not> debug_assertions E \<or> unat n + 511 < 2 ^ 64"
  shows "poll_finish_entry E W hdr a =
    poll_finish_entry E W hdr (a\<lparr>ar_state := AligningData (padding 512 (unat n))\<rparr>)"
  using assms(1) state_next_ReceivedData [OF assms(2,3), of "[]"]
  by (simp add: poll_finish_entry.simps [of E W hdr a] archive_take_marker_def take_marker_def)

lemma finish_entry:
  assumes wf: "archive_wf a" and sink: "appends W sent" "willing W"
    and st: "ar_state a = ReceivedData"
    and size: "hdr_entry_size E hdr = Inr n" "\<not> debug_assertions E \<or> unat n + 511 < 2 ^ 64"
  obtains a' where "poll_finish_entry E W hdr a = Some (Ok (), a')" and "archive_wf a'"
    and "ar_capacity a' = ar_capacity a" and "ar_state a' = ExpectingHeader"
    and "written sent a' = written sent a @ replicate (padding 512 (unat n)) 0"
proof -
  let ?a = "a\<lparr>ar_state := AligningData (padding 512 (unat n))\<rparr>"
  have step: "poll_finish_entry E W hdr a = poll_finish_entry E W hdr ?a"
    by (rule finish_entry_start [OF st size])
  have "archive_wf ?a"
    using wf padding_less [of 512 "unat n"] by (simp add: archive_wf_def)
  from finish_entry_padding [OF this sink, of "padding 512 (unat n)" E hdr] obtain a'
    where "poll_finish_entry E W hdr ?a = Some (Ok (), a')" "archive_wf a'"
      "ar_capacity a' = ar_capacity ?a" "ar_state a' = ExpectingHeader"
      "written sent a' = written sent ?a @ replicate (padding 512 (unat n)) 0"
    using padding_less [of 512 "unat n"] by auto
  with that [of a'] step show thesis by (simp add: written_def)
qed

text \<open>
  One write of entry data, whatever the slices hold: what follows the bytes that are missing
  of the entry is not looked at, some of the others are accepted, and the last missing byte
  completes the entry with its padding. With debug assertions a write of more than the
  missing bytes panics once it has completed the data.
\<close>

lemma entry_write_slices:
  fixes bufs :: "io_slice list"
  assumes wf: "archive_wf a" and sink: "appends W sent" "willing W"
    and st: "ar_state a = ReceivingData rem"
    and size: "hdr_entry_size E (en_header en) = Inr n"
      "\<not> debug_assertions E \<or> unat n + 511 < 2 ^ 64"
  obtains k a' where "k \<le> unat rem" and "k \<le> length (concat bufs)"
    and "concat bufs \<noteq> [] \<Longrightarrow> 0 < unat rem \<Longrightarrow> 0 < k"
    and "archive_wf a'" and "ar_capacity a' = ar_capacity a"
    and "if k < unat rem then
        entry_poll_write_vectored E W en bufs a = Some (Ok k, a') \<and>
        ar_state a' = ReceivingData (rem - word_of_nat k) \<and>
        written sent a' = written sent a @ take k (concat bufs)
      else if debug_assertions E \<and> bytes_len bufs \<noteq> k then
        entry_poll_write_vectored E W en bufs a = Some (Panic AssertFailed, a') \<and>
        ar_state a' = ReceivedData \<and>
        written sent a' = written sent a @ take k (concat bufs)
      else
        entry_poll_write_vectored E W en bufs a = Some (Ok k, a') \<and>
        ar_state a' = ExpectingHeader \<and>
        written sent a' =
          written sent a @ take k (concat bufs) @ replicate (padding 512 (unat n)) 0"
proof -
  let ?hdr = "en_header en"
  define data where "data = take (unat rem) (concat bufs)"
  have le: "length data \<le> unat rem" by (simp add: data_def)
  have len: "length data \<le> usize_max"
    using le unat_le_usize_max [of rem] by linarith
  have "take_slices E (ar_state a) [data] (Some ?hdr) =
      Ok (if length data = unat rem then ReceivedData
        else ReceivingData (rem - word_of_nat (length data)), length data)"
    using take_data_piece [OF le, of E "Some ?hdr"] st by (simp add: take_slices_eq_take_until)
  from write_vectored_willing [OF wf sink len [unfolded data_def] this [unfolded data_def],
      folded data_def] obtain k a1
    where k: "poll_write_vectored E W bufs (unat rem) (Some ?hdr) a = (Ok k, a1)"
      "data \<noteq> [] \<longrightarrow> 0 < k" "write_outcome E sent data (Some ?hdr) a (Ok k) a1"
    by metis
  then have a1: "k \<le> length data" "archive_wf a1" "ar_capacity a1 = ar_capacity a"
      "written sent a1 = written sent a @ take k data"
      "take_until E (ar_state a) slices_stop (take k data) (Some ?hdr) = Ok (ar_state a1, k)"
    by (simp_all add: write_outcome_def take_slices_eq_take_until)
  have k_le: "k \<le> unat rem" "k \<le> length (concat bufs)" and cut: "take k data = take k (concat bufs)"
    using a1(1) by (simp_all add: data_def min_def split: if_splits)
  have st1: "ar_state a1 = (if k = unat rem then ReceivedData else ReceivingData (rem - word_of_nat k))"
    using take_data_piece [of "take k data" rem E "Some ?hdr"] a1(1,5) st k_le(1)
    by (auto split: if_splits)
  have "(word_of_nat k = rem) = (k = unat rem)"
    using le_unat_uoi [OF k_le(1)] by (simp add: word_unat_eq_iff)
  then have run: "entry_poll_write_vectored E W en bufs a =
      (if k = unat rem then
         if debug_assertions E \<and> bytes_len bufs \<noteq> k then Some (Panic AssertFailed, a1)
         else Option.bind (poll_finish_entry E W ?hdr a1) (\<lambda>res. case res of
             (Ok _, a) \<Rightarrow> Some (Ok k, a)
           | (Err e, a) \<Rightarrow> Some (if debug_assertions E then Panic AssertFailed else Ok k, a)
           | (Pending, a) \<Rightarrow> Some (Pending, a)
           | (Panic p, a) \<Rightarrow> Some (Panic p, a))
       else Some (Ok k, a1))"
    using st st1 k(1)
    by (auto simp: entry_poll_write_vectored_def poll_write_entry_def)
  note that' = that [OF k_le]
  show thesis
  proof (cases "k = unat rem \<and> \<not> (debug_assertions E \<and> bytes_len bufs \<noteq> k)")
    case True
    then have "ar_state a1 = ReceivedData" using st1 by simp
    from finish_entry [OF a1(2) sink this size] obtain a2
      where "poll_finish_entry E W ?hdr a1 = Some (Ok (), a2)" "archive_wf a2"
        "ar_capacity a2 = ar_capacity a1" "ar_state a2 = ExpectingHeader"
        "written sent a2 = written sent a1 @ replicate (padding 512 (unat n)) 0" .
    with that' [of a2] run True k(2) a1(3,4) cut show thesis by (auto simp: data_def)
  next
    case False
    with that' [of a1] run k(2) a1(2-4) st1 cut k_le show thesis by (auto simp: data_def)
  qed
qed

lemma entry_write:
  assumes wf: "archive_wf a" and sink: "appends W sent" "willing W"
    and st: "ar_state a = ReceivingData rem"
    and buf: "buf \<noteq> []" "length buf \<le> unat rem"
    and size: "hdr_entry_size E (en_header en) = Inr n"
      "\<not> debug_assertions E \<or> unat n + 511 < 2 ^ 64"
  obtains k a' where "entry_poll_write E W en buf a = Some (Ok k, a')"
    and "0 < k" and "k \<le> length buf" and "archive_wf a'" and "ar_capacity a' = ar_capacity a"
    and "if k = unat rem
      then ar_state a' = ExpectingHeader \<and>
        written sent a' = written sent a @ buf @ replicate (padding 512 (unat n)) 0
      else ar_state a' = ReceivingData (rem - word_of_nat k) \<and>
        written sent a' = written sent a @ take k buf"
proof -
  have len: "bytes_len [buf] = length buf"
    using buf(2) unat_le_usize_max [of rem] by (simp add: bytes_len_eq)
  show thesis
  proof (rule entry_write_slices [OF wf sink st size, where bufs = "[buf]"], goal_cases)
    case (1 k a')
    have "0 < unat rem" using buf by (cases buf) auto
    with 1(3) buf(1) have "0 < k" by simp
    then show thesis
      by (intro that [of k a']) (use 1 buf len in \<open>auto simp: entry_poll_write_def split: if_splits\<close>)
  qed
qed

section \<open>The end of the archive\<close>

lemma finish_second_block:
  assumes "archive_wf a" and sink: "appends W sent" "willing W"
    and "ar_state a = ReceivingEof rem" and "0 < rem" and "rem \<le> 512"
  obtains a' where "poll_finish E W a = Some (Ok (), a')" and "ar_state a' = ReceivedEof"
    and "ar_bytes a' = []" and "sent (ar_io a') = written sent a @ replicate rem 0"
  using assms(1,4-6)
proof (induction rem arbitrary: a thesis rule: less_induct)
  case (less rem)
  let ?buf = "replicate rem (0 :: u8)"
  have buf: "take rem EMPTY_BLOCK = ?buf" using less.prems(5) by (simp add: take_EMPTY_BLOCK)
  have whole: "take_until E (ar_state a) slices_stop ?buf None = Ok (ReceivedEof, length ?buf)"
    using take_eof_piece [of rem rem E None] less.prems(3,4) by simp
  have "length ?buf \<le> usize_max" using less.prems(5) block_le_usize_max by simp
  from write_data_willing [OF less.prems(2) sink this whole] obtain k a1
    where k: "poll_write_data E W ?buf None a = (Ok k, a1)" "?buf \<noteq> [] \<longrightarrow> 0 < k"
      "k \<le> length ?buf" "archive_wf a1" "written sent a1 = written sent a @ take k ?buf"
      "take_until E (ar_state a) slices_stop (take k ?buf) None = Ok (ar_state a1, k)" .
  then have k0: "0 < k" "k \<le> rem" using less.prems(4) by auto
  with k(6) take_eof_piece [of k rem E None] less.prems(3)
  have st: "ar_state a1 = (if k = rem then ReceivedEof else ReceivingEof (rem - k))"
    by (auto simp: min_absorb1 split: if_splits)
  have step: "poll_finish E W a = poll_finish E W a1"
    using k(1) less.prems(3,5) buf
    by (simp add: poll_finish.simps [of E W a] slice_in_range)
  show ?case
  proof (cases "k = rem")
    case True
    then have st1: "ar_state a1 = ReceivedEof" using st by simp
    obtain a2 where a2: "poll_flush_buffered E W a1 = (Ok (), a2)"
      by (rule poll_flush_buffered_willing [OF k(4) sink])
    note flushed = flush_spec [OF k(4) sink(1) a2, simplified]
    obtain io where io: "wr_poll_shutdown W (ar_io a2) = (Ok (), io)"
      by (rule willing_shutdown [OF sink(2)])
    have "poll_finish E W a1 = Some (Ok (), a2\<lparr>ar_io := io\<rparr>)"
      using st1 a2 io by (simp add: poll_finish.simps [of E W a1])
    with step less.prems(1) flushed st1 k(5) True appendsD(8) [OF sink(1) io] show ?thesis
      by (simp add: written_def)
  next
    case False
    then have "ar_state a1 = ReceivingEof (rem - k)" "0 < rem - k" "rem - k \<le> 512" "rem - k < rem"
      using st k0 less.prems(5) by auto
    moreover have "take k ?buf @ replicate (rem - k) 0 = ?buf"
      using k0(2) by (simp flip: replicate_add)
    ultimately show ?thesis
      using less.IH [of "rem - k" a1 thesis] less.prems(1) k(4,5) step by simp
  qed
qed

lemma finish_first_block:
  assumes "archive_wf a" and sink: "appends W sent" "willing W"
    and "ar_state a = ReceivingHeader rem True" and "0 < rem" and "rem \<le> 512"
  obtains a' where "poll_finish E W a = Some (Ok (), a')" and "ar_state a' = ReceivedEof"
    and "ar_bytes a' = []" and "sent (ar_io a') = written sent a @ replicate (rem + 512) 0"
  using assms(1,4-6)
proof (induction rem arbitrary: a thesis rule: less_induct)
  case (less rem)
  let ?buf = "replicate rem (0 :: u8)"
  have buf: "take rem EMPTY_BLOCK = ?buf" using less.prems(5) by (simp add: take_EMPTY_BLOCK)
  have whole: "take_until E (ar_state a) slices_stop ?buf None = Ok (ReceivingEof 512, length ?buf)"
    using take_header_piece [of ?buf rem E True None] less.prems(3,4) by simp
  have "length ?buf \<le> usize_max" using less.prems(5) block_le_usize_max by simp
  from write_data_willing [OF less.prems(2) sink this whole] obtain k a1
    where k: "poll_write_data E W ?buf None a = (Ok k, a1)" "?buf \<noteq> [] \<longrightarrow> 0 < k"
      "k \<le> length ?buf" "archive_wf a1" "written sent a1 = written sent a @ take k ?buf"
      "take_until E (ar_state a) slices_stop (take k ?buf) None = Ok (ar_state a1, k)" .
  then have k0: "0 < k" "k \<le> rem" using less.prems(4) by auto
  with k(6) take_header_piece [of "take k ?buf" rem E True None] less.prems(3)
  have st: "ar_state a1 = (if k = rem then ReceivingEof 512 else ReceivingHeader (rem - k) True)"
    by (auto simp: min_absorb1 split: if_splits)
  have step: "poll_finish E W a = poll_finish E W a1"
    using k(1) less.prems(3,5) buf
    by (simp add: poll_finish.simps [of E W a] slice_in_range)
  show ?case
  proof (cases "k = rem")
    case True
    then have "ar_state a1 = ReceivingEof 512" using st by simp
    from finish_second_block [OF k(4) sink this, of E] obtain a2
      where a2: "poll_finish E W a1 = Some (Ok (), a2)" "ar_state a2 = ReceivedEof" "ar_bytes a2 = []"
        "sent (ar_io a2) = written sent a1 @ replicate 512 0"
      by auto
    with step less.prems(1) [of a2] k(5) True show ?thesis by (simp add: replicate_add)
  next
    case False
    then have "ar_state a1 = ReceivingHeader (rem - k) True" "0 < rem - k" "rem - k \<le> 512" "rem - k < rem"
      using st k0 less.prems(5) by auto
    moreover have "take k ?buf @ replicate (rem - k + 512) 0 = replicate (rem + 512) 0"
      using k0(2) by (simp flip: replicate_add)
    ultimately show ?thesis
      using less.IH [of "rem - k" a1 thesis] less.prems(1) k(4,5) step by simp
  qed
qed

lemma finish_archive:
  assumes wf: "archive_wf a" and sink: "appends W sent" "willing W"
    and st: "ar_state a = ExpectingHeader"
  obtains a' where "poll_finish E W a = Some (Ok (), a')" and "ar_state a' = ReceivedEof"
    and "ar_bytes a' = []" and "sent (ar_io a') = written sent a @ make_eof_data"
proof -
  have whole: "take_until E (ar_state a) slices_stop EMPTY_BLOCK None = Ok (ReceivingEof 512, length EMPTY_BLOCK)"
    using take_first_piece [of EMPTY_BLOCK E None] st by simp
  have "length EMPTY_BLOCK \<le> usize_max" using block_le_usize_max by simp
  from write_data_willing [OF wf sink this whole] obtain k a1
    where k: "poll_write_data E W EMPTY_BLOCK None a = (Ok k, a1)" "EMPTY_BLOCK \<noteq> [] \<longrightarrow> 0 < k"
      "k \<le> length EMPTY_BLOCK" "archive_wf a1" "written sent a1 = written sent a @ take k EMPTY_BLOCK"
      "take_until E (ar_state a) slices_stop (take k EMPTY_BLOCK) None = Ok (ar_state a1, k)" .
  have k0: "0 < k" "k \<le> 512" using k(2,3) by (auto simp: EMPTY_BLOCK_def)
  with k(6) take_first_piece [of "take k EMPTY_BLOCK" E None] st
  have st1: "ar_state a1 = (if k = 512 then ReceivingEof 512 else ReceivingHeader (512 - k) True)"
    by (auto split: if_splits)
  have step: "poll_finish E W a = poll_finish E W a1"
    using k(1) st by (simp add: poll_finish.simps [of E W a])
  show thesis
  proof (cases "k = 512")
    case True
    then have "ar_state a1 = ReceivingEof 512" using st1 by simp
    from finish_second_block [OF k(4) sink this, of E] obtain a2
      where a2: "poll_finish E W a1 = Some (Ok (), a2)" "ar_state a2 = ReceivedEof" "ar_bytes a2 = []"
        "sent (ar_io a2) = written sent a1 @ replicate 512 0"
      by auto
    have "EMPTY_BLOCK @ replicate 512 0 = make_eof_data"
      by (simp add: make_eof_data_def EMPTY_BLOCK_def flip: replicate_add)
    with step that [of a2] a2 k(5) True show thesis by simp
  next
    case False
    then have "ar_state a1 = ReceivingHeader (512 - k) True" "0 < 512 - k" "512 - k \<le> 512"
      using st1 k0 by auto
    from finish_first_block [OF k(4) sink this, of E] obtain a2
      where a2: "poll_finish E W a1 = Some (Ok (), a2)" "ar_state a2 = ReceivedEof" "ar_bytes a2 = []"
        "sent (ar_io a2) = written sent a1 @ replicate (512 - k + 512) 0" .
    have "replicate k (0 :: u8) @ replicate (512 - k + 512) 0 = make_eof_data"
      using k0 by (simp add: make_eof_data_def flip: replicate_add)
    with step that [of a2] a2 k(5) k0 show thesis by (simp add: take_EMPTY_BLOCK)
  qed
qed

section \<open>The client\<close>

text \<open>
  \<open>write_all\<close> of the runtime writes until everything is accepted, and the client of
  \<open>src/write/tests.rs\<close> adds every entry, writes its data and finishes the archive.
\<close>

partial_function (option) entry_write_all ::
  "cfg \<Rightarrow> 'w writer \<Rightarrow> entry \<Rightarrow> bytes \<Rightarrow> 'w archive \<Rightarrow> (unit outcome \<times> 'w archive) option" where
  "entry_write_all E W en buf a =
     (if buf = [] then Some (Ok (), a)
      else
        Option.bind (entry_poll_write E W en buf a) (\<lambda>r.
          loop_then r (\<lambda>n a.
            if n = 0 then Some (Err (IoError WriteZero ''write zero byte into writer''), a)
            else entry_write_all E W en (drop n buf) a)))"

declare entry_write_all.simps [simp del]

fun write_archive ::
  "cfg \<Rightarrow> 'w writer \<Rightarrow> (header \<times> bytes) list \<Rightarrow> 'w archive \<Rightarrow> (unit outcome \<times> 'w archive) option"
  where
  "write_archive E W [] a = archive_finish E W a"
| "write_archive E W (e # es) a =
     Option.bind (add_entry E W (fst e) a) (\<lambda>r.
       loop_then r (\<lambda>en a.
         Option.bind (entry_write_all E W en (snd e) a) (\<lambda>r.
           loop_then r (\<lambda>_ a. write_archive E W es a))))"

lemma entry_write_all_entry:
  assumes "archive_wf a" and sink: "appends W sent" "willing W"
    and "ar_state a = ReceivingData rem" and "buf \<noteq> []" and "length buf = unat rem"
    and size: "hdr_entry_size E (en_header en) = Inr n"
      "\<not> debug_assertions E \<or> unat n + 511 < 2 ^ 64"
  obtains a' where "entry_write_all E W en buf a = Some (Ok (), a')" and "archive_wf a'"
    and "ar_capacity a' = ar_capacity a" and "ar_state a' = ExpectingHeader"
    and "written sent a' = written sent a @ buf @ replicate (padding 512 (unat n)) 0"
  using assms(1,4-6)
proof (induction "length buf" arbitrary: a rem buf thesis rule: less_induct)
  case less
  have "length buf \<le> unat rem" using less.prems(5) by simp
  from entry_write [OF less.prems(2) sink less.prems(3,4) this size] obtain k a1
    where k: "entry_poll_write E W en buf a = Some (Ok k, a1)" "0 < k" "k \<le> length buf"
      "archive_wf a1" "ar_capacity a1 = ar_capacity a"
      "if k = unat rem
        then ar_state a1 = ExpectingHeader \<and>
          written sent a1 = written sent a @ buf @ replicate (padding 512 (unat n)) 0
        else ar_state a1 = ReceivingData (rem - word_of_nat k) \<and>
          written sent a1 = written sent a @ take k buf" .
  have step: "entry_write_all E W en buf a = entry_write_all E W en (drop k buf) a1"
    using k(1,2) less.prems(4) by (simp add: entry_write_all.simps [of E W en buf a])
  show ?case
  proof (cases "k = unat rem")
    case True
    then have "entry_write_all E W en (drop k buf) a1 = Some (Ok (), a1)"
      using less.prems(5) by (simp add: entry_write_all.simps [of E W en "[]" a1])
    with step less.prems(1) k(4-6) True show ?thesis by simp
  next
    case False
    then have "drop k buf \<noteq> []" "length (drop k buf) < length buf"
        "length (drop k buf) = unat (rem - word_of_nat k)"
      using k(2,3) less.prems(5) unat_minus_of_nat [of k rem] by auto
    then show ?thesis
      using less.hyps [of "drop k buf" a1 thesis "rem - word_of_nat k"] less.prems(1) k(4-6) False step
      by simp
  qed
qed

text \<open>
  The entries the writer can write: those that fit their header, with some data, and a
  header that does not start with a zero byte (its first field is the path).
\<close>

definition writable :: "cfg \<Rightarrow> header \<times> bytes \<Rightarrow> bool" where
  "writable E e \<longleftrightarrow> entry_fits E e \<and> snd e \<noteq> [] \<and> fst e ! 0 \<noteq> 0"

lemma write_archive_entries:
  assumes "archive_wf a" and sink: "appends W sent" "willing W"
    and "\<And>e. e \<in> set es \<Longrightarrow> writable E e" and "ar_state a = ExpectingHeader"
  obtains a' where "write_archive E W es a = Some (Ok (), a')" and "ar_state a' = ReceivedEof"
    and "ar_bytes a' = []" and "sent (ar_io a') = written sent a @ archive_bytes es"
  using assms(1,4,5)
proof (induction es arbitrary: a thesis)
  case Nil
  from finish_archive [OF Nil.prems(2) sink Nil.prems(4), of E] Nil.prems(1) show ?case
    by (auto simp: archive_finish_def archive_bytes_def)
next
  case (Cons e es)
  obtain n where n: "valid_header E (fst e) n" "length (snd e) = unat n" "snd e \<noteq> []" "fst e ! 0 \<noteq> 0"
    using Cons.prems(3) [of e] by (auto simp: writable_def elim: entry_fitsE)
  note hdr = valid_headerD [OF n(1)]
  from write_header [OF Cons.prems(2) sink Cons.prems(4) hdr(1) n(4) hdr(4)] obtain a1
    where a1: "poll_write_header E W (fst e) a = Some (Ok (), a1)" "archive_wf a1"
      "ar_state a1 = ReceivingData n" "written sent a1 = written sent a @ fst e" .
  let ?en = "\<lparr>en_header = fst e\<rparr>"
  from entry_write_all_entry [OF a1(2) sink a1(3) n(3,2), of E ?en n] hdr(4,6) obtain a2
    where a2: "entry_write_all E W ?en (snd e) a1 = Some (Ok (), a2)" "archive_wf a2"
      "ar_state a2 = ExpectingHeader"
      "written sent a2 = written sent a1 @ snd e @ replicate (padding 512 (unat n)) 0"
    by auto
  have step: "write_archive E W (e # es) a = write_archive E W es a2"
    using a1(1) a2(1) hdr(5) by (simp add: add_entry_def)
  obtain a3 where a3: "write_archive E W es a2 = Some (Ok (), a3)" "ar_state a3 = ReceivedEof"
      "ar_bytes a3 = []" "sent (ar_io a3) = written sent a2 @ archive_bytes es"
    using Cons.IH [OF _ a2(2) _ a2(3)] Cons.prems(3) by auto
  with step Cons.prems(1) [of a3] a1(4) a2(4) n(2) show ?case
    by (simp add: archive_bytes_simps)
qed

section \<open>Properties of writing\<close>

text \<open>A writer for the witnesses: it accepts at most \<open>k\<close> bytes in a call.\<close>

definition chunk_writer :: "nat \<Rightarrow> bool \<Rightarrow> bytes writer" where
  "chunk_writer k vectored =
     \<lparr>wr_poll_write = (\<lambda>w bs. (Ok (min k (length bs)), w @ take k bs)),
      wr_poll_write_vectored =
        (\<lambda>w bufs. (Ok (min k (length (concat bufs))), w @ take k (concat bufs))),
      wr_is_write_vectored = (\<lambda>w. vectored),
      wr_poll_flush = (\<lambda>w. (Ok (), w)), wr_poll_shutdown = (\<lambda>w. (Ok (), w))\<rparr>"

lemma chunk_writer_appends: "appends (chunk_writer k v) (\<lambda>w. w)"
  by (simp add: appends_def chunk_writer_def min_def)

lemma chunk_writer_willing: "0 < k \<Longrightarrow> willing (chunk_writer k v)"
  by (auto simp: willing_def chunk_writer_def)

text \<open>
  C2. Writing encodes an archive of entries that can be written, which have data, of the length
  their header announces, and a valid header whose first byte is not zero: with any
  underlying object that goes on accepting bytes, at any buffer capacity that does not
  overflow, vectored or not, the calls of the client end, and the object has been sent exactly the layout
  of the entries: headers, data, padding and the two final blocks. What happens to an
  entry without data is said by \<open>empty_entry_stuck\<close>.
\<close>

theorem write_archive_encodes:
  assumes "appends W sent" and "willing W"
    and "0 < capacity" and "capacity * 512 \<le> usize_max" and "list_all (writable E) es"
  shows "\<exists>a a'. archive_with_capacity io capacity = Ok a \<and>
    write_archive E W es a = Some (Ok (), a') \<and>
    sent (into_inner a') = sent io @ archive_bytes es \<and> ar_bytes a' = []"
proof -
  obtain a where a: "archive_with_capacity io capacity = Ok a" "archive_wf a"
      "ar_state a = ExpectingHeader" "ar_io a = io" "ar_bytes a = []"
    using archive_with_capacity_Ok [OF assms(3,4)] by metis
  have "\<And>e. e \<in> set es \<Longrightarrow> writable E e" using assms(5) by (simp add: list_all_iff)
  from write_archive_entries [OF a(2) assms(1,2) this a(3)] obtain a'
    where "write_archive E W es a = Some (Ok (), a')" "ar_bytes a' = []"
      "sent (ar_io a') = written sent a @ archive_bytes es"
    by auto
  with a show ?thesis by (simp add: written_def into_inner_def)
qed

theorem write_archive_encodes_witness:
  "\<exists>a a'. archive_with_capacity [7] 1 = Ok a \<and>
    write_archive (sample_cfg True) (chunk_writer 100 True) [(sample_header 3, [1, 2, 3])] a =
      Some (Ok (), a') \<and>
    into_inner a' = [7] @ archive_bytes [(sample_header 3, [1, 2, 3])] \<and> ar_bytes a' = []"
proof -
  have "list_all (writable (sample_cfg True)) [(sample_header 3, [1, 2, 3])]"
    by (simp add: writable_def)
  with write_archive_encodes [OF chunk_writer_appends [of 100 True] chunk_writer_willing, of 1
      "sample_cfg True" "[(sample_header 3, [1, 2, 3])]" "[7]"]
  show ?thesis by (simp add: usize_max_def usize_bits_def)
qed

text \<open>
  One write to an entry: it accepts between one and all of the bytes; a write that leaves
  data to come moves the counter by what was accepted, and the write of the last byte
  completes the entry, padding included, and makes room for the next header.
\<close>

theorem entry_write_correct:
  assumes "archive_wf a" and "appends W sent" and "willing W"
    and "ar_state a = ReceivingData rem" and "buf \<noteq> []" and "length buf \<le> unat rem"
    and "hdr_entry_size E (en_header en) = Inr n" and "\<not> debug_assertions E \<or> unat n + 511 < 2 ^ 64"
  shows "\<exists>k a'. entry_poll_write E W en buf a = Some (Ok k, a') \<and> 0 < k \<and> k \<le> length buf \<and>
    (if k = unat rem
     then ar_state a' = ExpectingHeader \<and>
       written sent a' = written sent a @ buf @ replicate (padding 512 (unat n)) 0
     else ar_state a' = ReceivingData (rem - word_of_nat k) \<and>
       written sent a' = written sent a @ take k buf)"
  by (rule entry_write [OF assms(1-8)]) blast

theorem entry_write_correct_witness:
  "\<exists>k a'. entry_poll_write (sample_cfg True) (chunk_writer 2 True) \<lparr>en_header = sample_header 3\<rparr>
      [1, 2, 3] \<lparr>ar_buf = buf_new 512, ar_state = ReceivingData 3, ar_io = [5]\<rparr> = Some (Ok k, a') \<and>
    0 < k \<and> k \<le> 3 \<and>
    (if k = 3
     then ar_state a' = ExpectingHeader \<and>
       written (\<lambda>w. w) a' = [5, 1, 2, 3] @ replicate 509 0
     else ar_state a' = ReceivingData (3 - word_of_nat k) \<and>
       written (\<lambda>w. w) a' = [5] @ take k [1, 2, 3])"
proof -
  let ?a = "\<lparr>ar_buf = buf_new 512, ar_state = ReceivingData 3, ar_io = [5] :: bytes\<rparr>"
  have "archive_wf ?a" "written (\<lambda>w. w) ?a = [5]"
    by (simp_all add: written_def)
  with entry_write_correct [of ?a "chunk_writer 2 True" "\<lambda>w. w" 3 "[1, 2, 3]" "sample_cfg True"
      "\<lparr>en_header = sample_header 3\<rparr>" 3] chunk_writer_appends [of 2 True]
      chunk_writer_willing [of 2 True]
  obtain k a' where "entry_poll_write (sample_cfg True) (chunk_writer 2 True)
      \<lparr>en_header = sample_header 3\<rparr> [1, 2, 3] ?a = Some (Ok k, a')" "0 < k" "k \<le> 3"
    "if k = 3 then ar_state a' = ExpectingHeader \<and>
       written (\<lambda>w. w) a' = [5] @ [1, 2, 3] @ replicate (padding 512 3) 0
     else ar_state a' = ReceivingData (3 - word_of_nat k) \<and>
       written (\<lambda>w. w) a' = [5] @ take k [1, 2, 3]"
    by auto
  then show ?thesis
    by (intro exI [of _ k] exI [of _ a']) (simp add: padding_def)
qed

end
