(* ===== verification/Reader.thy ===== *)
theory Reader
  imports Archives
begin

text \<open>
  Reading an archive (\<open>src/read/mod.rs\<close>, \<open>src/read/error.rs\<close>): filling the buffer from
  the underlying object, looking for the next entry, reading or skipping the data of an
  entry, and consuming what was read.
\<close>

section \<open>Errors\<close>

datatype read_error = ReadUnexpectedEof (re_expected: usize) (re_received: usize)

fun read_error_kind :: "read_error \<Rightarrow> error_kind" where
  "read_error_kind (ReadUnexpectedEof expected received) = UnexpectedEof"

fun read_error_display :: "read_error \<Rightarrow> string" where
  "read_error_display (ReadUnexpectedEof expected received) =
     ''expecting more data for entry; expected = '' @ show_nat expected @
     '', received = '' @ show_nat received"

definition read_error_into :: "read_error \<Rightarrow> io_error" where
  "read_error_into e = IoError (read_error_kind e) (read_error_display e)"

text \<open>\<open>IoError::from(ErrorKind::UnexpectedEof)\<close>.\<close>

definition unexpected_eof :: io_error where
  "unexpected_eof = IoError UnexpectedEof ''unexpected end of file''"

section \<open>The underlying reader\<close>

text \<open>
  The I/O object is not part of the repository. Its \<open>poll_read\<close> is a parameter: given the
  state of the object and the room in the destination, it returns the bytes it filled in,
  an error, or \<open>Pending\<close>, with the new state. A \<open>ReadBuf\<close> panics when it is
  overfilled.
\<close>

type_synonym 'r reader = "'r \<Rightarrow> usize \<Rightarrow> bytes outcome \<times> 'r"

definition poll_read_io :: "'r reader \<Rightarrow> usize \<Rightarrow> 'r archive \<Rightarrow> bytes outcome \<times> 'r archive" where
  "poll_read_io read room a =
     (case read (ar_io a) room of
        (Ok bs, io) \<Rightarrow>
          (if length bs \<le> room then
             (Ok bs, a\<lparr>ar_io := io,
                       ar_buf := (ar_buf a)\<lparr>buf_store :=
                         copy_at (buf_store (ar_buf a)) (buf_cap (ar_buf a)) bs\<rparr>\<rparr>)
           else (Panic AssertFailed, a\<lparr>ar_io := io\<rparr>))
      | (r, io) \<Rightarrow> (r, a\<lparr>ar_io := io\<rparr>))"

section \<open>The operations of an archive\<close>

definition poll_fill_buf :: "'r reader \<Rightarrow> 'r archive \<Rightarrow> unit outcome \<times> 'r archive" where
  "poll_fill_buf read a =
     and_then (buffered_bytes (ar_buf a), a) (\<lambda>bs a.
       if bs \<noteq> [] then (Ok (), a)
       else
         and_then (available_bytes_mut (ar_buf a), a) (\<lambda>dst a.
         and_then (poll_read_io read (length dst) a) (\<lambda>filled a.
         and_then
           (if filled = [] then
              bind_outcome (assert_that (dst \<noteq> [])) (\<lambda>_.
                if is_terminal (ar_state a) then Ok () else Err unexpected_eof)
            else Ok (), a) (\<lambda>_ a.
         and_then (buf_commit_available (ar_buf a) (length filled), a) (\<lambda>b a.
         (Ok (), a\<lparr>ar_buf := b\<rparr>))))))"

definition poll_next_state ::
  "cfg \<Rightarrow> 'r reader \<Rightarrow> header option \<Rightarrow> 'r archive \<Rightarrow> (state \<times> usize) outcome \<times> 'r archive" where
  "poll_next_state E read h a =
     and_then (poll_fill_buf read a) (\<lambda>_ a.
     and_then (buffered_bytes (ar_buf a), a) (\<lambda>buf a.
     (state_next E (ar_state a) buf h, a)))"

text \<open>The states \<open>consume\<close> leaves at once, by one more transition on an empty buffer.\<close>

fun settles :: "state \<Rightarrow> bool" where
  "settles (ReceivingHeader rem is_empty) \<longleftrightarrow> rem = 0 \<and> \<not> is_empty"
| "settles ReceivedHeader \<longleftrightarrow> True"
| "settles (ReceivingData rem) \<longleftrightarrow> rem = 0"
| "settles ReceivedData \<longleftrightarrow> True"
| "settles (AligningData rem) \<longleftrightarrow> rem = 0"
| "settles AlignedData \<longleftrightarrow> True"
| "settles (ReceivingEof rem) \<longleftrightarrow> rem = 0"
| "settles _ \<longleftrightarrow> False"

definition settle :: "cfg \<Rightarrow> header option \<Rightarrow> state \<Rightarrow> state outcome" where
  "settle E h s =
     (if settles s then bind_outcome (expect_ok (state_next E s [] h)) (\<lambda>r. Ok (fst r))
      else Ok s)"

definition archive_consume ::
  "cfg \<Rightarrow> usize \<Rightarrow> header option \<Rightarrow> 'r archive \<Rightarrow> unit outcome \<times> 'r archive" where
  "archive_consume E amt h a =
     and_then (buffered (ar_buf a), a) (\<lambda>reg a.
     and_then (rg_len (debug_assertions E) reg, a) (\<lambda>avail a.
     and_then (assert_that (amt \<le> avail), a) (\<lambda>_ a.
     and_then (rg_bytes reg, a) (\<lambda>bs a.
     and_then (slice_to bs amt, a) (\<lambda>data a.
     and_then (expect_ok (take_slices E (ar_state a) (into_buffers [data]) h), a) (\<lambda>(st, pos) a.
     and_then (settle E h st, a) (\<lambda>st a.
     and_then (assert_that (pos = amt), a) (\<lambda>_ a.
     and_then (rg_commit reg amt, a\<lparr>ar_state := st\<rparr>) (\<lambda>reg a.
     and_then (rg_is_empty (debug_assertions E) reg, a\<lparr>ar_buf := put_buffered (ar_buf a) reg\<rparr>)
       (\<lambda>is_empty a.
     (Ok (), if is_empty then a\<lparr>ar_buf := buf_clear (ar_buf a)\<rparr> else a)))))))))))"

section \<open>Filling the buffer and consuming from it\<close>

lemma buffered_bytes_OkD:
  "buffered_bytes b = Ok bs \<Longrightarrow>
    buf_pos b \<le> buf_cap b \<and> buf_cap b \<le> length (buf_store b) \<and> bs = buf_contents b"
  by (auto simp: buffered_bytes_def slice_range_def buf_contents_def split: if_splits)

lemma poll_read_io_state:
  "poll_read_io read room a = (r, a') \<Longrightarrow> ar_state a' = ar_state a"
  by (auto simp: poll_read_io_def split: prod.splits outcome.splits if_splits)

lemma poll_fill_buf_state:
  "poll_fill_buf read a = (r, a') \<Longrightarrow> ar_state a' = ar_state a"
  by (auto simp: poll_fill_buf_def and_then_def split: prod.splits outcome.splits if_splits
      dest!: poll_read_io_state)

text \<open>Filling with nothing is an error, so after a success there is something to read.\<close>

lemma poll_fill_buf_nonempty:
  assumes "poll_fill_buf read a = (Ok (), a')" and "\<not> is_terminal (ar_state a)"
    and "buffered_bytes (ar_buf a') = Ok bs"
  shows "bs \<noteq> []"
proof -
  from assms(1) obtain bs0 where bs0: "buffered_bytes (ar_buf a) = Ok bs0"
    unfolding poll_fill_buf_def by (auto simp: and_then_eq_Ok)
  show ?thesis
  proof (cases "bs0 = []")
    case False
    with assms bs0 show ?thesis by (auto simp: poll_fill_buf_def)
  next
    case True
    with assms(1) bs0 obtain dst filled a1 b
      where "available_bytes_mut (ar_buf a) = Ok dst"
        and read: "poll_read_io read (length dst) a = (Ok filled, a1)"
        and some: "filled \<noteq> [] \<or> is_terminal (ar_state a1)"
        and commit: "buf_commit_available (ar_buf a1) (length filled) = Ok b"
        and a': "a' = a1\<lparr>ar_buf := b\<rparr>"
      unfolding poll_fill_buf_def
      by (auto simp: and_then_eq_Ok bind_outcome_eq_Ok split: if_splits)
    from some poll_read_io_state [OF read] assms(2) have "filled \<noteq> []" by simp
    have cursors: "buf_cap (ar_buf a1) = buf_cap (ar_buf a)" "buf_pos (ar_buf a1) = buf_pos (ar_buf a)"
      using read by (auto simp: poll_read_io_def split: prod.splits outcome.splits if_splits)
    have "buf_pos (ar_buf a) = buf_cap (ar_buf a)"
      using buffered_bytes_OkD [OF bs0] True by (auto simp: buf_contents_def)
    then have "buf_pos b < buf_cap b"
      using commit cursors \<open>filled \<noteq> []\<close>
      by (auto simp: buf_commit_available_def rm_commit_def region_commit_def bind_outcome_eq_Ok
          put_available_def available_def rm_set_position_def expect_some_def checked_add_def
          split: option.splits if_splits)
    then show ?thesis
      using buffered_bytes_OkD [of b bs] assms(3) a' by (auto simp: buf_contents_def)
  qed
qed

lemma rg_bytes_buffered:
  "buffered b = Ok reg \<Longrightarrow> rg_bytes reg = Ok bs \<Longrightarrow> buffered_bytes b = Ok bs"
  by (auto simp: buffered_def rg_bytes_def region_bytes_def buffered_bytes_def bind_outcome_eq_Ok
      slice_range_def)

lemma archive_consume_OkD:
  assumes "archive_consume E amt h a = (Ok (), a')"
  obtains bs st where "buffered_bytes (ar_buf a) = Ok bs" and "amt \<le> length bs"
    and "take_slices E (ar_state a) [take amt bs] h = Ok (st, amt)"
    and "settle E h st = Ok (ar_state a')"
proof -
  from assms obtain reg bs st st' where "buffered (ar_buf a) = Ok reg" "rg_bytes reg = Ok bs"
      "amt \<le> length bs" "take_slices E (ar_state a) [take amt bs] h = Ok (st, amt)"
      "settle E h st = Ok st'" "ar_state a' = st'"
    unfolding archive_consume_def by (auto simp: and_then_eq_Ok split: if_splits)
  then show thesis using that rg_bytes_buffered by blast
qed

text \<open>Consuming exactly what a transition reported makes that transition.\<close>

lemma take_slices_exact:
  assumes "state_next E s buf h = Ok (s', n)"
  shows "take_slices E s [take n buf] h = Ok (s', n)"
  using take_until_halt [OF state_next_take [OF assms order_refl], of slices_stop]
    state_next_le [OF assms]
  by (simp add: take_slices_eq_take_until)

lemma state_next_header_irrelevant:
  "s \<noteq> ReceivedHeader \<Longrightarrow> s \<noteq> ReceivedData \<Longrightarrow> state_next E s buf h = state_next E s buf h'"
  by (cases s) auto

section \<open>Termination of the loops\<close>

text \<open>
  Every iteration of a loop of the reader takes the archive down this rank: it counts what
  is missing of the data, the padding, the header and the second empty block, in the order
  in which they are read.
\<close>

fun read_rank :: "state \<Rightarrow> nat" where
  "read_rank (ReceivingEof rem) = rem"
| "read_rank (ReceivingHeader rem _) = 513 + rem"
| "read_rank ExpectingHeader = 1026"
| "read_rank (AligningData rem) = 1027 + rem"
| "read_rank (ReceivingData rem) = 1540 + unat rem"
| "read_rank _ = 0"

lemma poll_next_state_OkD:
  assumes "poll_next_state E read h a = (Ok (st, amt), a1)"
  obtains buf where "ar_state a1 = ar_state a" and "buffered_bytes (ar_buf a1) = Ok buf"
    and "state_next E (ar_state a) buf h = Ok (st, amt)"
    and "is_terminal (ar_state a) \<or> buf \<noteq> []"
proof -
  from assms obtain buf where fill: "poll_fill_buf read a = (Ok (), a1)"
    and buf: "buffered_bytes (ar_buf a1) = Ok buf"
    and step: "state_next E (ar_state a1) buf h = Ok (st, amt)"
    unfolding poll_next_state_def by (auto simp: and_then_eq_Ok)
  note state = poll_fill_buf_state [OF fill]
  have "is_terminal (ar_state a) \<or> buf \<noteq> []"
    using poll_fill_buf_nonempty [OF fill _ buf] by blast
  with state buf step show thesis by (intro that) simp_all
qed

lemma consume_reported:
  assumes "poll_next_state E read h a = (Ok (st, amt), a1)"
    and "archive_consume E amt h' a1 = (Ok (), a2)"
    and "h = h' \<or> ar_state a \<noteq> ReceivedHeader \<and> ar_state a \<noteq> ReceivedData"
  shows "settle E h' st = Ok (ar_state a2)"
proof -
  obtain buf where buf: "ar_state a1 = ar_state a" "buffered_bytes (ar_buf a1) = Ok buf"
      "state_next E (ar_state a) buf h = Ok (st, amt)"
    using poll_next_state_OkD [OF assms(1)] .
  obtain st' where "take_slices E (ar_state a1) [take amt buf] h' = Ok (st', amt)"
      "settle E h' st' = Ok (ar_state a2)"
    using archive_consume_OkD [OF assms(2)] buf(2) by (metis outcome.inject(1))
  moreover have "state_next E (ar_state a) buf h' = Ok (st, amt)"
    using buf(3) assms(3) state_next_header_irrelevant [of "ar_state a" E buf h h'] by auto
  ultimately show ?thesis
    using take_slices_exact [of E "ar_state a" buf h' st amt] buf(1) by simp
qed

lemma state_next_rank:
  assumes "state_next E s buf None = Ok (st, n)" and "is_terminal s \<or> buf \<noteq> []"
    and "settle E None st = Ok s'"
    and "st \<noteq> ReceivedHeader" and "st \<noteq> ReceivedEof" and "st \<noteq> ExpectingHeader"
    and "st \<noteq> ReceivedData" and "\<forall>rem. st \<noteq> ReceivingData rem"
  shows "read_rank s' < read_rank s"
  using assms
  by (cases s)
    (auto simp: Let_def read_run_def advance_def entry_size_of_def next_receiving_data_def
      settle_def min_def split: if_splits)

lemma next_entry_progress:
  assumes "poll_next_state E read None a = (Ok (st, amt), a1)"
    and "archive_consume E amt None a1 = (Ok (), a2)"
    and "st \<noteq> ReceivedHeader" and "st \<noteq> ReceivedEof" and "st \<noteq> ExpectingHeader"
    and "st \<noteq> ReceivedData" and "\<forall>rem. st \<noteq> ReceivingData rem"
  shows "read_rank (ar_state a2) < read_rank (ar_state a)"
  using poll_next_state_OkD [OF assms(1)] consume_reported [OF assms(1,2)] state_next_rank assms(3-)
  by metis

section \<open>Looking for the next entry\<close>

function next_entry_loop ::
  "cfg \<Rightarrow> 'r reader \<Rightarrow> 'r archive \<Rightarrow> entry option outcome \<times> 'r archive" where
  "next_entry_loop E read a =
     and_then (poll_next_state E read None a) (\<lambda>r a. case r of (st, amt) \<Rightarrow> case st of
         ReceivedHeader \<Rightarrow>
           and_then (buffered_bytes (ar_buf a), a) (\<lambda>buf a.
           and_then (slice_to buf BLOCK_SIZE, a) (\<lambda>block a.
           and_then (from_bytes block, a) (\<lambda>block a.
           and_then (as_header E block, a) (\<lambda>header a.
           and_then (archive_consume E amt (Some header) a) (\<lambda>_ a.
           and_then (entry_new E header, a) (\<lambda>entry a.
           (Ok (Some entry), a)))))))
       | ReceivedEof \<Rightarrow> and_then (archive_consume E amt None a) (\<lambda>_ a. (Ok None, a))
       | ReceivingHeader _ _ \<Rightarrow>
           and_then (archive_consume E amt None a) (\<lambda>_ a. next_entry_loop E read a)
       | ReceivingEof _ \<Rightarrow>
           and_then (archive_consume E amt None a) (\<lambda>_ a. next_entry_loop E read a)
       | AligningData _ \<Rightarrow>
           and_then (archive_consume E amt None a) (\<lambda>_ a. next_entry_loop E read a)
       | AlignedData \<Rightarrow>
           and_then (archive_consume E amt None a) (\<lambda>_ a. next_entry_loop E read a)
       | _ \<Rightarrow> (Panic ExplicitPanic, a))"
  by pat_completeness auto
termination
  by (relation "measure (\<lambda>(E, read, a). read_rank (ar_state a))")
    (auto intro: next_entry_progress)

declare next_entry_loop.simps [simp del]

definition poll_next_entry ::
  "cfg \<Rightarrow> 'r reader \<Rightarrow> 'r archive \<Rightarrow> entry option outcome \<times> 'r archive" where
  "poll_next_entry E read a =
     (if is_terminal (ar_state a) then (Ok None, a) else next_entry_loop E read a)"

section \<open>Reading and skipping the data of an entry\<close>

lemma take_slices_no_header:
  "s = ReceivedHeader \<or> s = ReceivedData \<Longrightarrow> take_slices E s slices None = Panic AssertFailed"
  by (subst take_slices_eq_take_until, subst take_until_unfold) (auto simp: entry_size_of_def)

lemma consume_without_header:
  assumes "archive_consume E amt None a = (Ok (), a')"
  shows "ar_state a \<noteq> ReceivedHeader" and "ar_state a \<noteq> ReceivedData"
proof -
  obtain bs st where "take_slices E (ar_state a) [take amt bs] None = Ok (st, amt)"
    using archive_consume_OkD [OF assms] by metis
  then show "ar_state a \<noteq> ReceivedHeader" and "ar_state a \<noteq> ReceivedData"
    using take_slices_no_header [of "ar_state a" E "[take amt bs]"] by auto
qed

lemma read_entry_progress:
  assumes "poll_next_state E read (Some hdr) a = (Ok (AligningData rem, amt), a1)"
    and "archive_consume E amt None a1 = (Ok (), a2)"
  shows "read_rank (ar_state a2) < read_rank (ar_state a)"
proof -
  obtain buf where buf: "ar_state a1 = ar_state a" "buffered_bytes (ar_buf a1) = Ok buf"
      "state_next E (ar_state a) buf (Some hdr) = Ok (AligningData rem, amt)"
      "is_terminal (ar_state a) \<or> buf \<noteq> []"
    using poll_next_state_OkD [OF assms(1)] .
  have not_marker: "ar_state a \<noteq> ReceivedHeader" "ar_state a \<noteq> ReceivedData"
    using consume_without_header [OF assms(2)] buf(1) by simp_all
  then have "settle E None (AligningData rem) = Ok (ar_state a2)"
    using consume_reported [OF assms] by blast
  moreover have "state_next E (ar_state a) buf None = Ok (AligningData rem, amt)"
    using buf(3) state_next_header_irrelevant [OF not_marker, of E buf "Some hdr" None] by simp
  ultimately show ?thesis
    using buf(4) by (intro state_next_rank) auto
qed

function poll_read_entry ::
  "cfg \<Rightarrow> 'r reader \<Rightarrow> header \<Rightarrow> 'r archive \<Rightarrow> bytes outcome \<times> 'r archive" where
  "poll_read_entry E read header a =
     and_then (poll_next_state E read (Some header) a) (\<lambda>r a. case r of (st, amt) \<Rightarrow> case st of
         ReceivingData _ \<Rightarrow>
           and_then (buffered_bytes (ar_buf a), a) (\<lambda>buf a. (slice_to buf amt, a))
       | ReceivedData \<Rightarrow>
           and_then (buffered_bytes (ar_buf a), a) (\<lambda>buf a. (slice_to buf amt, a))
       | AligningData _ \<Rightarrow>
           and_then (archive_consume E amt None a) (\<lambda>_ a. poll_read_entry E read header a)
       | AlignedData \<Rightarrow>
           and_then (archive_consume E amt (Some header) a) (\<lambda>_ a. (Ok [], a))
       | _ \<Rightarrow> (Panic UnreachableCode, a))"
  by pat_completeness auto
termination
  by (relation "measure (\<lambda>(E, read, header, a). read_rank (ar_state a))")
    (auto intro: read_entry_progress)

declare poll_read_entry.simps [simp del]

text \<open>Outside the data of an entry, reading returns the empty slice or fails.\<close>

lemma poll_read_entry_outside:
  "poll_read_entry E read header a = (Ok bs, a') \<Longrightarrow> \<forall>rem. ar_state a \<noteq> ReceivingData rem \<Longrightarrow> bs = []"
proof (induction E read header a rule: poll_read_entry.induct)
  case (1 E read header a)
  from "1.prems"(1) obtain st amt a1
    where next_eq: "poll_next_state E read (Some header) a = (Ok (st, amt), a1)"
    by (subst (asm) poll_read_entry.simps) (auto simp: and_then_eq_Ok)
  obtain buf where buf: "ar_state a1 = ar_state a" "buffered_bytes (ar_buf a1) = Ok buf"
      "state_next E (ar_state a) buf (Some header) = Ok (st, amt)"
    using poll_next_state_OkD [OF next_eq] .
  show ?case
  proof (cases "\<exists>rem. st = AligningData rem")
    case True
    then obtain rem where st: "st = AligningData rem" ..
    with "1.prems"(1) next_eq obtain a2 where cons: "archive_consume E amt None a1 = (Ok (), a2)"
      and rest: "poll_read_entry E read header a2 = (Ok bs, a')"
      by (subst (asm) poll_read_entry.simps) (auto simp: and_then_eq_Ok)
    have "settle E None st = Ok (ar_state a2)"
      using consume_reported [OF next_eq cons] consume_without_header [OF cons] buf(1) by simp
    then have "\<forall>rem. ar_state a2 \<noteq> ReceivingData rem"
      using st by (auto simp: settle_def split: if_splits)
    then show ?thesis
      by (rule "1.IH" [OF next_eq refl st cons rest])
  next
    case False
    have "st = ReceivingData rem \<Longrightarrow> amt = 0" and "st \<noteq> ReceivedData" for rem
      using buf(3) "1.prems"(2)
      by (cases "ar_state a"; auto simp: Let_def read_run_def bind_outcome_eq_Ok split: if_splits)+
    with False "1.prems"(1) next_eq buf(2) show ?thesis
      by (auto simp: poll_read_entry.simps [of E read header a] and_then_eq_Ok split: state.splits)
  qed
qed

text \<open>Within the data, it returns a non-empty run of buffered bytes and consumes nothing.\<close>

lemma poll_read_entry_inside:
  assumes "poll_read_entry E read header a = (Ok bs, a')" and "ar_state a = ReceivingData rem"
  obtains buf where "ar_state a' = ReceivingData rem" and "buffered_bytes (ar_buf a') = Ok buf"
    and "bs = take (unat rem) buf" and "buf \<noteq> []" and "poll_fill_buf read a = (Ok (), a')"
proof -
  from assms(1) obtain st amt a1
    where next_eq: "poll_next_state E read (Some header) a = (Ok (st, amt), a1)"
    by (subst (asm) poll_read_entry.simps) (auto simp: and_then_eq_Ok)
  obtain buf where buf: "ar_state a1 = ar_state a" "buffered_bytes (ar_buf a1) = Ok buf"
      "state_next E (ar_state a) buf (Some header) = Ok (st, amt)"
      "is_terminal (ar_state a) \<or> buf \<noteq> []"
    using poll_next_state_OkD [OF next_eq] .
  have "st = ReceivedData \<or> (\<exists>rem. st = ReceivingData rem)" and "amt = min (unat rem) (length buf)"
    using buf(3) assms(2) by (auto simp: next_receiving_data_def advance_def Let_def split: if_splits)
  with assms(1) next_eq buf have "a' = a1" and "bs = take (unat rem) buf"
    by (auto simp: poll_read_entry.simps [of E read header a] slice_in_range min_def split: if_splits)
  moreover have "poll_fill_buf read a = (Ok (), a1)"
    using next_eq by (auto simp: poll_next_state_def and_then_eq_Ok)
  ultimately show thesis using that buf assms(2) by auto
qed

text \<open>Consuming what was read leaves the archive in the data or before the padding.\<close>

lemma skip_entry_state:
  assumes "poll_read_entry E read header a = (Ok bs, a1)" and "bs \<noteq> []"
    and "archive_consume E (length bs) (Some header) a1 = (Ok (), a2)"
  obtains rem p where "ar_state a = ReceivingData rem" and "ar_state a2 = AligningData p" and "p < 512"
  | rem rem' where "ar_state a = ReceivingData rem" and "ar_state a2 = ReceivingData rem'"
    and "unat rem' < unat rem"
proof -
  obtain rem where rem: "ar_state a = ReceivingData rem"
    using poll_read_entry_outside [OF assms(1)] assms(2) by blast
  obtain buf where buf: "ar_state a1 = ReceivingData rem" "buffered_bytes (ar_buf a1) = Ok buf"
      "bs = take (unat rem) buf"
    using poll_read_entry_inside [OF assms(1) rem] by metis
  define n where "n = length bs"
  then have n: "n = min (unat rem) (length buf)" "0 < n"
    using buf(3) assms(2) by auto
  obtain st where st: "take_slices E (ReceivingData rem) [take n buf] (Some header) = Ok (st, n)"
      "settle E (Some header) st = Ok (ar_state a2)"
    using archive_consume_OkD [OF assms(3)] buf(1,2) n_def by (metis outcome.inject(1))
  have "state_next E (ReceivingData rem) buf (Some header) =
      Ok (if rem - word_of_nat n = 0 then ReceivedData else ReceivingData (rem - word_of_nat n), n)"
    using n(1) by (simp add: next_receiving_data_def advance_def Let_def)
  from take_slices_exact [OF this] st(1)
  have st_eq: "st = (if rem - word_of_nat n = 0 then ReceivedData
      else ReceivingData (rem - word_of_nat n))"
    by simp
  show thesis
  proof (cases "rem - word_of_nat n = 0")
    case True
    with st(2) st_eq obtain p where p: "state_next E ReceivedData [] (Some header) = Ok (AligningData p, 0)"
      and "ar_state a2 = AligningData p"
      by (auto simp: settle_def bind_outcome_eq_Ok)
    moreover from state_next_wf [OF _ p] have "p < 512" by simp
    ultimately show thesis using rem that(1) by blast
  next
    case False
    then have "ar_state a2 = ReceivingData (rem - word_of_nat n)"
      using st(2) st_eq by (simp add: settle_def)
    moreover have "unat (rem - word_of_nat n) < unat rem"
      using unat_minus_of_nat [of n rem] n by simp
    ultimately show thesis using rem that(2) by blast
  qed
qed

lemma skip_entry_progress:
  assumes "poll_read_entry E read header a = (Ok bs, a1)" and "bs \<noteq> []"
    and "archive_consume E (length bs) (Some header) a1 = (Ok (), a2)"
  shows "read_rank (ar_state a2) < read_rank (ar_state a)"
  by (rule skip_entry_state [OF assms]) simp_all

function poll_skip_entry ::
  "cfg \<Rightarrow> 'r reader \<Rightarrow> header \<Rightarrow> 'r archive \<Rightarrow> unit outcome \<times> 'r archive" where
  "poll_skip_entry E read header a =
     and_then (poll_read_entry E read header a) (\<lambda>buf a.
       let amt = length buf in
       if amt = 0 then (assert_that (ar_state a = ExpectingHeader), a)
       else and_then (archive_consume E amt (Some header) a) (\<lambda>_ a.
         poll_skip_entry E read header a))"
  by pat_completeness auto
termination
  by (relation "measure (\<lambda>(E, read, header, a). read_rank (ar_state a))")
    (auto intro: skip_entry_progress)

declare poll_skip_entry.simps [simp del]

section \<open>Handles and futures\<close>

text \<open>
  \<open>AsyncBufRead\<close> and \<open>AsyncRead\<close> of an entry: \<open>poll_read\<close> is given the room in the
  caller's \<open>ReadBuf\<close> and returns the bytes it put there.
\<close>

definition entry_poll_fill_buf ::
  "cfg \<Rightarrow> 'r reader \<Rightarrow> entry \<Rightarrow> 'r archive \<Rightarrow> bytes outcome \<times> 'r archive" where
  "entry_poll_fill_buf E read en a = poll_read_entry E read (en_header en) a"

definition entry_consume ::
  "cfg \<Rightarrow> entry \<Rightarrow> usize \<Rightarrow> 'r archive \<Rightarrow> unit outcome \<times> 'r archive" where
  "entry_consume E en amt a = archive_consume E amt (Some (en_header en)) a"

definition entry_poll_read ::
  "cfg \<Rightarrow> 'r reader \<Rightarrow> entry \<Rightarrow> usize \<Rightarrow> 'r archive \<Rightarrow> bytes outcome \<times> 'r archive" where
  "entry_poll_read E read en remaining a =
     (if remaining = 0 then (Ok [], a)
      else
        and_then (entry_poll_fill_buf E read en a) (\<lambda>bytes a.
          let len = min (length bytes) remaining in
          and_then (slice_to bytes len, a) (\<lambda>put a.
          and_then (entry_consume E en len a) (\<lambda>_ a. (Ok put, a)))))"

definition entry_poll_skip ::
  "cfg \<Rightarrow> 'r reader \<Rightarrow> entry \<Rightarrow> 'r archive \<Rightarrow> unit outcome \<times> 'r archive" where
  "entry_poll_skip E read en a = poll_skip_entry E read (en_header en) a"

text \<open>The future \<open>NextEntry\<close> and the stream \<open>Entries\<close>, whose items are results.\<close>

definition next_entry_poll ::
  "cfg \<Rightarrow> 'r reader \<Rightarrow> 'r archive \<Rightarrow> entry option outcome \<times> 'r archive" where
  "next_entry_poll E read a =
     and_then (poll_next_entry E read a) (\<lambda>e a.
       case e of Some entry \<Rightarrow> (Ok (Some entry), a) | None \<Rightarrow> (Ok None, a))"

definition entries_poll_next ::
  "cfg \<Rightarrow> 'r reader \<Rightarrow> 'r archive \<Rightarrow> (io_error + entry) option outcome \<times> 'r archive" where
  "entries_poll_next E read a =
     (case poll_next_entry E read a of
        (Ok (Some entry), a) \<Rightarrow> (Ok (Some (Inr entry)), a)
      | (Ok None, a) \<Rightarrow> (Ok None, a)
      | (Err e, a) \<Rightarrow> (Ok (Some (Inl e)), a)
      | (Pending, a) \<Rightarrow> (Pending, a)
      | (Panic p, a) \<Rightarrow> (Panic p, a))"

end
