(* ===== verification/Reading.thy ===== *)
theory Reading
  imports Reader Format
begin

text \<open>
  Correctness of reading: how each operation of \<open>Reader\<close> moves through the byte stream
  behind an archive, under the documented behaviour of the underlying object.
\<close>

section \<open>The stream behind an archive\<close>

text \<open>
  A sequential source holds the bytes still to be read, \<open>rest\<close>. A read with room in the
  destination takes some of them from the front, and none only at the end. It is a block
  source when it also hands out whole blocks, up to the end of the stream, whenever it is asked for
  whole blocks.
\<close>

definition sequential :: "'r reader \<Rightarrow> ('r \<Rightarrow> bytes) \<Rightarrow> bool" where
  "sequential read rest \<longleftrightarrow>
     (\<forall>r room. 0 < room \<longrightarrow>
       (\<exists>bs r'. read r room = (Ok bs, r') \<and> rest r = bs @ rest r' \<and> length bs \<le> room \<and>
         (bs = [] \<longrightarrow> rest r = [])))"

definition block_source :: "'r reader \<Rightarrow> ('r \<Rightarrow> bytes) \<Rightarrow> bool" where
  "block_source read rest \<longleftrightarrow> sequential read rest \<and>
     (\<forall>r room bs r'. read r room = (Ok bs, r') \<longrightarrow> 512 dvd room \<longrightarrow>
       512 dvd length bs \<or> rest r' = [])"

text \<open>
  The source is at a block boundary of a stream that lacks \<open>lack\<close> bytes of being whole
  blocks, or it is at the end.
\<close>

definition aligned :: "usize \<Rightarrow> ('r \<Rightarrow> bytes) \<Rightarrow> 'r \<Rightarrow> bool" where
  "aligned lack rest io \<longleftrightarrow> rest io = [] \<or> 512 dvd length (rest io) + lack"

text \<open>\<open>io::Cursor\<close> over a byte slice: a read copies as much as fits.\<close>

definition cursor_read :: "bytes reader" where
  "cursor_read r room = (Ok (take room r), drop room r)"

lemma cursor_block_source: "block_source cursor_read (\<lambda>r. r)"
proof -
  have "512 dvd length (take room r) \<or> drop room r = []" if "512 dvd room" for room and r :: bytes
    using that by (cases "length r \<le> room") simp_all
  then show ?thesis
    by (auto simp: block_source_def sequential_def cursor_read_def)
qed

text \<open>The unread bytes: what is buffered, then what the source holds.\<close>

definition unread :: "('r \<Rightarrow> bytes) \<Rightarrow> 'r archive \<Rightarrow> bytes" where
  "unread rest a = ar_bytes a @ rest (ar_io a)"

section \<open>Filling the buffer\<close>

text \<open>An archive that has the same position and buffer size, after reading more.\<close>

lemma archive_wfD:
  assumes "archive_wf a"
  shows "buf_wf (ar_buf a)" and "512 dvd ar_capacity a" and "0 < ar_capacity a"
    and "ar_bytes a = [] \<Longrightarrow> buf_room (ar_buf a) = ar_capacity a" and "state_wf (ar_state a)"
  using assms by (simp_all add: archive_wf_def)

lemma poll_fill_buf_buffered:
  "archive_wf a \<Longrightarrow> ar_bytes a \<noteq> [] \<Longrightarrow> poll_fill_buf read a = (Ok (), a)"
  by (simp add: poll_fill_buf_def buffered_bytes_eq archive_wfD)

lemma buffer_refilled:
  assumes "buf_wf b" and "buf_contents b = []" and "length bs \<le> buf_room b"
  defines "b' \<equiv> b\<lparr>buf_store := copy_at (buf_store b) (buf_cap b) bs\<rparr>"
  shows "\<exists>b''. buf_commit_available b' (length bs) = Ok b'' \<and> buf_contents b'' = bs \<and>
    buf_capacity b'' = buf_capacity b \<and> buf_wf b'' \<and> buf_room b'' = buf_room b - length bs"
proof -
  have cap: "buf_cap b + length bs \<le> length (buf_store b)" "buf_pos b = buf_cap b"
    using assms by (auto simp: buf_wf_def buf_room_def buf_contents_def)
  then have len: "length (buf_store b') = length (buf_store b)"
    by (simp add: b'_def)
  have "rm_commit (available b') (length bs) =
      Ok (rm_set_position (available b') (buf_cap b + length bs))"
    unfolding rm_commit_def
    by (subst rm.commit_eq) (use assms cap len in \<open>auto simp: available_def b'_def buf_wf_def\<close>)
  then have "buf_commit_available b' (length bs) = Ok (b'\<lparr>buf_cap := buf_cap b + length bs\<rparr>)"
    by (simp add: buf_commit_available_def put_available_def rm_set_position_def available_def b'_def)
  moreover have "take (buf_cap b + length bs) (buf_store b') = take (buf_cap b) (buf_store b) @ bs"
    using take_copy_at [OF cap(1)] by (simp add: b'_def)
  ultimately show ?thesis
    using assms(1) cap len
    by (auto simp: buf_contents_def buf_capacity_def buf_wf_def buf_room_def b'_def)
qed

text \<open>What a refill of the empty buffer does on each answer of the source.\<close>

lemma poll_fill_buf_empty:
  assumes wf: "archive_wf a" and empty: "ar_bytes a = []"
    and io: "read (ar_io a) (ar_capacity a) = (res, io')"
  shows "case res of
      Ok bs \<Rightarrow> length bs \<le> ar_capacity a \<longrightarrow> bs \<noteq> [] \<longrightarrow>
        (\<exists>a'. poll_fill_buf read a = (Ok (), a') \<and> ar_bytes a' = bs \<and> ar_io a' = io' \<and>
          ar_state a' = ar_state a \<and> ar_capacity a' = ar_capacity a \<and> archive_wf a')
    | Err e \<Rightarrow> poll_fill_buf read a = (Err e, a\<lparr>ar_io := io'\<rparr>)
    | Pending \<Rightarrow> poll_fill_buf read a = (Pending, a\<lparr>ar_io := io'\<rparr>)
    | Panic p \<Rightarrow> poll_fill_buf read a = (Panic p, a\<lparr>ar_io := io'\<rparr>)"
proof -
  note facts = archive_wfD [OF wf]
  obtain dst where dst: "available_bytes_mut (ar_buf a) = Ok dst" "length dst = ar_capacity a"
    using available_bytes_mut_eq [OF facts(1)] facts(4) [OF empty] by auto
  note start = poll_fill_buf_def [of read a] buffered_bytes_eq [OF facts(1)] empty dst
  show ?thesis
  proof (cases res)
    case (Ok bs)
    show ?thesis
    proof (simp add: Ok, intro impI)
      assume bs: "length bs \<le> ar_capacity a" "bs \<noteq> []"
      obtain b where b: "buf_commit_available
            ((ar_buf a)\<lparr>buf_store := copy_at (buf_store (ar_buf a)) (buf_cap (ar_buf a)) bs\<rparr>)
            (length bs) = Ok b"
          "buf_contents b = bs" "buf_capacity b = ar_capacity a" "buf_wf b"
        using buffer_refilled [OF facts(1) empty, of bs] facts(4) [OF empty] bs(1) by auto
      with bs show "\<exists>a'. poll_fill_buf read a = (Ok (), a') \<and> ar_bytes a' = bs \<and> ar_io a' = io' \<and>
          ar_state a' = ar_state a \<and> ar_capacity a' = ar_capacity a \<and> archive_wf a'"
        using wf by (simp add: start poll_read_io_def io Ok archive_wf_def)
    qed
  qed (simp_all add: start poll_read_io_def io)
qed

lemma poll_fill_buf_eof:
  assumes wf: "archive_wf a" and empty: "ar_bytes a = []"
    and io: "read (ar_io a) (ar_capacity a) = (Ok [], io')"
    and "\<not> is_terminal (ar_state a)"
  shows "\<exists>a'. poll_fill_buf read a = (Err unexpected_eof, a') \<and> ar_io a' = io' \<and>
    ar_state a' = ar_state a \<and> ar_buf a' = ar_buf a"
proof -
  note facts = archive_wfD [OF wf]
  obtain dst where dst: "available_bytes_mut (ar_buf a) = Ok dst" "length dst = ar_capacity a"
    using available_bytes_mut_eq [OF facts(1)] facts(4) [OF empty] by auto
  then have "dst \<noteq> []" using facts(3) by auto
  with assms dst show ?thesis
    by (simp add: poll_fill_buf_def buffered_bytes_eq [OF facts(1)] poll_read_io_def)
qed

text \<open>The same over the unread bytes of a sequential source.\<close>

lemma fill_some:
  assumes wf: "archive_wf a" and src: "sequential read rest" and some: "unread rest a \<noteq> []"
  obtains a' where "poll_fill_buf read a = (Ok (), a')" and "archive_wf a'"
    and "ar_state a' = ar_state a" and "unread rest a' = unread rest a" and "ar_bytes a' \<noteq> []"
    and "ar_capacity a' = ar_capacity a"
    and "block_source read rest \<Longrightarrow> aligned lack rest (ar_io a) \<Longrightarrow>
      aligned lack rest (ar_io a')"
proof (cases "ar_bytes a = []")
  case False
  then show thesis using that [of a] poll_fill_buf_buffered [OF wf] wf by simp
next
  case True
  obtain bs io' where io: "read (ar_io a) (ar_capacity a) = (Ok bs, io')"
      "rest (ar_io a) = bs @ rest io'" "length bs \<le> ar_capacity a" "bs = [] \<longrightarrow> rest (ar_io a) = []"
    using src archive_wfD(3) [OF wf] unfolding sequential_def by blast
  then have "bs \<noteq> []" using some True by (auto simp: unread_def)
  then obtain a' where "poll_fill_buf read a = (Ok (), a')" "ar_bytes a' = bs" "ar_io a' = io'"
      "ar_state a' = ar_state a" "ar_capacity a' = ar_capacity a" "archive_wf a'"
    using poll_fill_buf_empty [of a read "Ok bs" io', OF wf True io(1)] io(3) by auto
  moreover have "aligned lack rest io'" if "block_source read rest" "aligned lack rest (ar_io a)"
  proof -
    have "512 dvd length bs \<or> rest io' = []"
      using that(1) io(1) archive_wfD(2) [OF wf] unfolding block_source_def by blast
    moreover have "rest (ar_io a) \<noteq> []" using io(2) \<open>bs \<noteq> []\<close> by simp
    ultimately show ?thesis
      using that(2) io(2) by (auto simp: aligned_def add.assoc dvd_add_right_iff)
  qed
  ultimately show thesis
    using that [of a'] io(2) True \<open>bs \<noteq> []\<close> by (simp add: unread_def)
qed

lemma fill_none:
  assumes wf: "archive_wf a" and src: "sequential read rest" and none: "unread rest a = []"
    and "\<not> is_terminal (ar_state a)"
  obtains a' where "poll_fill_buf read a = (Err unexpected_eof, a')"
proof -
  obtain bs io' where io: "read (ar_io a) (ar_capacity a) = (Ok bs, io')"
      "rest (ar_io a) = bs @ rest io'"
    using src archive_wfD(3) [OF wf] unfolding sequential_def by blast
  with none have "bs = []" "ar_bytes a = []" by (auto simp: unread_def)
  then show thesis
    using poll_fill_buf_eof [of a read io'] wf assms(4) io(1) that by auto
qed

section \<open>Consuming\<close>

lemma consume_spec:
  assumes wf: "archive_wf a" and amt: "amt \<le> length (ar_bytes a)"
    and take: "take_slices E (ar_state a) [take amt (ar_bytes a)] h = Ok (st, amt)"
    and settle: "settle E h st = Ok st'"
  obtains a' where "archive_consume E amt h a = (Ok (), a')" and "archive_wf a'"
    and "ar_state a' = st'" and "ar_bytes a' = drop amt (ar_bytes a)" and "ar_io a' = ar_io a"
    and "ar_capacity a' = ar_capacity a"
proof -
  note facts = archive_wfD [OF wf]
  let ?b = "ar_buf a"
  let ?reg = "\<lparr>rg_buf = take (buf_cap ?b) (buf_store ?b), rg_pos = buf_pos ?b\<rparr>"
  let ?reg' = "rg_set_position ?reg (buf_pos ?b + amt)"
  let ?b' = "put_buffered ?b ?reg'"
  have cursors: "buf_pos ?b \<le> buf_cap ?b" "buf_cap ?b \<le> length (buf_store ?b)"
      "length (buf_store ?b) \<le> usize_max"
    using facts(1) by (simp_all add: buf_wf_def)
  have len: "length (ar_bytes a) = buf_cap ?b - buf_pos ?b"
    using cursors by (simp add: buf_contents_def)
  have steps: "rg_len checks ?reg = Ok (length (ar_bytes a))" "rg_bytes ?reg = Ok (ar_bytes a)"
      "rg_commit ?reg amt = Ok ?reg'"
      "rg_is_empty checks ?reg' = Ok (length (ar_bytes a) = amt)" for checks
    using cursors amt len rg.commit_eq [of ?reg amt]
    by (auto simp: rg_len_def rg_is_empty_def rg_bytes_def rg_commit_def rg.remaining_eq rg.bytes_eq
        buf_contents_def)
  have wf_st': "state_wf st'"
    using take_slices_wf [OF take facts(5)] settle
    by (auto simp: settle_def bind_outcome_eq_Ok dest: state_next_wf split: if_splits)
  define b where "b = (if length (ar_bytes a) = amt then buf_clear ?b' else ?b')"
  define a' where "a' = a\<lparr>ar_state := st', ar_buf := b\<rparr>"
  have "archive_consume E amt h a = (Ok (), a')"
    using amt take settle
    by (simp add: archive_consume_def buffered_eq [OF facts(1)] steps slice_in_range a'_def b_def)
  moreover have pop: "buf_contents ?b' = drop amt (ar_bytes a)" "buf_room ?b' = buf_room ?b"
      "buf_capacity ?b' = buf_capacity ?b" "buf_wf ?b'"
    using bq.pop_spec [OF facts(1) amt] steps(3) buffered_eq [OF facts(1)]
    by (simp_all add: buf_commit_buffered_def)
  then have "buf_contents b = drop amt (ar_bytes a)" "buf_capacity b = buf_capacity ?b" "buf_wf b"
    using bq.clear_spec [of ?b'] by (simp_all add: b_def)
  moreover have "buf_contents b = [] \<Longrightarrow> buf_room b = buf_capacity b"
    using bq.clear_spec [of ?b'] pop amt by (auto simp: b_def split: if_splits)
  ultimately show thesis
    using that [of a'] facts wf_st' by (simp add: a'_def archive_wf_def)
qed

text \<open>Consuming what \<open>next\<close> reported on the buffered bytes.\<close>

lemma consume_next:
  assumes wf: "archive_wf a"
    and step: "state_next E (ar_state a) (ar_bytes a) h = Ok (st, amt)"
    and settle: "settle E h st = Ok st'"
  obtains a' where "archive_consume E amt h a = (Ok (), a')" and "archive_wf a'"
    and "ar_state a' = st'" and "ar_bytes a' = drop amt (ar_bytes a)" and "ar_io a' = ar_io a"
    and "ar_capacity a' = ar_capacity a"
  using consume_spec [OF wf state_next_le [OF step] take_slices_exact [OF step] settle] .

section \<open>Finding the next entry\<close>

lemma next_state_some:
  assumes "archive_wf a" and "sequential read rest" and "unread rest a \<noteq> []"
  obtains a' where "poll_next_state E read h a = (state_next E (ar_state a) (ar_bytes a') h, a')"
    and "archive_wf a'" and "ar_state a' = ar_state a" and "unread rest a' = unread rest a"
    and "ar_bytes a' \<noteq> []" and "ar_capacity a' = ar_capacity a"
    and "block_source read rest \<Longrightarrow> aligned lack rest (ar_io a) \<Longrightarrow>
      aligned lack rest (ar_io a')"
proof (rule fill_some [OF assms])
  fix a'
  assume a': "poll_fill_buf read a = (Ok (), a')" "archive_wf a'"
      "ar_state a' = ar_state a" "unread rest a' = unread rest a" "ar_bytes a' \<noteq> []"
      "ar_capacity a' = ar_capacity a"
      "block_source read rest \<Longrightarrow> aligned lack rest (ar_io a) \<Longrightarrow>
        aligned lack rest (ar_io a')"
  have "poll_next_state E read h a = (state_next E (ar_state a) (ar_bytes a') h, a')"
    using a' by (simp add: poll_next_state_def buffered_bytes_eq archive_wfD)
  from this a'(2-) show thesis by (rule that)
qed

text \<open>One iteration that consumes and goes on.\<close>

lemma next_entry_continue:
  assumes "poll_next_state E read None a = (Ok (st, amt), a1)"
    and "archive_consume E amt None a1 = (Ok (), a2)"
    and "(\<exists>rem e. st = ReceivingHeader rem e) \<or> (\<exists>rem. st = ReceivingEof rem) \<or>
      (\<exists>rem. st = AligningData rem) \<or> st = AlignedData"
  shows "next_entry_loop E read a = next_entry_loop E read a2"
  using assms by (auto simp: next_entry_loop.simps [of E read a])

text \<open>
  A block that is not empty is found whole in the buffer: the buffer holds whole blocks, or
  all there is.
\<close>

lemma next_state_header:
  assumes wf: "archive_wf a" and src: "block_source read rest"
    and aligned: "aligned lack rest (ar_io a)" "512 dvd length tail + lack"
    and st: "ar_state a = ReceivingHeader 512 True"
    and unread: "unread rest a = hdr @ tail" and hdr: "length hdr = 512" "\<not> all_zero hdr"
  obtains a1 where "poll_next_state E read h a = (Ok (ReceivedHeader, 512), a1)"
    and "archive_wf a1" and "ar_state a1 = ReceivingHeader 512 True"
    and "512 \<le> length (ar_bytes a1)" and "take 512 (ar_bytes a1) = hdr"
    and "drop 512 (ar_bytes a1) @ rest (ar_io a1) = tail"
    and "aligned lack rest (ar_io a1)" and "ar_capacity a1 = ar_capacity a"
proof -
  have seq: "sequential read rest" using src by (simp add: block_source_def)
  have "unread rest a \<noteq> []" using unread hdr(1) by auto
  from next_state_some [OF wf seq this, of E h] obtain a1
    where next_eq: "poll_next_state E read h a = (state_next E (ar_state a) (ar_bytes a1) h, a1)"
      and a1: "archive_wf a1" "ar_state a1 = ar_state a" "unread rest a1 = hdr @ tail"
        "ar_bytes a1 \<noteq> []" "aligned lack rest (ar_io a1)" "ar_capacity a1 = ar_capacity a"
    using src aligned(1) unread by metis
  have total: "length (ar_bytes a1) + length (rest (ar_io a1)) = 512 + length tail"
    using arg_cong [OF a1(3), of length] hdr(1) by (simp add: unread_def)
  have len: "512 \<le> length (ar_bytes a1)"
  proof (cases "rest (ar_io a1) = []")
    case True
    with total show ?thesis by simp
  next
    case False
    have "512 dvd length (ar_bytes a1) + (length (rest (ar_io a1)) + lack)"
      using total aligned(2) by (simp flip: add.assoc) (simp add: add.assoc)
    moreover have "512 dvd length (rest (ar_io a1)) + lack"
      using a1(5) False by (simp add: aligned_def)
    ultimately have "512 dvd length (ar_bytes a1)"
      by (simp only: dvd_add_left_iff)
    then show ?thesis using a1(4) by (intro dvd_imp_le) auto
  qed
  have split: "take 512 (ar_bytes a1) = hdr" "drop 512 (ar_bytes a1) @ rest (ar_io a1) = tail"
    using arg_cong [OF a1(3), of "take 512"] arg_cong [OF a1(3), of "drop 512"] hdr(1) len
    by (simp_all add: unread_def)
  have "state_next E (ar_state a) (ar_bytes a1) h = Ok (ReceivedHeader, 512)"
    using st len split(1) hdr(2) by (simp add: read_run_def advance_def)
  with next_eq show thesis using that [of a1] a1 st len split by simp
qed

lemma next_entry_header:
  assumes wf: "archive_wf a" and src: "block_source read rest"
    and aligned: "aligned lack rest (ar_io a)" "512 dvd length tail + lack"
    and st: "ar_state a = ReceivingHeader 512 True"
    and unread: "unread rest a = hdr @ tail" and hdr: "valid_header E hdr n"
  obtains a' where "next_entry_loop E read a = (Ok (Some \<lparr>en_header = hdr\<rparr>), a')"
    and "archive_wf a'" and "ar_state a' = ReceivingData n"
    and "unread rest a' = tail" and "aligned lack rest (ar_io a')"
    and "ar_capacity a' = ar_capacity a"
proof -
  note hdrD = valid_headerD [OF hdr]
  from next_state_header [OF wf src aligned st unread hdrD(1,2), of E None] obtain a1
    where a1: "poll_next_state E read None a = (Ok (ReceivedHeader, 512), a1)" "archive_wf a1"
      "ar_state a1 = ReceivingHeader 512 True" "512 \<le> length (ar_bytes a1)"
      "take 512 (ar_bytes a1) = hdr" "drop 512 (ar_bytes a1) @ rest (ar_io a1) = tail"
      "aligned lack rest (ar_io a1)" "ar_capacity a1 = ar_capacity a" .
  have step: "state_next E (ar_state a1) (ar_bytes a1) h = Ok (ReceivedHeader, 512)" for h
    using a1(3-5) hdrD(2) by (simp add: read_run_def advance_def)
  have "settle E (Some hdr) ReceivedHeader = Ok (ReceivingData n)"
    using hdrD(4) by (simp add: settle_def entry_size_of_def)
  from consume_next [OF a1(2) step this] obtain a2
    where a2: "archive_consume E 512 (Some hdr) a1 = (Ok (), a2)" "archive_wf a2"
      "ar_state a2 = ReceivingData n" "ar_bytes a2 = drop 512 (ar_bytes a1)" "ar_io a2 = ar_io a1"
      "ar_capacity a2 = ar_capacity a1" .
  have "next_entry_loop E read a = (Ok (Some \<lparr>en_header = hdr\<rparr>), a2)"
    using a1(1,2,4,5) hdrD a2(1)
    by (simp add: next_entry_loop.simps [of E read a] buffered_bytes_eq archive_wfD slice_in_range
        from_bytes_as_bytes)
  then show thesis
    using that [of a2] a2 a1 by (simp add: unread_def)
qed

text \<open>
  One iteration that goes on, over the unread bytes: the archive after it is at the state
  the reported one settles in, past the reported bytes.
\<close>

lemma next_entry_step:
  assumes next_eq: "poll_next_state E read None a =
      (state_next E (ar_state a) (ar_bytes a1) None, a1)"
    and wf: "archive_wf a1" and st: "ar_state a1 = ar_state a"
    and step: "state_next E (ar_state a) (ar_bytes a1) None = Ok (st, amt)"
    and cont: "(\<exists>rem e. st = ReceivingHeader rem e) \<or> (\<exists>rem. st = ReceivingEof rem) \<or>
      (\<exists>rem. st = AligningData rem) \<or> st = AlignedData"
    and settle: "settle E None st = Ok st'"
  obtains a2 where "next_entry_loop E read a = next_entry_loop E read a2"
    and "archive_wf a2" and "ar_state a2 = st'" and "unread rest a2 = drop amt (unread rest a1)"
    and "ar_capacity a2 = ar_capacity a1" and "ar_io a2 = ar_io a1"
proof -
  from step st have step1: "state_next E (ar_state a1) (ar_bytes a1) None = Ok (st, amt)" by simp
  from consume_next [OF wf this settle] obtain a2
    where a2: "archive_consume E amt None a1 = (Ok (), a2)" "archive_wf a2"
      "ar_state a2 = st'" "ar_bytes a2 = drop amt (ar_bytes a1)"
      "ar_io a2 = ar_io a1" "ar_capacity a2 = ar_capacity a1" .
  have "next_entry_loop E read a = next_entry_loop E read a2"
    by (rule next_entry_continue [OF _ a2(1) cont]) (simp add: next_eq step)
  then show thesis
    using that [of a2] a2 state_next_le [OF step] by (simp add: unread_def)
qed

lemma next_entry_expecting:
  assumes wf: "archive_wf a" and src: "sequential read rest" and some: "unread rest a \<noteq> []"
    and st: "ar_state a = ExpectingHeader"
  obtains a' where "next_entry_loop E read a = next_entry_loop E read a'"
    and "archive_wf a'" and "ar_state a' = ReceivingHeader 512 True"
    and "unread rest a' = unread rest a" and "ar_capacity a' = ar_capacity a"
    and "block_source read rest \<Longrightarrow> aligned lack rest (ar_io a) \<Longrightarrow>
      aligned lack rest (ar_io a')"
proof (rule next_state_some [OF wf src some, of E None])
  fix a1
  assume next_eq: "poll_next_state E read None a = (state_next E (ar_state a) (ar_bytes a1) None, a1)"
    and a1: "archive_wf a1" "ar_state a1 = ar_state a" "unread rest a1 = unread rest a"
      "ar_capacity a1 = ar_capacity a"
      "block_source read rest \<Longrightarrow> aligned lack rest (ar_io a) \<Longrightarrow>
        aligned lack rest (ar_io a1)"
  show thesis
    by (rule next_entry_step [OF next_eq a1(1,2), of "ReceivingHeader 512 True" 0 _ rest])
      (use that a1 st in \<open>auto simp: settle_def\<close>)
qed

text \<open>The padding that is left of the previous entry is skipped, in as many reads as it takes.\<close>

lemma next_entry_aligning:
  assumes "archive_wf a" and src: "sequential read rest"
    and "ar_state a = AligningData (length pad)" and "unread rest a = pad @ tail" and "tail \<noteq> []"
  obtains a' where "next_entry_loop E read a = next_entry_loop E read a'"
    and "archive_wf a'" and "ar_state a' = ExpectingHeader"
    and "unread rest a' = tail" and "ar_capacity a' = ar_capacity a"
    and "block_source read rest \<Longrightarrow> aligned lack rest (ar_io a) \<Longrightarrow>
      aligned lack rest (ar_io a')"
  using assms(1,3,4)
proof (induction "length pad" arbitrary: a pad thesis rule: less_induct)
  case less
  have "unread rest a \<noteq> []" using less.prems(4) assms(5) by simp
  then show ?case
  proof (rule next_state_some [OF less.prems(2) src, of E None])
    fix a1
    assume next_eq: "poll_next_state E read None a = (state_next E (ar_state a) (ar_bytes a1) None, a1)"
      and a1: "archive_wf a1" "ar_state a1 = ar_state a" "unread rest a1 = unread rest a"
        "ar_bytes a1 \<noteq> []" "ar_capacity a1 = ar_capacity a"
        "block_source read rest \<Longrightarrow> aligned lack rest (ar_io a) \<Longrightarrow>
          aligned lack rest (ar_io a1)"
    let ?n = "length (ar_bytes a1)"
    show thesis
    proof (cases "length pad \<le> ?n")
      case True
      have "state_next E (ar_state a) (ar_bytes a1) None = Ok (AlignedData, length pad)"
        using True less.prems(3) by (simp add: advance_def)
      from next_entry_step [OF next_eq a1(1,2) this, of ExpectingHeader rest]
      obtain a2 where a2: "next_entry_loop E read a = next_entry_loop E read a2" "archive_wf a2"
          "ar_state a2 = ExpectingHeader" "unread rest a2 = tail" "ar_capacity a2 = ar_capacity a1"
          "ar_io a2 = ar_io a1"
        using less.prems(4) a1(3) by (auto simp: settle_def)
      then show thesis
        using less.prems(1) [of a2] a1 by simp
    next
      case False
      then have "state_next E (ar_state a) (ar_bytes a1) None = Ok (AligningData (length pad - ?n), ?n)"
        using less.prems(3) by (simp add: advance_def Let_def)
      from next_entry_step [OF next_eq a1(1,2) this, of "AligningData (length pad - ?n)" rest]
      obtain a2 where a2: "next_entry_loop E read a = next_entry_loop E read a2" "archive_wf a2"
          "ar_state a2 = AligningData (length (drop ?n pad))"
          "unread rest a2 = drop ?n pad @ tail" "ar_capacity a2 = ar_capacity a1" "ar_io a2 = ar_io a1"
        using False less.prems(4) a1(3) by (auto simp: settle_def)
      moreover have "length (drop ?n pad) < length pad"
        using False a1(4) by (auto intro!: diff_less)
      ultimately show thesis
        using less.hyps [of "drop ?n pad" a2 thesis] less.prems(1) a1 by simp
    qed
  qed
qed

text \<open>The two empty blocks at the end of the archive.\<close>

lemma next_entry_second_empty:
  assumes "archive_wf a" and src: "sequential read rest"
    and "ar_state a = ReceivingEof rem" and "unread rest a = replicate rem 0 @ tail" and "0 < rem"
  obtains a' where "next_entry_loop E read a = (Ok None, a')" and "archive_wf a'"
    and "ar_state a' = ReceivedEof" and "unread rest a' = tail"
  using assms(1,3,4,5)
proof (induction rem arbitrary: a thesis rule: less_induct)
  case (less rem)
  have "unread rest a \<noteq> []" using less.prems(4,5) by simp
  then show ?case
  proof (rule next_state_some [OF less.prems(2) src, of E None])
    fix a1
    assume next_eq: "poll_next_state E read None a = (state_next E (ar_state a) (ar_bytes a1) None, a1)"
      and a1: "archive_wf a1" "ar_state a1 = ar_state a" "unread rest a1 = unread rest a"
        "ar_bytes a1 \<noteq> []"
    let ?n = "length (ar_bytes a1)"
    have "take (min rem ?n) (ar_bytes a1) = replicate (min rem ?n) 0"
      using arg_cong [OF trans [OF a1(3) less.prems(4)], of "take (min rem ?n)"]
      by (simp add: unread_def min_def split: if_splits)
    then have zero: "all_zero (take (min rem ?n) (ar_bytes a1))"
      by (simp only: all_zero_simps simp_thms)
    show thesis
    proof (cases "rem \<le> ?n")
      case True
      have step: "state_next E (ar_state a1) (ar_bytes a1) None = Ok (ReceivedEof, rem)"
        using True less.prems(3) zero a1(2) by (simp add: read_run_def advance_def)
      from consume_next [OF a1(1) step] obtain a2 where a2: "archive_consume E rem None a1 = (Ok (), a2)"
          "archive_wf a2" "ar_state a2 = ReceivedEof" "ar_bytes a2 = drop rem (ar_bytes a1)"
          "ar_io a2 = ar_io a1"
        by (auto simp: settle_def)
      have "next_entry_loop E read a = (Ok None, a2)"
        using next_eq step a1(2) a2(1) by (simp add: next_entry_loop.simps [of E read a])
      moreover have "unread rest a2 = tail"
        using arg_cong [OF trans [OF a1(3) less.prems(4)], of "drop rem"] a2 True
        by (simp add: unread_def)
      ultimately show thesis using less.prems(1) a2 by blast
    next
      case False
      then have "state_next E (ar_state a) (ar_bytes a1) None = Ok (ReceivingEof (rem - ?n), ?n)"
        using less.prems(3) zero by (simp add: read_run_def advance_def Let_def)
      from next_entry_step [OF next_eq a1(1,2) this, of "ReceivingEof (rem - ?n)" rest]
      obtain a2 where "next_entry_loop E read a = next_entry_loop E read a2" "archive_wf a2"
          "ar_state a2 = ReceivingEof (rem - ?n)" "unread rest a2 = replicate (rem - ?n) 0 @ tail"
        using False less.prems(4) a1(3) by (auto simp: settle_def)
      moreover have "rem - ?n < rem" "0 < rem - ?n"
        using False a1(4) by (auto intro!: diff_less)
      ultimately show thesis
        using less.IH [of "rem - ?n" a2 thesis] less.prems(1) by simp
    qed
  qed
qed

lemma next_entry_first_empty:
  assumes "archive_wf a" and src: "sequential read rest"
    and "ar_state a = ReceivingHeader rem True" and "unread rest a = replicate rem 0 @ tail"
    and "0 < rem"
  obtains a' where "next_entry_loop E read a = next_entry_loop E read a'" and "archive_wf a'"
    and "ar_state a' = ReceivingEof 512" and "unread rest a' = tail"
  using assms(1,3,4,5)
proof (induction rem arbitrary: a thesis rule: less_induct)
  case (less rem)
  have "unread rest a \<noteq> []" using less.prems(4,5) by simp
  then show ?case
  proof (rule next_state_some [OF less.prems(2) src, of E None])
    fix a1
    assume next_eq: "poll_next_state E read None a = (state_next E (ar_state a) (ar_bytes a1) None, a1)"
      and a1: "archive_wf a1" "ar_state a1 = ar_state a" "unread rest a1 = unread rest a"
        "ar_bytes a1 \<noteq> []"
    let ?n = "length (ar_bytes a1)"
    have "take (min rem ?n) (ar_bytes a1) = replicate (min rem ?n) 0"
      using arg_cong [OF trans [OF a1(3) less.prems(4)], of "take (min rem ?n)"]
      by (simp add: unread_def min_def split: if_splits)
    then have zero: "all_zero (take (min rem ?n) (ar_bytes a1))"
      by (simp only: all_zero_simps simp_thms)
    show thesis
    proof (cases "rem \<le> ?n")
      case True
      have "state_next E (ar_state a) (ar_bytes a1) None = Ok (ReceivingEof 512, rem)"
        using True less.prems(3) zero by (simp add: read_run_def advance_def)
      from next_entry_step [OF next_eq a1(1,2) this, of "ReceivingEof 512" rest] show thesis
        using less.prems a1(3) by (auto simp: settle_def)
    next
      case False
      then have "state_next E (ar_state a) (ar_bytes a1) None = Ok (ReceivingHeader (rem - ?n) True, ?n)"
        using less.prems(3) zero by (simp add: read_run_def advance_def Let_def)
      from next_entry_step [OF next_eq a1(1,2) this, of "ReceivingHeader (rem - ?n) True" rest]
      obtain a2 where "next_entry_loop E read a = next_entry_loop E read a2" "archive_wf a2"
          "ar_state a2 = ReceivingHeader (rem - ?n) True"
          "unread rest a2 = replicate (rem - ?n) 0 @ tail"
        using False less.prems(4) a1(3) by (auto simp: settle_def)
      moreover have "rem - ?n < rem" "0 < rem - ?n"
        using False a1(4) by (auto intro!: diff_less)
      ultimately show thesis
        using less.IH [of "rem - ?n" a2 thesis] less.prems(1) by simp
    qed
  qed
qed

text \<open>
  The states between two entries, with the number of padding bytes before the next block.
\<close>

fun entry_gap :: "state \<Rightarrow> usize option" where
  "entry_gap ExpectingHeader = Some 0"
| "entry_gap (ReceivingHeader rem is_empty) = (if rem = 512 \<and> is_empty then Some 0 else None)"
| "entry_gap (AligningData rem) = Some rem"
| "entry_gap _ = None"

lemma entry_gap_Some:
  assumes "entry_gap s = Some k"
  shows "s = AligningData k \<or> s = ExpectingHeader \<and> k = 0 \<or> s = ReceivingHeader 512 True \<and> k = 0"
  using assms by (cases s) (auto split: if_splits)

lemma next_entry_gap:
  assumes wf: "archive_wf a" and src: "sequential read rest"
    and gap: "entry_gap (ar_state a) = Some (length pad)"
    and unread: "unread rest a = pad @ tail" and "tail \<noteq> []"
  obtains a' where "poll_next_entry E read a = next_entry_loop E read a'"
    and "archive_wf a'" and "ar_state a' = ReceivingHeader 512 True"
    and "unread rest a' = tail" and "ar_capacity a' = ar_capacity a"
    and "block_source read rest \<Longrightarrow> aligned lack rest (ar_io a) \<Longrightarrow>
      aligned lack rest (ar_io a')"
proof -
  have start: "poll_next_entry E read a = next_entry_loop E read a"
    using entry_gap_Some [OF gap] by (auto simp: poll_next_entry_def)
  from entry_gap_Some [OF gap] consider "ar_state a = AligningData (length pad)"
    | "ar_state a = ExpectingHeader" "pad = []" | "ar_state a = ReceivingHeader 512 True" "pad = []"
    by auto
  then show thesis
  proof cases
    case 1
    from next_entry_aligning [OF wf src 1 unread \<open>tail \<noteq> []\<close>, of E] obtain a1
      where a1: "next_entry_loop E read a = next_entry_loop E read a1" "archive_wf a1"
        "ar_state a1 = ExpectingHeader" "unread rest a1 = tail" "ar_capacity a1 = ar_capacity a"
        "block_source read rest \<Longrightarrow> aligned lack rest (ar_io a) \<Longrightarrow>
          aligned lack rest (ar_io a1)"
      by metis
    then have "unread rest a1 \<noteq> []" using \<open>tail \<noteq> []\<close> by simp
    from next_entry_expecting [OF a1(2) src this a1(3), of E] show thesis
      using that start a1 by metis
  next
    case 2
    then have "unread rest a \<noteq> []" using unread \<open>tail \<noteq> []\<close> by simp
    from next_entry_expecting [OF wf src this 2(1), of E] show thesis
      using that start unread 2(2) by (metis append_Nil)
  next
    case 3
    then show thesis using that [of a] start wf unread by simp
  qed
qed

lemma poll_next_entry_some:
  assumes wf: "archive_wf a" and src: "block_source read rest"
    and gap: "entry_gap (ar_state a) = Some (length pad)"
    and unread: "unread rest a = pad @ hdr @ tail" and hdr: "valid_header E hdr n"
    and aligned: "aligned lack rest (ar_io a)" "512 dvd length tail + lack"
  obtains a' where "poll_next_entry E read a = (Ok (Some \<lparr>en_header = hdr\<rparr>), a')"
    and "archive_wf a'" and "ar_state a' = ReceivingData n" and "unread rest a' = tail"
    and "aligned lack rest (ar_io a')" and "ar_capacity a' = ar_capacity a"
proof -
  have seq: "sequential read rest" using src by (simp add: block_source_def)
  have "hdr @ tail \<noteq> []" using valid_headerD(1) [OF hdr] by auto
  from next_entry_gap [OF wf seq gap unread this, of E] obtain a1
    where a1: "poll_next_entry E read a = next_entry_loop E read a1"
      "archive_wf a1" "ar_state a1 = ReceivingHeader 512 True"
      "unread rest a1 = hdr @ tail" "ar_capacity a1 = ar_capacity a"
      "aligned lack rest (ar_io a1)"
    using src aligned(1) by metis
  from next_entry_header [OF a1(2) src a1(6) aligned(2) a1(3,4) hdr] show thesis
    using that a1(1,5) by metis
qed

lemma poll_next_entry_none:
  assumes wf: "archive_wf a" and src: "sequential read rest"
    and gap: "entry_gap (ar_state a) = Some (length pad)"
    and unread: "unread rest a = pad @ replicate 1024 0 @ tail"
  obtains a' where "poll_next_entry E read a = (Ok None, a')"
    and "archive_wf a'" and "ar_state a' = ReceivedEof" and "unread rest a' = tail"
proof -
  have blocks: "replicate 1024 0 @ tail = replicate 512 0 @ replicate 512 0 @ tail"
    by (simp flip: replicate_add)
  have "replicate 1024 0 @ tail \<noteq> []" by simp
  from next_entry_gap [OF wf src gap unread this, of E] obtain a1
    where a1: "poll_next_entry E read a = next_entry_loop E read a1"
      "archive_wf a1" "ar_state a1 = ReceivingHeader 512 True"
      "unread rest a1 = replicate 512 0 @ replicate 512 0 @ tail"
    using blocks by metis
  from next_entry_first_empty [OF a1(2) src a1(3,4), of E] obtain a2
    where a2: "next_entry_loop E read a1 = next_entry_loop E read a2" "archive_wf a2"
      "ar_state a2 = ReceivingEof 512" "unread rest a2 = replicate 512 0 @ tail"
    by auto
  from next_entry_second_empty [OF a2(2) src a2(3,4), of E] show thesis
    using that a1(1) a2(1) by auto
qed

section \<open>Reading the data of an entry\<close>

lemma read_entry_data:
  assumes wf: "archive_wf a" and src: "sequential read rest" and some: "unread rest a \<noteq> []"
    and st: "ar_state a = ReceivingData n"
  obtains a' where "poll_read_entry E read hdr a = (Ok (take (unat n) (ar_bytes a')), a')"
    and "archive_wf a'" and "ar_state a' = ReceivingData n" and "unread rest a' = unread rest a"
    and "ar_bytes a' \<noteq> []" and "ar_capacity a' = ar_capacity a"
    and "block_source read rest \<Longrightarrow> aligned lack rest (ar_io a) \<Longrightarrow>
      aligned lack rest (ar_io a')"
proof (rule next_state_some [OF wf src some, of E "Some hdr"])
  fix a'
  assume next_eq: "poll_next_state E read (Some hdr) a =
      (state_next E (ar_state a) (ar_bytes a') (Some hdr), a')"
    and a': "archive_wf a'" "ar_state a' = ar_state a" "unread rest a' = unread rest a"
      "ar_bytes a' \<noteq> []" "ar_capacity a' = ar_capacity a"
      "block_source read rest \<Longrightarrow> aligned lack rest (ar_io a) \<Longrightarrow>
        aligned lack rest (ar_io a')"
  have "poll_read_entry E read hdr a = (Ok (take (unat n) (ar_bytes a')), a')"
    using next_eq st a'(1)
    by (simp add: poll_read_entry.simps [of E read hdr a] next_receiving_data_def Let_def
        advance_def buffered_bytes_eq archive_wfD slice_in_range min_def)
  from this a' show thesis by (intro that) (simp_all add: st)
qed

text \<open>Consuming part of the data, or all of it.\<close>

lemma consume_data:
  assumes wf: "archive_wf a" and st: "ar_state a = ReceivingData n"
    and m: "m \<le> unat n" "m \<le> length (ar_bytes a)"
    and size: "hdr_entry_size E hdr = Inr tot" "\<not> debug_assertions E \<or> unat tot + 511 < 2 ^ 64"
  obtains a' where "archive_consume E m (Some hdr) a = (Ok (), a')" and "archive_wf a'"
    and "ar_state a' = (if m = unat n then AligningData (padding 512 (unat tot))
      else ReceivingData (n - word_of_nat m))"
    and "ar_bytes a' = drop m (ar_bytes a)" and "ar_io a' = ar_io a"
    and "ar_capacity a' = ar_capacity a"
proof -
  have zero: "n - word_of_nat m = 0 \<longleftrightarrow> m = unat n"
    using unat_minus_of_nat [OF m(1)] m(1) by (auto simp flip: unat_eq_zero)
  let ?st = "if m = unat n then ReceivedData else ReceivingData (n - word_of_nat m)"
  have "state_next E (ar_state a) (take m (ar_bytes a)) (Some hdr) = Ok (?st, m)"
    using m st zero by (simp add: next_receiving_data_def advance_def Let_def min_def)
  then have take: "take_slices E (ar_state a) [take m (ar_bytes a)] (Some hdr) = Ok (?st, m)"
    using take_slices_exact [of E "ar_state a" "take m (ar_bytes a)" "Some hdr" ?st m] m(2)
    by (simp add: min_def)
  have "settle E (Some hdr) ?st = Ok (if m = unat n then AligningData (padding 512 (unat tot))
      else ReceivingData (n - word_of_nat m))"
    using state_next_ReceivedData [OF size] zero by (simp add: settle_def)
  from consume_spec [OF wf m(2) take this] show thesis using that by metis
qed

section \<open>Reading through the handle\<close>

text \<open>A read with room returns some of the data, never more than there is room for.\<close>

lemma entry_read_data:
  assumes wf: "archive_wf a" and src: "sequential read rest" and some: "unread rest a \<noteq> []"
    and st: "ar_state a = ReceivingData n" and n: "0 < unat n" and room: "0 < room"
    and size: "hdr_entry_size E (en_header en) = Inr tot"
      "\<not> debug_assertions E \<or> unat tot + 511 < 2 ^ 64"
  obtains m a' where "entry_poll_read E read en room a = (Ok (take m (unread rest a)), a')"
    and "0 < m" and "m \<le> room" and "m \<le> unat n" and "m \<le> length (unread rest a)"
    and "archive_wf a'"
    and "ar_state a' = (if m = unat n then AligningData (padding 512 (unat tot))
      else ReceivingData (n - word_of_nat m))"
    and "unread rest a' = drop m (unread rest a)" and "ar_capacity a' = ar_capacity a"
    and "block_source read rest \<Longrightarrow> aligned lack rest (ar_io a) \<Longrightarrow>
      aligned lack rest (ar_io a')"
proof -
  from read_entry_data [OF wf src some st, of E "en_header en" lack] obtain a1
    where a1: "poll_read_entry E read (en_header en) a = (Ok (take (unat n) (ar_bytes a1)), a1)"
      "archive_wf a1" "ar_state a1 = ReceivingData n" "unread rest a1 = unread rest a"
      "ar_bytes a1 \<noteq> []" "ar_capacity a1 = ar_capacity a"
      "block_source read rest \<Longrightarrow> aligned lack rest (ar_io a) \<Longrightarrow> aligned lack rest (ar_io a1)"
    by metis
  define m where "m = min (min (length (ar_bytes a1)) (unat n)) room"
  have m: "0 < m" "m \<le> room" "m \<le> unat n" "m \<le> length (ar_bytes a1)"
    using a1(5) n room by (auto simp: m_def)
  from consume_data [OF a1(2,3) m(3,4) size] obtain a2
    where a2: "archive_consume E m (Some (en_header en)) a1 = (Ok (), a2)" "archive_wf a2"
      "ar_state a2 = (if m = unat n then AligningData (padding 512 (unat tot))
        else ReceivingData (n - word_of_nat m))"
      "ar_bytes a2 = drop m (ar_bytes a1)" "ar_io a2 = ar_io a1" "ar_capacity a2 = ar_capacity a1" .
  have "take m (take (unat n) (ar_bytes a1)) = take m (unread rest a)"
    using m a1(4) [symmetric] by (simp add: unread_def min_def)
  then have "entry_poll_read E read en room a = (Ok (take m (unread rest a)), a2)"
    using room m a1(1) a2(1)
    by (simp add: entry_poll_read_def entry_poll_fill_buf_def entry_consume_def Let_def
        slice_in_range flip: m_def)
  moreover have "unread rest a2 = drop m (unread rest a)" "m \<le> length (unread rest a)"
    using a1(4) [symmetric] a2 m(4) by (simp_all add: unread_def)
  ultimately show thesis
    using that [of m a2] m a1(6,7) a2(2,3,5,6) by simp
qed

text \<open>An empty entry is read to its end by the first read.\<close>

lemma entry_read_nothing:
  assumes wf: "archive_wf a" and src: "sequential read rest" and some: "unread rest a \<noteq> []"
    and st: "ar_state a = ReceivingData 0" and room: "0 < room"
    and size: "hdr_entry_size E (en_header en) = Inr tot"
      "\<not> debug_assertions E \<or> unat tot + 511 < 2 ^ 64"
  obtains a' where "entry_poll_read E read en room a = (Ok [], a')" and "archive_wf a'"
    and "ar_state a' = AligningData (padding 512 (unat tot))"
    and "unread rest a' = unread rest a" and "ar_capacity a' = ar_capacity a"
    and "block_source read rest \<Longrightarrow> aligned lack rest (ar_io a) \<Longrightarrow>
      aligned lack rest (ar_io a')"
proof -
  from read_entry_data [OF wf src some st, of E "en_header en" lack] obtain a1
    where a1: "poll_read_entry E read (en_header en) a = (Ok [], a1)"
      "archive_wf a1" "ar_state a1 = ReceivingData 0" "unread rest a1 = unread rest a"
      "ar_capacity a1 = ar_capacity a"
      "block_source read rest \<Longrightarrow> aligned lack rest (ar_io a) \<Longrightarrow> aligned lack rest (ar_io a1)"
    by (metis take_0 unsigned_0)
  from consume_data [OF a1(2,3) _ _ size, of 0] obtain a2
    where a2: "archive_consume E 0 (Some (en_header en)) a1 = (Ok (), a2)" "archive_wf a2"
      "ar_state a2 = AligningData (padding 512 (unat tot))" "ar_bytes a2 = ar_bytes a1"
      "ar_io a2 = ar_io a1" "ar_capacity a2 = ar_capacity a1"
    by auto
  have "entry_poll_read E read en room a = (Ok [], a2)"
    using room a1(1) a2(1)
    by (simp add: entry_poll_read_def entry_poll_fill_buf_def entry_consume_def slice_in_range)
  then show thesis
    using that [of a2] a1 a2 by (simp add: unread_def)
qed

text \<open>After the data, the next read skips the padding and reports the end of the entry.\<close>

lemma read_entry_padding:
  assumes "archive_wf a" and src: "sequential read rest"
    and "ar_state a = AligningData (length pad)" and "unread rest a = pad @ tail"
    and "pad @ tail \<noteq> []"
  obtains a' where "poll_read_entry E read hdr a = (Ok [], a')" and "archive_wf a'"
    and "ar_state a' = ExpectingHeader" and "unread rest a' = tail"
    and "ar_capacity a' = ar_capacity a"
    and "block_source read rest \<Longrightarrow> aligned lack rest (ar_io a) \<Longrightarrow>
      aligned lack rest (ar_io a')"
  using assms(1,3,4,5)
proof (induction "length pad" arbitrary: a pad thesis rule: less_induct)
  case less
  have "unread rest a \<noteq> []" using less.prems(4,5) by simp
  then show ?case
  proof (rule next_state_some [OF less.prems(2) src, of E "Some hdr"])
    fix a1
    assume next_eq: "poll_next_state E read (Some hdr) a =
        (state_next E (ar_state a) (ar_bytes a1) (Some hdr), a1)"
      and a1: "archive_wf a1" "ar_state a1 = ar_state a" "unread rest a1 = unread rest a"
        "ar_bytes a1 \<noteq> []" "ar_capacity a1 = ar_capacity a"
        "block_source read rest \<Longrightarrow> aligned lack rest (ar_io a) \<Longrightarrow>
          aligned lack rest (ar_io a1)"
    let ?n = "length (ar_bytes a1)"
    show thesis
    proof (cases "length pad \<le> ?n")
      case True
      then have step: "state_next E (ar_state a1) (ar_bytes a1) h = Ok (AlignedData, length pad)" for h
        using a1(2) less.prems(3) by (simp add: advance_def)
      from consume_next [OF a1(1) step [of "Some hdr"], of ExpectingHeader] obtain a2
        where a2: "archive_consume E (length pad) (Some hdr) a1 = (Ok (), a2)" "archive_wf a2"
          "ar_state a2 = ExpectingHeader" "ar_bytes a2 = drop (length pad) (ar_bytes a1)"
          "ar_io a2 = ar_io a1" "ar_capacity a2 = ar_capacity a1"
        by (auto simp: settle_def)
      have "poll_read_entry E read hdr a = (Ok [], a2)"
        using next_eq step a1(2) a2(1) by (simp add: poll_read_entry.simps [of E read hdr a])
      moreover have "unread rest a2 = tail"
        using arg_cong [OF trans [OF a1(3) less.prems(4)], of "drop (length pad)"] a2 True
        by (simp add: unread_def)
      ultimately show thesis using less.prems(1) [of a2] a1 a2 by simp
    next
      case False
      then have step: "state_next E (ar_state a1) (ar_bytes a1) h =
          Ok (AligningData (length pad - ?n), ?n)" for h
        using a1(2) less.prems(3) by (simp add: advance_def Let_def)
      from consume_next [OF a1(1) step [of None], of "AligningData (length pad - ?n)"] obtain a2
        where a2: "archive_consume E ?n None a1 = (Ok (), a2)" "archive_wf a2"
          "ar_state a2 = AligningData (length (drop ?n pad))" "ar_bytes a2 = drop ?n (ar_bytes a1)"
          "ar_io a2 = ar_io a1" "ar_capacity a2 = ar_capacity a1"
        using False by (auto simp: settle_def)
      have "poll_read_entry E read hdr a = poll_read_entry E read hdr a2"
        using next_eq step a1(2) a2(1) by (simp add: poll_read_entry.simps [of E read hdr a])
      moreover have "unread rest a2 = drop ?n pad @ tail"
        using arg_cong [OF trans [OF a1(3) less.prems(4)], of "drop ?n"] a2 False
        by (simp add: unread_def)
      moreover have "length (drop ?n pad) < length pad" "drop ?n pad @ tail \<noteq> []"
        using False a1(4) by (auto intro!: diff_less)
      ultimately show thesis
        using less.hyps [of "drop ?n pad" a2 thesis] less.prems(1) a1 a2 by simp
    qed
  qed
qed

lemma entry_read_end:
  assumes wf: "archive_wf a" and src: "sequential read rest" and room: "0 < room"
    and st: "ar_state a = AligningData (length pad)" and unread: "unread rest a = pad @ tail"
    and some: "pad @ tail \<noteq> []"
  obtains a' where "entry_poll_read E read en room a = (Ok [], a')" and "archive_wf a'"
    and "ar_state a' = ReceivingHeader 512 True" and "unread rest a' = tail"
    and "ar_capacity a' = ar_capacity a"
    and "block_source read rest \<Longrightarrow> aligned lack rest (ar_io a) \<Longrightarrow>
      aligned lack rest (ar_io a')"
proof -
  from read_entry_padding [OF wf src st unread some, of E "en_header en" lack] obtain a1
    where a1: "poll_read_entry E read (en_header en) a = (Ok [], a1)" "archive_wf a1"
      "ar_state a1 = ExpectingHeader" "unread rest a1 = tail" "ar_capacity a1 = ar_capacity a"
      "block_source read rest \<Longrightarrow> aligned lack rest (ar_io a) \<Longrightarrow> aligned lack rest (ar_io a1)"
    by metis
  have "take_slices E ExpectingHeader [[]] h = Ok (ReceivingHeader 512 True, 0)" for h
    by (simp add: take_slices_eq_take_until take_until_unfold slices_stop_def)
  then have "take_slices E (ar_state a1) [take 0 (ar_bytes a1)] h = Ok (ReceivingHeader 512 True, 0)" for h
    using a1(3) by simp
  from consume_spec [OF a1(2) _ this, where st' = "ReceivingHeader 512 True"] obtain a2
    where a2: "archive_consume E 0 (Some (en_header en)) a1 = (Ok (), a2)" "archive_wf a2"
      "ar_state a2 = ReceivingHeader 512 True" "ar_bytes a2 = ar_bytes a1"
      "ar_io a2 = ar_io a1" "ar_capacity a2 = ar_capacity a1"
    by (auto simp: settle_def)
  have "entry_poll_read E read en room a = (Ok [], a2)"
    using room a1(1) a2(1)
    by (simp add: entry_poll_read_def entry_poll_fill_buf_def entry_consume_def slice_in_range)
  then show thesis
    using that [of a2] a1 a2 by (simp add: unread_def)
qed

section \<open>Skipping an entry\<close>

text \<open>The data that is left and the padding are skipped, and the machine expects a header.\<close>

lemma skip_entry_rest:
  assumes "archive_wf a" and src: "sequential read rest"
    and "ar_state a = ReceivingData n \<and> 0 < unat n \<and> length data = unat n \<or>
      ar_state a = AligningData (length pad) \<and> data = []"
    and "unread rest a = data @ pad @ tail" and "length pad = padding 512 (unat tot)"
    and tail: "tail \<noteq> []"
    and size: "hdr_entry_size E hdr = Inr tot" "\<not> debug_assertions E \<or> unat tot + 511 < 2 ^ 64"
  obtains a' where "poll_skip_entry E read hdr a = (Ok (), a')" and "archive_wf a'"
    and "ar_state a' = ExpectingHeader" and "unread rest a' = tail"
    and "ar_capacity a' = ar_capacity a"
    and "block_source read rest \<Longrightarrow> aligned lack rest (ar_io a) \<Longrightarrow>
      aligned lack rest (ar_io a')"
  using assms(1,3,4)
proof (induction "length data" arbitrary: a n data thesis rule: less_induct)
  case less
  from less.prems(3) show ?case
  proof
    assume st: "ar_state a = AligningData (length pad) \<and> data = []"
    with less.prems(4) tail have "unread rest a = pad @ tail" "pad @ tail \<noteq> []" by simp_all
    from read_entry_padding [OF less.prems(2) src conjunct1 [OF st] this, of E hdr lack]
    obtain a1 where a1: "poll_read_entry E read hdr a = (Ok [], a1)" "archive_wf a1"
        "ar_state a1 = ExpectingHeader" "unread rest a1 = tail" "ar_capacity a1 = ar_capacity a"
        "block_source read rest \<Longrightarrow> aligned lack rest (ar_io a) \<Longrightarrow> aligned lack rest (ar_io a1)"
      by metis
    then have "poll_skip_entry E read hdr a = (Ok (), a1)"
      by (simp add: poll_skip_entry.simps [of E read hdr a])
    with a1 show thesis using less.prems(1) by metis
  next
    assume st: "ar_state a = ReceivingData n \<and> 0 < unat n \<and> length data = unat n"
    then have "unread rest a \<noteq> []" using less.prems(4) tail by simp
    from read_entry_data [OF less.prems(2) src this conjunct1 [OF st], of E hdr lack] obtain a1
      where a1: "poll_read_entry E read hdr a = (Ok (take (unat n) (ar_bytes a1)), a1)"
        "archive_wf a1" "ar_state a1 = ReceivingData n" "unread rest a1 = unread rest a"
        "ar_bytes a1 \<noteq> []" "ar_capacity a1 = ar_capacity a"
        "block_source read rest \<Longrightarrow> aligned lack rest (ar_io a) \<Longrightarrow> aligned lack rest (ar_io a1)"
      by metis
    define m where "m = min (length (ar_bytes a1)) (unat n)"
    have m: "0 < m" "m \<le> unat n" "m \<le> length (ar_bytes a1)"
      using a1(5) st by (auto simp: m_def)
    from consume_data [OF a1(2,3) m(2,3) size] obtain a2
      where a2: "archive_consume E m (Some hdr) a1 = (Ok (), a2)" "archive_wf a2"
        "ar_state a2 = (if m = unat n then AligningData (padding 512 (unat tot))
          else ReceivingData (n - word_of_nat m))"
        "ar_bytes a2 = drop m (ar_bytes a1)" "ar_io a2 = ar_io a1" "ar_capacity a2 = ar_capacity a1" .
    have loop: "poll_skip_entry E read hdr a = poll_skip_entry E read hdr a2"
      using a1(1,5) a2(1) m
      by (simp add: poll_skip_entry.simps [of E read hdr a] Let_def flip: m_def)
    have rest: "unread rest a2 = drop m data @ pad @ tail"
      using a1(4) less.prems(4) a2(4,5) m st
      by (metis append_assoc drop_append diff_is_0_eq drop_0 unread_def)
    have "length (drop m data) < length data" using m st by simp
    moreover have "unat (n - word_of_nat m) = unat n - m"
      using unat_minus_of_nat [OF m(2)] .
    then have "ar_state a2 = ReceivingData (n - word_of_nat m) \<and> 0 < unat (n - word_of_nat m) \<and>
        length (drop m data) = unat (n - word_of_nat m) \<or>
      ar_state a2 = AligningData (length pad) \<and> drop m data = []"
      using a2(3) st m(2) assms(5) by (cases "m = unat n") auto
    ultimately show thesis
      using less.hyps [of "drop m data" a2 thesis "n - word_of_nat m"] a2(2) rest loop
        less.prems(1) a1(6,7) a2(5,6) by simp
  qed
qed

end
