(* ===== verification/Decoding.thy ===== *)
theory Decoding
  imports Reading
begin

text \<open>
  Whole archives: a client that reads every entry to its end
  (\<open>read_archive\<close> of \<open>src/read/tests.rs\<close>) gets exactly the entries of the archive, and an
  error where the archive is cut short.
\<close>

section \<open>The client\<close>

text \<open>
  The loop over \<open>entry.read(buf)\<close> until it returns nothing, and the loop over
  \<open>next_entry\<close>. The data the client sees is returned with the entries. Both loops run as
  long as the underlying object goes on, so the result is \<open>None\<close> if it never ends.
\<close>

partial_function (option) read_entry_all ::
  "cfg \<Rightarrow> 'r reader \<Rightarrow> entry \<Rightarrow> usize \<Rightarrow> bytes \<Rightarrow> 'r archive \<Rightarrow>
    (bytes outcome \<times> 'r archive) option" where
  "read_entry_all E read en room acc a =
     loop_then (entry_poll_read E read en room a) (\<lambda>bs a.
       if bs = [] then Some (Ok acc, a)
       else read_entry_all E read en room (acc @ bs) a)"

partial_function (option) read_archive ::
  "cfg \<Rightarrow> 'r reader \<Rightarrow> usize \<Rightarrow> (entry \<times> bytes) list \<Rightarrow> 'r archive \<Rightarrow>
    ((entry \<times> bytes) list outcome \<times> 'r archive) option" where
  "read_archive E read room acc a =
     loop_then (next_entry_poll E read a) (\<lambda>e a. case e of
         Some en \<Rightarrow>
           Option.bind (read_entry_all E read en room [] a) (\<lambda>r.
             loop_then r (\<lambda>bs a. read_archive E read room (acc @ [(en, bs)]) a))
       | None \<Rightarrow>
           (case next_entry_poll E read a of (r, a) \<Rightarrow>
             loop_then (expect_ok r, a) (\<lambda>e a.
               loop_then (assert_that (e = None), a) (\<lambda>_ a. Some (Ok acc, a)))))"

declare read_entry_all.simps [simp del] read_archive.simps [simp del]

section \<open>Reading an entry to its end\<close>

lemma read_entry_all_rest:
  assumes "archive_wf a" and src: "sequential read rest" and room: "0 < room"
    and "ar_state a = ReceivingData n \<and> 0 < unat n \<and> length data = unat n \<or>
      ar_state a = AligningData (length pad) \<and> data = []"
    and "unread rest a = data @ pad @ tail" and "length pad = padding 512 (unat tot)"
    and tail: "pad @ tail \<noteq> []"
    and size: "hdr_entry_size E (en_header en) = Inr tot"
      "\<not> debug_assertions E \<or> unat tot + 511 < 2 ^ 64"
  obtains a' where "read_entry_all E read en room acc a = Some (Ok (acc @ data), a')"
    and "archive_wf a'" and "ar_state a' = ReceivingHeader 512 True" and "unread rest a' = tail"
    and "ar_capacity a' = ar_capacity a"
    and "block_source read rest \<Longrightarrow> aligned lack rest (ar_io a) \<Longrightarrow>
      aligned lack rest (ar_io a')"
  using assms(1,4,5)
proof (induction "length data" arbitrary: a n data acc thesis rule: less_induct)
  case less
  from less.prems(3) show ?case
  proof
    assume st: "ar_state a = AligningData (length pad) \<and> data = []"
    with less.prems(4) have "unread rest a = pad @ tail" by simp
    from entry_read_end [OF less.prems(2) src room conjunct1 [OF st] this tail, of E en lack] obtain a1
      where a1: "entry_poll_read E read en room a = (Ok [], a1)" "archive_wf a1"
        "ar_state a1 = ReceivingHeader 512 True" "unread rest a1 = tail"
        "ar_capacity a1 = ar_capacity a"
        "block_source read rest \<Longrightarrow> aligned lack rest (ar_io a) \<Longrightarrow> aligned lack rest (ar_io a1)"
      by metis
    then have "read_entry_all E read en room acc a = Some (Ok (acc @ data), a1)"
      using st by (simp add: read_entry_all.simps [of E read en room acc a])
    then show thesis using less.prems(1) a1(2-6) by metis
  next
    assume st: "ar_state a = ReceivingData n \<and> 0 < unat n \<and> length data = unat n"
    then have "unread rest a \<noteq> []" using less.prems(4) tail by auto
    from entry_read_data [OF less.prems(2) src this conjunct1 [OF st]
        conjunct1 [OF conjunct2 [OF st]] room size, of lack] obtain m a1
      where a1: "entry_poll_read E read en room a = (Ok (take m (unread rest a)), a1)"
        "0 < m" "m \<le> unat n" "m \<le> length (unread rest a)" "archive_wf a1"
        "ar_state a1 = (if m = unat n then AligningData (padding 512 (unat tot))
          else ReceivingData (n - word_of_nat m))"
        "unread rest a1 = drop m (unread rest a)" "ar_capacity a1 = ar_capacity a"
        "block_source read rest \<Longrightarrow> aligned lack rest (ar_io a) \<Longrightarrow> aligned lack rest (ar_io a1)"
      by metis
    have data: "take m (unread rest a) = take m data" "take m data \<noteq> []"
      using less.prems(4) st a1(2,3) by auto
    have loop: "read_entry_all E read en room acc a = read_entry_all E read en room (acc @ take m data) a1"
      using a1(1) data by (simp add: read_entry_all.simps [of E read en room acc a])
    have rest: "unread rest a1 = drop m data @ pad @ tail"
      using a1(3,7) less.prems(4) st by simp
    have "length (drop m data) < length data" using a1(2,3) st by simp
    moreover have "ar_state a1 = ReceivingData (n - word_of_nat m) \<and> 0 < unat (n - word_of_nat m) \<and>
        length (drop m data) = unat (n - word_of_nat m) \<or>
      ar_state a1 = AligningData (length pad) \<and> drop m data = []"
      using a1(3,6) st unat_minus_of_nat [OF a1(3)] assms(6) by (cases "m = unat n") auto
    ultimately show thesis
      using less.hyps [of "drop m data" "acc @ take m data" a1 thesis "n - word_of_nat m"]
        a1(5,8,9) rest loop less.prems(1) by simp
  qed
qed

text \<open>An entry, whatever its size, up to where the next one is looked for.\<close>

lemma read_entry_all_entry:
  assumes wf: "archive_wf a" and src: "sequential read rest" and room: "0 < room"
    and st: "ar_state a = ReceivingData n" and data: "length data = unat n"
    and unread: "unread rest a = data @ pad @ tail" and pad: "length pad = padding 512 (unat n)"
    and tail: "pad @ tail \<noteq> []"
    and size: "hdr_entry_size E (en_header en) = Inr n"
      "\<not> debug_assertions E \<or> unat n + 511 < 2 ^ 64"
  obtains a' where "read_entry_all E read en room [] a = Some (Ok data, a')"
    and "archive_wf a'" and "entry_gap (ar_state a') = Some 0" and "unread rest a' = tail"
    and "ar_capacity a' = ar_capacity a"
    and "block_source read rest \<Longrightarrow> aligned lack rest (ar_io a) \<Longrightarrow>
      aligned lack rest (ar_io a')"
proof (cases "unat n = 0")
  case False
  with st data have "ar_state a = ReceivingData n \<and> 0 < unat n \<and> length data = unat n \<or>
      ar_state a = AligningData (length pad) \<and> data = []" by simp
  from read_entry_all_rest [OF wf src room this unread pad tail size, of "[]" lack] show thesis
    using that by (metis append_Nil entry_gap.simps(2))
next
  case True
  then have "n = 0" "data = []" "pad = []"
    using data pad by (simp_all add: unat_eq_0 padding_def)
  with st unread tail have "unread rest a \<noteq> []" "ar_state a = ReceivingData 0" by simp_all
  from entry_read_nothing [OF wf src this room size, of lack] obtain a1
    where a1: "entry_poll_read E read en room a = (Ok [], a1)" "archive_wf a1"
      "ar_state a1 = AligningData (padding 512 (unat n))" "unread rest a1 = unread rest a"
      "ar_capacity a1 = ar_capacity a"
      "block_source read rest \<Longrightarrow> aligned lack rest (ar_io a) \<Longrightarrow> aligned lack rest (ar_io a1)"
    by metis
  have "read_entry_all E read en room [] a = Some (Ok data, a1)"
    using a1(1) \<open>data = []\<close> by (simp add: read_entry_all.simps [of E read en room "[]" a])
  moreover have "entry_gap (ar_state a1) = Some 0" "unread rest a1 = tail"
    using a1(3,4) unread \<open>data = []\<close> \<open>pad = []\<close> True by (simp_all add: padding_def)
  ultimately show thesis
    using that [of a1] a1(2,5,6) by simp
qed

section \<open>Reading an archive\<close>

text \<open>The next entry of an archive, from the end of the entry before it, and the end.\<close>

lemma archive_next_entry:
  assumes wf: "archive_wf a" and src: "block_source read rest"
    and fits: "\<And>e'. e' \<in> set (e # es) \<Longrightarrow> entry_fits E e'"
    and gap: "entry_gap (ar_state a) = Some 0"
    and unread: "unread rest a = archive_bytes (e # es) @ tail"
    and aligned: "aligned lack rest (ar_io a)" "512 dvd length tail + lack"
  obtains n a1 where "valid_header E (fst e) n" and "length (snd e) = unat n"
    and "poll_next_entry E read a = (Ok (Some \<lparr>en_header = fst e\<rparr>), a1)" and "archive_wf a1"
    and "ar_state a1 = ReceivingData n"
    and "unread rest a1 = snd e @ replicate (padding 512 (unat n)) 0 @ archive_bytes es @ tail"
    and "aligned lack rest (ar_io a1)"
proof -
  obtain n where hdr: "valid_header E (fst e) n" and data: "length (snd e) = unat n"
    using fits [of e] by (auto elim: entry_fitsE)
  let ?rest = "snd e @ replicate (padding 512 (unat n)) 0 @ archive_bytes es @ tail"
  have "unread rest a = [] @ fst e @ ?rest" and "entry_gap (ar_state a) = Some (length [])"
    using unread gap by (simp_all add: archive_bytes_simps data)
  moreover have "512 dvd length ?rest + lack"
  proof -
    have "512 dvd (unat n + padding 512 (unat n)) + (length (archive_bytes es) + (length tail + lack))"
      by (rule dvd_add [OF dvd_add_padding dvd_add [OF dvd_length_archive_bytes [of _ E] aligned(2)]])
        (use fits in auto)
    then show ?thesis by (simp add: data add.assoc)
  qed
  ultimately show thesis
    using poll_next_entry_some [OF wf src _ _ hdr aligned(1), of "[]" ?rest] that hdr data by metis
qed

lemma archive_no_entry:
  assumes wf: "archive_wf a" and src: "block_source read rest"
    and gap: "entry_gap (ar_state a) = Some 0" and unread: "unread rest a = archive_bytes [] @ tail"
  obtains a1 where "poll_next_entry E read a = (Ok None, a1)" and "archive_wf a1"
    and "ar_state a1 = ReceivedEof" and "unread rest a1 = tail"
  using poll_next_entry_none [OF wf, of read rest "[]" tail E] assms that
  by (auto simp: block_source_def archive_bytes_simps)

lemma read_archive_entries:
  assumes "archive_wf a" and src: "block_source read rest" and room: "0 < room"
    and "\<And>e. e \<in> set es \<Longrightarrow> entry_fits E e"
    and "entry_gap (ar_state a) = Some 0" and "unread rest a = archive_bytes es @ tail"
    and "aligned lack rest (ar_io a)" and tail: "512 dvd length tail + lack"
  obtains a' where
    "read_archive E read room acc a =
      Some (Ok (acc @ map (\<lambda>e. (\<lparr>en_header = fst e\<rparr>, snd e)) es), a')"
    and "archive_wf a'" and "ar_state a' = ReceivedEof" and "unread rest a' = tail"
  using assms(1,4-7)
proof (induction es arbitrary: a acc thesis)
  case Nil
  from archive_no_entry [OF Nil.prems(2) src Nil.prems(4,5), of E] obtain a1
    where a1: "poll_next_entry E read a = (Ok None, a1)" "archive_wf a1"
      "ar_state a1 = ReceivedEof" "unread rest a1 = tail" .
  then have "read_archive E read room acc a = Some (Ok acc, a1)"
    by (simp add: read_archive.simps [of E read room acc a] next_entry_poll_def poll_next_entry_def
        [of E read a1])
  with a1 show ?case using Nil.prems(1) by simp
next
  case (Cons e es)
  let ?en = "\<lparr>en_header = fst e\<rparr>" and ?tail = "archive_bytes es @ tail"
  have seq: "sequential read rest" using src by (simp add: block_source_def)
  from archive_next_entry [OF Cons.prems(2) src Cons.prems(3) Cons.prems(4,5,6) tail] obtain n a1
    where hdr: "valid_header E (fst e) n" and data: "length (snd e) = unat n"
      and a1: "poll_next_entry E read a = (Ok (Some ?en), a1)" "archive_wf a1"
      "ar_state a1 = ReceivingData n"
      "unread rest a1 = snd e @ replicate (padding 512 (unat n)) 0 @ ?tail"
      "aligned lack rest (ar_io a1)" .
  have "replicate (padding 512 (unat n)) 0 @ ?tail \<noteq> []" by simp
  from read_entry_all_entry [OF a1(2) seq room a1(3) data a1(4) _ this, of E ?en lack]
  obtain a2 where a2: "read_entry_all E read ?en room [] a1 = Some (Ok (snd e), a2)"
      "archive_wf a2" "entry_gap (ar_state a2) = Some 0" "unread rest a2 = ?tail"
      "aligned lack rest (ar_io a2)"
    using valid_headerD(4,6) [OF hdr] src a1(5) by auto
  have loop: "read_archive E read room acc a = read_archive E read room (acc @ [(?en, snd e)]) a2"
    using a1(1) a2(1)
    by (simp add: read_archive.simps [of E read room acc a] next_entry_poll_def)
  show ?case
  proof (rule Cons.IH [of "acc @ [(?en, snd e)]", OF _ a2(2) _ a2(3,4,5)])
    show "entry_fits E e'" if "e' \<in> set es" for e' using Cons.prems(3) that by simp
  qed (use loop Cons.prems(1) in auto)
qed

section \<open>Archives that are cut short\<close>

text \<open>How many bytes the search for the next entry needs before it can answer.\<close>

fun missing :: "state \<Rightarrow> usize" where
  "missing ExpectingHeader = 512"
| "missing (ReceivingHeader rem is_empty) = rem"
| "missing (AligningData rem) = rem + 512"
| "missing (ReceivingEof rem) = rem"
| "missing _ = 0"

lemma next_state_none:
  assumes "archive_wf a" and "sequential read rest" and "unread rest a = []"
    and "\<not> is_terminal (ar_state a)"
  obtains a' where "poll_next_state E read h a = (Err unexpected_eof, a')"
proof (rule fill_none [OF assms])
  fix a'
  assume "poll_fill_buf read a = (Err unexpected_eof, a')"
  then have "poll_next_state E read h a = (Err unexpected_eof, a')"
    by (simp add: poll_next_state_def)
  then show thesis by (rule that)
qed

text \<open>The search makes one step, as long as there is something to read.\<close>

definition goes_on :: "state \<Rightarrow> bool" where
  "goes_on st \<longleftrightarrow> (\<exists>rem e. st = ReceivingHeader rem e) \<or> (\<exists>rem. st = ReceivingEof rem) \<or>
     (\<exists>rem. st = AligningData rem) \<or> st = AlignedData"

lemma short_transition:
  assumes "0 < length buf" and "length buf \<le> len" and "len < missing s"
    and zero: "\<forall>rem. s = ReceivingEof rem \<longrightarrow> all_zero buf"
  shows "\<exists>st amt st'. state_next E s buf None = Ok (st, amt) \<and> goes_on st \<and>
    settle E None st = Ok st' \<and> amt \<le> length buf \<and> len - amt < missing st' \<and>
    read_rank st' < read_rank s \<and>
    (\<forall>rem. st' = ReceivingEof rem \<longrightarrow> (\<exists>rem. s = ReceivingEof rem))"
proof (cases s)
  case ExpectingHeader
  with assms show ?thesis by (simp add: settle_def goes_on_def) (rule exI [of _ True], simp)
next
  case (ReceivingHeader rem e)
  with assms show ?thesis
    by (simp add: settle_def goes_on_def read_run_def advance_def Let_def min_absorb2)
next
  case (AligningData rem)
  with assms show ?thesis
    by (cases "rem \<le> length buf")
      (auto simp: settle_def goes_on_def advance_def Let_def min_absorb1 min_absorb2)
next
  case (ReceivingEof rem)
  with assms show ?thesis
    by (simp add: settle_def goes_on_def read_run_def advance_def Let_def min_absorb2)
qed (use assms(3) in auto)

lemma next_entry_short_step:
  assumes wf: "archive_wf a" and src: "sequential read rest" and some: "unread rest a \<noteq> []"
    and short: "length (unread rest a) < missing (ar_state a)"
    and zero: "\<forall>rem. ar_state a = ReceivingEof rem \<longrightarrow> all_zero (unread rest a)"
  obtains a' where "next_entry_loop E read a = next_entry_loop E read a'" and "archive_wf a'"
    and "length (unread rest a') < missing (ar_state a')"
    and "\<forall>rem. ar_state a' = ReceivingEof rem \<longrightarrow> all_zero (unread rest a')"
    and "read_rank (ar_state a') < read_rank (ar_state a)"
proof (rule next_state_some [OF wf src some, of E None])
  fix a1
  assume next_eq: "poll_next_state E read None a = (state_next E (ar_state a) (ar_bytes a1) None, a1)"
    and a1: "archive_wf a1" "ar_state a1 = ar_state a" "unread rest a1 = unread rest a"
      "ar_bytes a1 \<noteq> []"
  have buf: "0 < length (ar_bytes a1)" "length (ar_bytes a1) \<le> length (unread rest a)"
      "\<forall>rem. ar_state a = ReceivingEof rem \<longrightarrow> all_zero (ar_bytes a1)"
    using a1(3) [symmetric] a1(4) zero by (auto simp: unread_def)
  from short_transition [OF buf(1,2) short buf(3), of E] obtain st amt st'
    where st: "state_next E (ar_state a) (ar_bytes a1) None = Ok (st, amt)" "goes_on st"
      "settle E None st = Ok st'" "length (unread rest a) - amt < missing st'"
      "read_rank st' < read_rank (ar_state a)"
      "\<forall>rem. st' = ReceivingEof rem \<longrightarrow> (\<exists>rem. ar_state a = ReceivingEof rem)"
    by metis
  from next_entry_step [OF next_eq a1(1,2) st(1) st(2) [unfolded goes_on_def] st(3), of rest]
  obtain a2 where a2: "next_entry_loop E read a = next_entry_loop E read a2" "archive_wf a2"
      "ar_state a2 = st'" "unread rest a2 = drop amt (unread rest a1)"
    by metis
  have "all_zero (unread rest a2)" if "ar_state a2 = ReceivingEof rem" for rem
    using that zero st(6) a1(3) a2(3,4) by auto
  then show thesis
    using that [of a2] a1(3) a2 st(4,5) by simp
qed

lemma next_entry_short:
  assumes "archive_wf a" and src: "sequential read rest"
    and "length (unread rest a) < missing (ar_state a)"
    and "\<forall>rem. ar_state a = ReceivingEof rem \<longrightarrow> all_zero (unread rest a)"
  shows "\<exists>a'. next_entry_loop E read a = (Err unexpected_eof, a')"
  using assms(1,3,4)
proof (induction "read_rank (ar_state a)" arbitrary: a rule: less_induct)
  case less
  show ?case
  proof (cases "unread rest a = []")
    case True
    have going: "\<not> is_terminal (ar_state a)"
      using less.prems(2) by (cases "ar_state a") auto
    show ?thesis
      by (rule next_state_none [OF less.prems(1) src True going, of E None])
        (simp add: next_entry_loop.simps [of E read a])
  next
    case False
    from next_entry_short_step [OF less.prems(1) src False less.prems(2,3), of E] obtain a1
      where "next_entry_loop E read a = next_entry_loop E read a1" "archive_wf a1"
        "length (unread rest a1) < missing (ar_state a1)"
        "\<forall>rem. ar_state a1 = ReceivingEof rem \<longrightarrow> all_zero (unread rest a1)"
        "read_rank (ar_state a1) < read_rank (ar_state a)"
      by metis
    then show ?thesis using less.hyps by metis
  qed
qed

text \<open>The search for the next entry on what is left of an archive that was cut.\<close>

lemma poll_next_entry_short:
  assumes wf: "archive_wf a" and src: "sequential read rest"
    and gap: "entry_gap (ar_state a) = Some k" and short: "length (unread rest a) < k + 512"
  shows "\<exists>a'. poll_next_entry E read a = (Err unexpected_eof, a')"
proof -
  have "length (unread rest a) < missing (ar_state a)" "\<forall>rem. ar_state a \<noteq> ReceivingEof rem"
      "\<not> is_terminal (ar_state a)"
    using entry_gap_Some [OF gap] short by auto
  with next_entry_short [OF wf src, of E] show ?thesis
    by (simp add: poll_next_entry_def)
qed

lemma poll_next_entry_one_block:
  assumes wf: "archive_wf a" and src: "sequential read rest"
    and gap: "entry_gap (ar_state a) = Some 0"
    and unread: "unread rest a = replicate (512 + j) 0" and short: "j < 512"
  shows "\<exists>a'. poll_next_entry E read a = (Err unexpected_eof, a')"
proof -
  have "unread rest a = [] @ replicate 512 0 @ replicate j 0" and "entry_gap (ar_state a) = Some (length [])"
    using unread gap by (simp_all add: replicate_add)
  from next_entry_gap [OF wf src this(2,1), of E] obtain a1
    where a1: "poll_next_entry E read a = next_entry_loop E read a1" "archive_wf a1"
      "ar_state a1 = ReceivingHeader 512 True" "unread rest a1 = replicate 512 0 @ replicate j 0"
    by auto
  from next_entry_first_empty [OF a1(2) src a1(3,4), of E] obtain a2
    where a2: "next_entry_loop E read a1 = next_entry_loop E read a2" "archive_wf a2"
      "ar_state a2 = ReceivingEof 512" "unread rest a2 = replicate j 0"
    by auto
  then have "length (unread rest a2) < missing (ar_state a2)"
      "\<forall>rem. ar_state a2 = ReceivingEof rem \<longrightarrow> all_zero (unread rest a2)"
    using short by simp_all
  with next_entry_short [OF a2(2) src, of E] show ?thesis
    using a1(1) a2(1) by simp
qed

text \<open>Reading an entry that was cut.\<close>

lemma read_entry_padding_cut:
  assumes "archive_wf a" and src: "sequential read rest"
    and "ar_state a = AligningData k" and "length (unread rest a) < k \<or> unread rest a = []"
  shows "\<exists>a'. poll_read_entry E read hdr a = (Err unexpected_eof, a')"
  using assms(1,3,4)
proof (induction k arbitrary: a rule: less_induct)
  case (less k)
  show ?case
  proof (cases "unread rest a = []")
    case True
    have going: "\<not> is_terminal (ar_state a)" using less.prems(2) by simp
    show ?thesis
      by (rule next_state_none [OF less.prems(1) src True going, of E "Some hdr"])
        (simp add: poll_read_entry.simps [of E read hdr a])
  next
    case False
    show ?thesis
    proof (rule next_state_some [OF less.prems(1) src False, of E "Some hdr"])
      fix a1
      assume next_eq: "poll_next_state E read (Some hdr) a =
          (state_next E (ar_state a) (ar_bytes a1) (Some hdr), a1)"
        and a1: "archive_wf a1" "ar_state a1 = ar_state a" "unread rest a1 = unread rest a"
          "ar_bytes a1 \<noteq> []"
      let ?n = "length (ar_bytes a1)"
      have n: "0 < ?n" "?n < k" "length (unread rest a) < k"
        using a1(3) [symmetric] a1(4) False less.prems(3) by (auto simp: unread_def)
      have step: "state_next E (ar_state a1) (ar_bytes a1) h = Ok (AligningData (k - ?n), ?n)" for h
        using a1(2) less.prems(2) n by (simp add: advance_def Let_def)
      from consume_next [OF a1(1) step [of None], of "AligningData (k - ?n)"] obtain a2
        where a2: "archive_consume E ?n None a1 = (Ok (), a2)" "archive_wf a2"
          "ar_state a2 = AligningData (k - ?n)" "ar_bytes a2 = drop ?n (ar_bytes a1)"
          "ar_io a2 = ar_io a1"
        using n by (auto simp: settle_def)
      have "poll_read_entry E read hdr a = poll_read_entry E read hdr a2"
        using next_eq step a1(2) a2(1) by (simp add: poll_read_entry.simps [of E read hdr a])
      moreover have "length (unread rest a2) < k - ?n"
        using a1(3) [symmetric] a2(4,5) n by (simp add: unread_def)
      ultimately show ?thesis
        using less.IH [of "k - ?n" a2] a2(2,3) n by simp
    qed
  qed
qed

lemma read_entry_data_cut:
  assumes wf: "archive_wf a" and src: "sequential read rest" and st: "ar_state a = ReceivingData n"
    and none: "unread rest a = []"
  shows "\<exists>a'. poll_read_entry E read hdr a = (Err unexpected_eof, a')"
proof -
  have going: "\<not> is_terminal (ar_state a)" using st by simp
  show ?thesis
    by (rule next_state_none [OF wf src none going, of E "Some hdr"])
      (simp add: poll_read_entry.simps [of E read hdr a])
qed

lemma read_entry_all_Err:
  assumes "\<exists>a'. poll_read_entry E read (en_header en) a = (Err e, a')" and "0 < room"
  shows "\<exists>a'. read_entry_all E read en room acc a = Some (Err e, a')"
  using assms
  by (auto simp: read_entry_all.simps [of E read en room acc a] entry_poll_read_def
      entry_poll_fill_buf_def)

lemma read_entry_all_cut:
  assumes "archive_wf a" and src: "sequential read rest" and room: "0 < room"
    and "ar_state a = ReceivingData n \<and> 0 < unat n \<and> length data = unat n \<or>
      ar_state a = AligningData (length pad) \<and> data = []"
    and "unread rest a = take j (data @ pad)" and "length pad = padding 512 (unat tot)"
    and "j < length (data @ pad) \<or> pad = []"
    and size: "hdr_entry_size E (en_header en) = Inr tot"
      "\<not> debug_assertions E \<or> unat tot + 511 < 2 ^ 64"
  shows "\<exists>a'. read_entry_all E read en room acc a = Some (Err unexpected_eof, a')"
  using assms(1,4,5,7)
proof (induction "length data" arbitrary: a n data acc j rule: less_induct)
  case less
  from less.prems(2) show ?case
  proof
    assume "ar_state a = AligningData (length pad) \<and> data = []"
    with less.prems(3,4) read_entry_padding_cut [OF less.prems(1) src, of "length pad" E "en_header en"]
    have "\<exists>a'. poll_read_entry E read (en_header en) a = (Err unexpected_eof, a')" by auto
    then show ?thesis using room by (rule read_entry_all_Err)
  next
    assume st: "ar_state a = ReceivingData n \<and> 0 < unat n \<and> length data = unat n"
    show ?thesis
    proof (cases "unread rest a = []")
      case True
      show ?thesis
        by (rule read_entry_all_Err [OF read_entry_data_cut [OF less.prems(1) src _ True] room])
          (use st in simp)
    next
      case False
      from entry_read_data [OF less.prems(1) src False conjunct1 [OF st]
          conjunct1 [OF conjunct2 [OF st]] room size] obtain m a1
        where a1: "entry_poll_read E read en room a = (Ok (take m (unread rest a)), a1)"
          "0 < m" "m \<le> unat n" "m \<le> length (unread rest a)" "archive_wf a1"
          "ar_state a1 = (if m = unat n then AligningData (padding 512 (unat tot))
            else ReceivingData (n - word_of_nat m))"
          "unread rest a1 = drop m (unread rest a)"
        by metis
      have loop: "read_entry_all E read en room acc a =
          read_entry_all E read en room (acc @ take m (unread rest a)) a1"
        using a1(1,2) False by (simp add: read_entry_all.simps [of E read en room acc a])
      have "m \<le> j" using a1(4) less.prems(3) by simp
      then have rest: "unread rest a1 = take (j - m) (drop m data @ pad)"
        using a1(3,7) less.prems(3) st by (simp add: drop_take)
      have "j - m < length (drop m data @ pad) \<or> pad = []"
        using less.prems(4) a1(3) st \<open>m \<le> j\<close> by auto
      moreover have "length (drop m data) < length data" using a1(2,3) st by simp
      moreover have "ar_state a1 = ReceivingData (n - word_of_nat m) \<and> 0 < unat (n - word_of_nat m) \<and>
          length (drop m data) = unat (n - word_of_nat m) \<or>
        ar_state a1 = AligningData (length pad) \<and> drop m data = []"
        using a1(3,6) st unat_minus_of_nat [OF a1(3)] assms(6) by (cases "m = unat n") auto
      ultimately show ?thesis
        using less.hyps [of "drop m data" a1 "n - word_of_nat m" "j - m" "acc @ take m (unread rest a)"]
          a1(5) rest loop by simp
    qed
  qed
qed

lemma read_entry_all_entry_cut:
  assumes wf: "archive_wf a" and src: "sequential read rest" and room: "0 < room"
    and st: "ar_state a = ReceivingData n" and data: "length data = unat n"
    and unread: "unread rest a = take j (data @ pad)" and pad: "length pad = padding 512 (unat n)"
    and cut: "j < length (data @ pad) \<or> pad = []"
    and size: "hdr_entry_size E (en_header en) = Inr n"
      "\<not> debug_assertions E \<or> unat n + 511 < 2 ^ 64"
  shows "\<exists>a'. read_entry_all E read en room [] a = Some (Err unexpected_eof, a')"
proof (cases "unat n = 0")
  case False
  with st data have "ar_state a = ReceivingData n \<and> 0 < unat n \<and> length data = unat n \<or>
      ar_state a = AligningData (length pad) \<and> data = []" by simp
  from read_entry_all_cut [OF wf src room this unread pad cut size] show ?thesis .
next
  case True
  then have "unread rest a = []"
    using unread data pad by (simp add: padding_def)
  from read_entry_all_Err [OF read_entry_data_cut [OF wf src st this] room] show ?thesis .
qed

lemma read_archive_cut:
  assumes "archive_wf a" and src: "block_source read rest" and room: "0 < room"
    and "\<And>e. e \<in> set es \<Longrightarrow> entry_fits E e"
    and "entry_gap (ar_state a) = Some 0" and "unread rest a = take j (archive_bytes es)"
    and "j < length (archive_bytes es)"
    and "aligned lack rest (ar_io a)" and "lack = length (archive_bytes es) - j"
  shows "\<exists>a'. read_archive E read room acc a = Some (Err unexpected_eof, a')"
  using assms(1,4-9)
proof (induction es arbitrary: a acc j)
  case Nil
  have seq: "sequential read rest" using src by (simp add: block_source_def)
  have "\<exists>a'. poll_next_entry E read a = (Err unexpected_eof, a')"
  proof (cases "j < 512")
    case True
    then show ?thesis
      using poll_next_entry_short [OF Nil.prems(1) seq Nil.prems(3)] Nil.prems(4) by simp
  next
    case False
    then have "unread rest a = replicate (512 + (j - 512)) 0" "j - 512 < 512"
      using Nil.prems(4,5) by (simp_all add: archive_bytes_simps)
    from poll_next_entry_one_block [OF Nil.prems(1) seq Nil.prems(3) this] show ?thesis .
  qed
  then show ?case
    by (auto simp: read_archive.simps [of E read room acc a] next_entry_poll_def)
next
  case (Cons e es)
  obtain hdr data where e: "e = (hdr, data)" by (cases e)
  have seq: "sequential read rest" using src by (simp add: block_source_def)
  obtain n where hdr: "valid_header E hdr n" and data: "length data = unat n"
    using Cons.prems(2) [of e] e by (auto elim: entry_fitsE)
  note hdrD = valid_headerD [OF hdr]
  define pad where "pad = replicate (padding 512 (unat n)) (0 :: u8)"
  have bytes: "archive_bytes (e # es) = hdr @ data @ pad @ archive_bytes es"
    by (simp add: archive_bytes_simps e data pad_def)
  show ?case
  proof (cases "j < 512")
    case True
    then have "\<exists>a'. poll_next_entry E read a = (Err unexpected_eof, a')"
      using poll_next_entry_short [OF Cons.prems(1) seq Cons.prems(3)] Cons.prems(4) by simp
    then show ?thesis
      by (auto simp: read_archive.simps [of E read room acc a] next_entry_poll_def)
  next
    case False
    note j = this
    define tail where "tail = take (j - 512) (data @ pad @ archive_bytes es)"
    have unread: "unread rest a = [] @ hdr @ tail" and gap: "entry_gap (ar_state a) = Some (length [])"
      using Cons.prems(3,4) False hdrD(1) by (simp_all add: bytes tail_def)
    have total: "length tail + lack = length (data @ pad) + length (archive_bytes es)"
      using Cons.prems(5,7) False hdrD(1) by (simp add: bytes tail_def)
    have "512 dvd length (data @ pad)"
      using dvd_add_padding [of 512 "unat n"] data by (simp add: pad_def)
    then have "512 dvd length tail + lack"
      using dvd_length_archive_bytes [of es E] Cons.prems(2) unfolding total by (intro dvd_add) auto
    from poll_next_entry_some [OF Cons.prems(1) src gap unread hdr Cons.prems(6) this] obtain a1
      where a1: "poll_next_entry E read a = (Ok (Some \<lparr>en_header = hdr\<rparr>), a1)" "archive_wf a1"
        "ar_state a1 = ReceivingData n" "unread rest a1 = tail" "aligned lack rest (ar_io a1)" .
    have loop: "read_archive E read room acc a =
        Option.bind (read_entry_all E read \<lparr>en_header = hdr\<rparr> room [] a1)
          (\<lambda>r. loop_then r (\<lambda>bs a. read_archive E read room (acc @ [(\<lparr>en_header = hdr\<rparr>, bs)]) a))"
      using a1(1) by (simp add: read_archive.simps [of E read room acc a] next_entry_poll_def)
    note size = hdrD(4,6)
    let ?k = "length (data @ pad)"
    define tail' where "tail' = take (j - 512 - ?k) (archive_bytes es)"
    show ?thesis
    proof (cases "?k \<le> j - 512 \<and> pad @ tail' \<noteq> []")
      case True
      then have le: "length data + length pad \<le> j - 512" by simp
      then have "length pad \<le> j - 512 - length data" by arith
      with True have "unread rest a1 = data @ pad @ tail'"
        using a1(4) by (simp add: tail_def tail'_def add.assoc)
      from read_entry_all_entry [OF a1(2) seq room a1(3) data this _ conjunct2 [OF True], of E
          "\<lparr>en_header = hdr\<rparr>" lack] size src a1(5)
      obtain a2 where a2: "read_entry_all E read \<lparr>en_header = hdr\<rparr> room [] a1 = Some (Ok data, a2)"
          "archive_wf a2" "entry_gap (ar_state a2) = Some 0" "unread rest a2 = tail'"
          "aligned lack rest (ar_io a2)"
        by (auto simp: pad_def)
      have "j - 512 - ?k < length (archive_bytes es)" "lack = length (archive_bytes es) - (j - 512 - ?k)"
        using Cons.prems(5,7) le j hdrD(1) by (simp_all add: bytes; arith)+
      with Cons.IH [of a2 "j - 512 - ?k"] Cons.prems(2) a2 show ?thesis
        by (simp add: loop tail'_def)
    next
      case False
      then have cut: "j - 512 < ?k \<or> pad = []" by auto
      have rest: "unread rest a1 = take (j - 512) (data @ pad)"
        using False a1(4) unfolding tail_def tail'_def
        by (cases "?k \<le> j - 512") (auto simp: take_append)
      have len: "length pad = padding 512 (unat n)" by (simp add: pad_def)
      from read_entry_all_entry_cut [OF a1(2) seq room a1(3) data rest len cut, of E "\<lparr>en_header = hdr\<rparr>"]
      have "\<exists>a'. read_entry_all E read \<lparr>en_header = hdr\<rparr> room [] a1 = Some (Err unexpected_eof, a')"
        using size by simp
      then show ?thesis by (auto simp: loop)
    qed
  qed
qed

section \<open>Properties of reading\<close>

text \<open>From the construction of the archive to the last entry.\<close>

lemma read_archive_whole:
  assumes "block_source read rest" and "0 < room"
    and "0 < capacity" and "capacity * 512 \<le> usize_max"
    and "list_all (entry_fits E) es" and "rest io = archive_bytes es @ tail"
  shows "\<exists>a a'. archive_with_capacity io capacity = Ok a \<and>
    read_archive E read room [] a =
      Some (Ok (map (\<lambda>e. (\<lparr>en_header = fst e\<rparr>, snd e)) es), a') \<and>
    unread rest a' = tail"
proof -
  have fits: "\<And>e. e \<in> set es \<Longrightarrow> entry_fits E e"
    using assms(5) by (simp add: list_all_iff)
  obtain a where a: "archive_with_capacity io capacity = Ok a" "archive_wf a"
      "ar_state a = ExpectingHeader" "ar_io a = io" "ar_bytes a = []"
    using archive_with_capacity_Ok [OF assms(3,4)] by metis
  have "512 dvd length (archive_bytes es) + (length tail + padding 512 (length tail))"
    by (rule dvd_add [OF dvd_length_archive_bytes [of _ E] dvd_add_padding]) (use fits in auto)
  then have "aligned (padding 512 (length tail)) rest (ar_io a)"
    using assms(6) a(4) by (simp add: aligned_def add.assoc)
  from read_archive_entries [OF a(2) assms(1,2) fits _ _ this, of es tail "[]"] obtain a'
    where "read_archive E read room [] a = Some (Ok (map (\<lambda>e. (\<lparr>en_header = fst e\<rparr>, snd e)) es), a')"
      "unread rest a' = tail"
    using a assms(6) by (auto simp: unread_def dvd_add_padding)
  with a(1) show ?thesis by blast
qed

text \<open>
  C1. Reading decodes an archive: over every source of whole blocks, with every buffer
  capacity and every size of the client's own buffer, the loops of the client end and
  return exactly the entries of the archive, headers and data, and nothing beyond the end
  of the archive has been taken from the stream.
\<close>

theorem read_archive_decodes:
  assumes "block_source read rest" and "0 < room"
    and "0 < capacity" and "capacity * 512 \<le> usize_max"
    and "list_all (entry_fits E) es" and "rest io = archive_bytes es @ tail"
  shows "\<exists>a a'. archive_with_capacity io capacity = Ok a \<and>
    read_archive E read room [] a =
      Some (Ok (map (\<lambda>e. (\<lparr>en_header = fst e\<rparr>, snd e)) es), a') \<and>
    unread rest a' = tail"
  by (rule read_archive_whole [OF assms])

theorem read_archive_decodes_witness:
  "\<exists>a a'. archive_with_capacity
      (archive_bytes [(sample_header 3, [1, 2, 3]), (sample_header 0, [])] @ [9]) 1 = Ok a \<and>
    read_archive (sample_cfg True) cursor_read 2 [] a =
      Some (Ok [(\<lparr>en_header = sample_header 3\<rparr>, [1, 2, 3]), (\<lparr>en_header = sample_header 0\<rparr>, [])], a') \<and>
    unread (\<lambda>r. r) a' = [9]"
  using read_archive_decodes [OF cursor_block_source, of 2 1
      "sample_cfg True" "[(sample_header 3, [1, 2, 3]), (sample_header 0, [])]"
      "archive_bytes [(sample_header 3, [1, 2, 3]), (sample_header 0, [])] @ [9]" "[9]"]
  by (simp add: usize_max_def usize_bits_def)

lemma read_archive_cut_short:
  assumes "block_source read rest" and "0 < room"
    and "0 < capacity" and "capacity * 512 \<le> usize_max"
    and "list_all (entry_fits E) es"
    and "rest io = take j (archive_bytes es)" and "j < length (archive_bytes es)"
  shows "\<exists>a a'. archive_with_capacity io capacity = Ok a \<and>
    read_archive E read room [] a = Some (Err unexpected_eof, a')"
proof -
  have fits: "\<And>e. e \<in> set es \<Longrightarrow> entry_fits E e"
    using assms(5) by (simp add: list_all_iff)
  obtain a where a: "archive_with_capacity io capacity = Ok a" "archive_wf a"
      "ar_state a = ExpectingHeader" "ar_io a = io" "ar_bytes a = []"
    using archive_with_capacity_Ok [OF assms(3,4)] by metis
  let ?lack = "length (archive_bytes es) - j"
  have "length (rest io) + ?lack = length (archive_bytes es)"
    using assms(6,7) by simp
  then have "aligned ?lack rest (ar_io a)"
    using dvd_length_archive_bytes [of es E] fits a(4) by (simp add: aligned_def)
  with read_archive_cut [OF a(2) assms(1,2) fits _ _ assms(7) _ refl, of "[]"] a assms(6) show ?thesis
    by (simp add: unread_def)
qed

text \<open>
  C4. A truncated archive is never taken for a complete one: over a source that is always
  ready and is read in whole blocks but for its end, wherever the stream of an archive is
  cut, the client gets the error \<open>UnexpectedEof\<close>. (A source that delivers a header in pieces
  makes the reader panic: \<open>split_header\<close>.)
\<close>

theorem read_archive_truncated:
  assumes "block_source read rest" and "0 < room"
    and "0 < capacity" and "capacity * 512 \<le> usize_max"
    and "list_all (entry_fits E) es"
    and "rest io = take j (archive_bytes es)" and "j < length (archive_bytes es)"
  shows "\<exists>a a'. archive_with_capacity io capacity = Ok a \<and>
    read_archive E read room [] a = Some (Err (IoError UnexpectedEof ''unexpected end of file''), a')"
  using read_archive_cut_short [OF assms] by (simp add: unexpected_eof_def)

theorem read_archive_truncated_witness:
  "\<exists>a a'. archive_with_capacity
      (take 1000 (archive_bytes [(sample_header 3, [1, 2, 3])])) 1 = Ok a \<and>
    read_archive (sample_cfg True) cursor_read 2 [] a =
      Some (Err (IoError UnexpectedEof ''unexpected end of file''), a')"
  using read_archive_truncated [OF cursor_block_source, of 2 1
      "sample_cfg True" "[(sample_header 3, [1, 2, 3])]"
      "take 1000 (archive_bytes [(sample_header 3, [1, 2, 3])])" 1000]
  by (simp add: usize_max_def usize_bits_def archive_bytes_simps)

end
