(* ===== verification/Edge_Cases.thy ===== *)
theory Edge_Cases
  imports Decoding
begin

text \<open>
  What reading does at the edges of its contract: skipping an entry, reading past the end
  of an entry, empty entries, headers that arrive in pieces and headers whose size field
  cannot be read.
\<close>

section \<open>A source that delivers the stream in pieces\<close>

text \<open>
  A socket or a pipe returns what has arrived, in pieces of any length; each element of the
  list is one piece. It is a sequential source, but not one of whole blocks.
\<close>

fun pieces_read :: "bytes list reader" where
  "pieces_read [] room = (Ok [], [])"
| "pieces_read (p # ps) room =
     (if length p \<le> room then (Ok p, ps) else (Ok (take room p), drop room p # ps))"

text \<open>One step of the search on a piece that has just arrived.\<close>

lemma next_state_piece:
  assumes wf: "archive_wf a" and empty: "ar_bytes a = []" and io: "ar_io a = p # ps"
    and p: "p \<noteq> []" "length p \<le> ar_capacity a"
  obtains a' where "poll_next_state E pieces_read h a = (state_next E (ar_state a) p h, a')"
    and "archive_wf a'" and "ar_state a' = ar_state a" and "ar_bytes a' = p" and "ar_io a' = ps"
    and "ar_capacity a' = ar_capacity a"
proof -
  have "pieces_read (ar_io a) (ar_capacity a) = (Ok p, ps)"
    using io p by simp
  from poll_fill_buf_empty [of a pieces_read "Ok p" ps, OF wf empty this] p obtain a'
    where a': "poll_fill_buf pieces_read a = (Ok (), a')" "ar_bytes a' = p" "ar_io a' = ps"
      "ar_state a' = ar_state a" "ar_capacity a' = ar_capacity a" "archive_wf a'"
    by auto
  then have "poll_next_state E pieces_read h a = (state_next E (ar_state a) p h, a')"
    by (simp add: poll_next_state_def buffered_bytes_eq archive_wfD)
  then show thesis using that a' by blast
qed

lemma next_state_buffered:
  assumes "archive_wf a" and "ar_bytes a \<noteq> []"
  shows "poll_next_state E read h a = (state_next E (ar_state a) (ar_bytes a) h, a)"
  using assms by (simp add: poll_next_state_def poll_fill_buf_buffered buffered_bytes_eq archive_wfD)

lemma split_header_panics:
  assumes start: "archive_with_capacity (take k hdr # drop k hdr # ps) capacity = Ok a"
    and cap: "0 < capacity" and hdr: "length hdr = 512" "\<not> all_zero hdr" and k: "0 < k" "k < 512"
  shows "\<exists>a'. poll_next_entry E pieces_read a = (Panic IndexOutOfRange, a')"
proof -
  note a = archive_with_capacity_start [OF start cap]
  have pieces: "take k hdr \<noteq> []" "drop k hdr \<noteq> []" "length (take k hdr) \<le> ar_capacity a"
      "length (drop k hdr) \<le> ar_capacity a" "length (take k hdr) = k" "length (drop k hdr) = 512 - k"
    using a(5) cap hdr k by auto
  have zero: "\<not> (all_zero (take k hdr) \<and> all_zero (drop k hdr))"
    using hdr(2) all_zero_simps(3) [of "take k hdr" "drop k hdr"] by simp
  let ?st = "ReceivingHeader (512 - k) (all_zero (take k hdr))"
  obtain a1 where a1: "poll_next_state E pieces_read None a =
        (state_next E (ar_state a) (take k hdr) None, a1)" "archive_wf a1"
      "ar_state a1 = ar_state a" "ar_bytes a1 = take k hdr" "ar_io a1 = drop k hdr # ps"
      "ar_capacity a1 = ar_capacity a"
    using next_state_piece [OF a(1,4,3) pieces(1,3), of E None] by metis
  have step1: "state_next E (ar_state a1) (ar_bytes a1) None = Ok (ReceivingHeader 512 True, 0)"
    using a(2) a1(3) by simp
  obtain a2 where a2: "archive_consume E 0 None a1 = (Ok (), a2)" "archive_wf a2"
      "ar_state a2 = ReceivingHeader 512 True" "ar_bytes a2 = take k hdr" "ar_io a2 = drop k hdr # ps"
      "ar_capacity a2 = ar_capacity a"
    using consume_next [OF a1(2) step1, of "ReceivingHeader 512 True"] a1(4,5,6)
    by (auto simp: settle_def)
  have step2: "state_next E (ar_state a2) (ar_bytes a2) None = Ok (?st, k)"
    using a2(3,4) k hdr(1) by (simp add: read_run_def advance_def)
  obtain a3 where a3: "archive_consume E k None a2 = (Ok (), a3)" "archive_wf a3"
      "ar_state a3 = ?st" "ar_bytes a3 = []" "ar_io a3 = drop k hdr # ps"
      "ar_capacity a3 = ar_capacity a"
    using consume_next [OF a2(2) step2, of ?st] a2(4,5,6) k by (auto simp: settle_def)
  obtain a4 where a4: "poll_next_state E pieces_read None a3 =
        (state_next E (ar_state a3) (drop k hdr) None, a4)" "archive_wf a4"
      "ar_bytes a4 = drop k hdr"
    using next_state_piece [OF a3(2,4,5) pieces(2), of E None] pieces(4) a3(6) by metis
  have "state_next E (ar_state a3) (drop k hdr) None = Ok (ReceivedHeader, 512 - k)"
    using a3(3) k hdr(1) zero by (auto simp: read_run_def advance_def)
  moreover have "\<not> 512 \<le> 512 - k" using k by simp
  ultimately have "next_entry_loop E pieces_read a3 = (Panic IndexOutOfRange, a4)"
    using a4 hdr(1)
    by (simp add: next_entry_loop.simps [of E pieces_read a3] buffered_bytes_eq archive_wfD slice_to_def)
  moreover have "next_entry_loop E pieces_read a = next_entry_loop E pieces_read a2"
    by (rule next_entry_continue [OF _ a2(1)]) (use a1(1,3) step1 a(2) in auto)
  moreover have "next_entry_loop E pieces_read a2 = next_entry_loop E pieces_read a3"
    by (rule next_entry_continue [OF _ a3(1)])
      (use next_state_buffered [OF a2(2), of E pieces_read None] a2(4) pieces(1) step2 in auto)
  ultimately show ?thesis
    using a(2) by (simp add: poll_next_entry_def)
qed

section \<open>Skipping and reading on\<close>

lemma skip_empty_entry_panics:
  assumes wf: "archive_wf a" and src: "sequential read rest" and some: "unread rest a \<noteq> []"
    and st: "ar_state a = ReceivingData 0"
  shows "\<exists>a'. entry_poll_skip E read en a = (Panic AssertFailed, a')"
proof (rule read_entry_data [OF wf src some st, of E "en_header en"])
  fix a'
  assume "poll_read_entry E read (en_header en) a = (Ok (take (unat 0) (ar_bytes a')), a')"
    and "ar_state a' = ReceivingData 0"
  then show ?thesis
    by (simp add: entry_poll_skip_def poll_skip_entry.simps [of E read "en_header en" a])
qed

lemma read_past_end_panics:
  assumes wf: "archive_wf a" and src: "sequential read rest" and some: "unread rest a \<noteq> []"
    and st: "ar_state a = ReceivingHeader 512 True" and room: "0 < room"
  shows "\<exists>a'. entry_poll_read E read en room a = (Panic UnreachableCode, a')"
proof (rule next_state_some [OF wf src some, of E "Some (en_header en)"])
  fix a'
  assume "poll_next_state E read (Some (en_header en)) a =
      (state_next E (ar_state a) (ar_bytes a') (Some (en_header en)), a')"
  with st have "poll_read_entry E read (en_header en) a = (Panic UnreachableCode, a')"
    by (simp add: poll_read_entry.simps [of E read "en_header en" a] read_run_def Let_def)
  with room show ?thesis
    by (simp add: entry_poll_read_def entry_poll_fill_buf_def)
qed

section \<open>Headers without a readable size\<close>

lemma consume_panics:
  assumes wf: "archive_wf a" and amt: "amt \<le> length (ar_bytes a)"
    and take: "take_slices E (ar_state a) [take amt (ar_bytes a)] h = Ok (st, amt)"
    and settle: "settle E h st = Panic p"
  shows "archive_consume E amt h a = (Panic p, a)"
proof -
  note facts = archive_wfD [OF wf]
  let ?reg = "\<lparr>rg_buf = take (buf_cap (ar_buf a)) (buf_store (ar_buf a)), rg_pos = buf_pos (ar_buf a)\<rparr>"
  have "rg_len checks ?reg = Ok (length (ar_bytes a))" "rg_bytes ?reg = Ok (ar_bytes a)" for checks
    using facts(1) by (simp_all add: rg_len_def rg_bytes_def rg.remaining_eq rg.bytes_eq
        buf_contents_def buf_wf_def)
  then show ?thesis
    using amt take settle
    by (simp add: archive_consume_def buffered_eq [OF facts(1)] slice_in_range)
qed

lemma unreadable_size_panics:
  assumes wf: "archive_wf a" and src: "block_source read rest"
    and aligned: "aligned lack rest (ar_io a)" "512 dvd length tail + lack"
    and gap: "entry_gap (ar_state a) = Some 0" and unread: "unread rest a = hdr @ tail"
    and hdr: "length hdr = 512" "\<not> all_zero hdr" "hdr_cksum E hdr = Inr (calc_cksum hdr)"
      "hdr_entry_size E hdr = Inl e"
  shows "\<exists>a'. poll_next_entry E read a = (Panic UnwrapFailed, a')"
proof -
  have seq: "sequential read rest" using src by (simp add: block_source_def)
  have "hdr @ tail \<noteq> []" "unread rest a = [] @ hdr @ tail" "entry_gap (ar_state a) = Some (length [])"
    using hdr(1) unread gap by auto
  from next_entry_gap [OF wf seq this(3,2,1), of E lack] obtain a1
    where a1: "poll_next_entry E read a = next_entry_loop E read a1" "archive_wf a1"
      "ar_state a1 = ReceivingHeader 512 True" "unread rest a1 = hdr @ tail"
      "aligned lack rest (ar_io a1)"
    using src aligned(1) by metis
  from next_state_header [OF a1(2) src a1(5) aligned(2) a1(3,4) hdr(1,2), of E None] obtain a2
    where a2: "poll_next_state E read None a1 = (Ok (ReceivedHeader, 512), a2)" "archive_wf a2"
      "ar_state a2 = ReceivingHeader 512 True" "512 \<le> length (ar_bytes a2)"
      "take 512 (ar_bytes a2) = hdr" .
  have "take_slices E (ar_state a2) [take 512 (ar_bytes a2)] (Some hdr) = Ok (ReceivedHeader, 512)"
    by (rule take_slices_exact) (use a2(3-5) hdr in \<open>simp add: read_run_def advance_def\<close>)
  moreover have "settle E (Some hdr) ReceivedHeader = Panic UnwrapFailed"
    using hdr(4) by (simp add: settle_def entry_size_of_def)
  ultimately have "archive_consume E 512 (Some hdr) a2 = (Panic UnwrapFailed, a2)"
    by (rule consume_panics [OF a2(2,4)])
  then have "next_entry_loop E read a1 = (Panic UnwrapFailed, a2)"
    using a2(1,2,4,5) hdr
    by (simp add: next_entry_loop.simps [of E read a1] buffered_bytes_eq archive_wfD slice_in_range
        from_bytes_as_bytes as_header_eq)
  with a1(1) show ?thesis by simp
qed

section \<open>The first entry of an archive\<close>

lemma first_entry:
  assumes src: "block_source read rest" and cap: "0 < capacity"
    and start: "archive_with_capacity io capacity = Ok a"
    and hdr: "valid_header E hdr n" and stream: "rest io = hdr @ tail"
  obtains a' where "next_entry_poll E read a = (Ok (Some \<lparr>en_header = hdr\<rparr>), a')"
    and "archive_wf a'" and "ar_state a' = ReceivingData n" and "unread rest a' = tail"
proof -
  note a = archive_with_capacity_start [OF start cap]
  let ?lack = "padding 512 (length tail)"
  have "512 dvd 512 + (length tail + ?lack)"
    by (rule dvd_add [OF dvd_refl dvd_add_padding]) simp
  then have "aligned ?lack rest (ar_io a)"
    using stream valid_headerD(1) [OF hdr] a(3) by (simp add: aligned_def add.assoc)
  moreover have "unread rest a = [] @ hdr @ tail" "entry_gap (ar_state a) = Some (length [])"
    using stream a by (simp_all add: unread_def)
  ultimately obtain a' where "poll_next_entry E read a = (Ok (Some \<lparr>en_header = hdr\<rparr>), a')"
      "archive_wf a'" "ar_state a' = ReceivingData n" "unread rest a' = tail"
    using poll_next_entry_some [OF a(1) src _ _ hdr _ dvd_add_padding, of "[]" tail]
    by (metis zero_less_numeral)
  then show thesis
    using that by (simp add: next_entry_poll_def)
qed

section \<open>Properties at the edges\<close>

text \<open>
  C30. Skipping: from anywhere within the data of an entry that is not empty, \<open>skip\<close>
  succeeds and leaves the archive exactly at the end of the padding, expecting a header.
\<close>

theorem entry_skip_correct:
  assumes "archive_wf a" and "sequential read rest"
    and "ar_state a = ReceivingData n" and "0 < unat n" and "length data = unat n"
    and "unread rest a = data @ pad @ tail" and "length pad = padding 512 (unat tot)"
    and "tail \<noteq> []" and "hdr_entry_size E (en_header en) = Inr tot"
    and "\<not> debug_assertions E \<or> unat tot + 511 < 2 ^ 64"
  shows "\<exists>a'. entry_poll_skip E read en a = (Ok (), a') \<and> archive_wf a' \<and>
    ar_state a' = ExpectingHeader \<and> unread rest a' = tail"
proof -
  have "ar_state a = ReceivingData n \<and> 0 < unat n \<and> length data = unat n \<or>
      ar_state a = AligningData (length pad) \<and> data = []"
    using assms(3-5) by simp
  from skip_entry_rest [OF assms(1,2) this assms(6-10)] show ?thesis
    by (metis entry_poll_skip_def)
qed

theorem entry_skip_correct_witness:
  "\<exists>a'. entry_poll_skip (sample_cfg True) cursor_read \<lparr>en_header = sample_header 3\<rparr>
      \<lparr>ar_buf = buf_new 512, ar_state = ReceivingData 2,
        ar_io = [8, 9] @ replicate 509 0 @ [1, 2, 3]\<rparr> = (Ok (), a') \<and> archive_wf a' \<and>
    ar_state a' = ExpectingHeader \<and> unread (\<lambda>r. r) a' = [1, 2, 3]"
proof -
  let ?a = "\<lparr>ar_buf = buf_new 512, ar_state = ReceivingData 2,
    ar_io = [8, 9] @ replicate 509 0 @ [1, 2, 3] :: bytes\<rparr>"
  have "archive_wf ?a"
    by simp
  moreover have "sequential cursor_read (\<lambda>r. r)"
    using cursor_block_source by (simp add: block_source_def)
  moreover have "unread (\<lambda>r. r) ?a = [8, 9] @ replicate 509 0 @ [1, 2, 3]"
    by (simp add: unread_def buf_contents_def buf_new_def)
  ultimately show ?thesis
    using entry_skip_correct [of ?a cursor_read "\<lambda>r. r" 2 "[8, 9]" "replicate 509 0" "[1, 2, 3]" 3
        "sample_cfg True" "\<lparr>en_header = sample_header 3\<rparr>"]
    by (simp add: padding_def)
qed

text \<open>
  C34. An empty entry cannot be skipped: \<open>skip\<close> on an entry without data, straight after
  \<open>next_entry\<close> returned it, panics instead of going to the next header.
\<close>

theorem skip_empty_entry:
  assumes "block_source read rest" and "0 < capacity"
    and "archive_with_capacity io capacity = Ok a"
    and "entry_fits E (hdr, [])" and "rest io = archive_bytes ((hdr, []) # es)"
  shows "\<exists>a1 a2. next_entry_poll E read a = (Ok (Some \<lparr>en_header = hdr\<rparr>), a1) \<and>
    entry_poll_skip E read \<lparr>en_header = hdr\<rparr> a1 = (Panic AssertFailed, a2)"
proof -
  have hdr: "valid_header E hdr 0"
    using assms(4) by (auto elim!: entry_fitsE simp: unat_eq_zero)
  have stream: "rest io = hdr @ archive_bytes es"
    using assms(5) by (simp add: archive_bytes_simps padding_def)
  obtain a1 where a1: "next_entry_poll E read a = (Ok (Some \<lparr>en_header = hdr\<rparr>), a1)" "archive_wf a1"
      "ar_state a1 = ReceivingData 0" "unread rest a1 = archive_bytes es"
    using first_entry [OF assms(1-3) hdr stream] .
  have "sequential read rest" using assms(1) by (simp add: block_source_def)
  from skip_empty_entry_panics [OF a1(2) this _ a1(3)] show ?thesis
    using a1(1,4) by auto
qed

theorem skip_empty_entry_witness:
  "\<exists>a a1 a2. archive_with_capacity (archive_bytes [(sample_header 0, [])]) 2 = Ok a \<and>
    next_entry_poll (sample_cfg True) cursor_read a = (Ok (Some \<lparr>en_header = sample_header 0\<rparr>), a1) \<and>
    entry_poll_skip (sample_cfg True) cursor_read \<lparr>en_header = sample_header 0\<rparr> a1 =
      (Panic AssertFailed, a2)"
proof -
  obtain a where "archive_with_capacity (archive_bytes [(sample_header 0, [])]) 2 = Ok a"
    by (rule archive_with_capacity_Ok [of 2]) (simp_all add: usize_max_def usize_bits_def)
  then show ?thesis
    using skip_empty_entry [OF cursor_block_source, of 2 "archive_bytes [(sample_header 0, [])]" a
        "sample_cfg True" "sample_header 0" "[]"]
    by simp
qed

text \<open>
  C31. Reading an entry that has data again after it reported its end panics, where a reader at
  its end is expected to go on returning nothing: over a source that is always ready, when
  something follows the padding in the stream, reading from the first byte of the data to
  the end returns all of it, and the next read with room for a byte panics.
\<close>

theorem read_after_end:
  assumes "archive_wf a" and "sequential read rest" and "0 < room"
    and "ar_state a = ReceivingData n" and "0 < unat n" and "length data = unat n"
    and "unread rest a = data @ pad @ tail" and "length pad = padding 512 (unat n)"
    and "tail \<noteq> []" and "hdr_entry_size E (en_header en) = Inr n"
    and "\<not> debug_assertions E \<or> unat n + 511 < 2 ^ 64"
  shows "\<exists>a1 a2. read_entry_all E read en room [] a = Some (Ok data, a1) \<and>
    entry_poll_read E read en room a1 = (Panic UnreachableCode, a2)"
proof -
  have st: "ar_state a = ReceivingData n \<and> 0 < unat n \<and> length data = unat n \<or>
      ar_state a = AligningData (length pad) \<and> data = []"
    using assms(4-6) by simp
  have "pad @ tail \<noteq> []" using assms(9) by simp
  from read_entry_all_rest [OF assms(1-3) st assms(7,8) this assms(10,11), of "[]"] obtain a1
    where a1: "read_entry_all E read en room [] a = Some (Ok data, a1)" "archive_wf a1"
      "ar_state a1 = ReceivingHeader 512 True" "unread rest a1 = tail"
    by (metis append_Nil)
  with read_past_end_panics [OF a1(2) assms(2) _ a1(3) assms(3)] assms(9) show ?thesis by metis
qed

theorem read_after_end_witness:
  "\<exists>a1 a2. read_entry_all (sample_cfg True) cursor_read \<lparr>en_header = sample_header 2\<rparr> 1 []
      \<lparr>ar_buf = buf_new 512, ar_state = ReceivingData 2,
        ar_io = [8, 9] @ replicate 510 0 @ [1, 2, 3]\<rparr> = Some (Ok [8, 9], a1) \<and>
    entry_poll_read (sample_cfg True) cursor_read \<lparr>en_header = sample_header 2\<rparr> 1 a1 =
      (Panic UnreachableCode, a2)"
proof -
  let ?a = "\<lparr>ar_buf = buf_new 512, ar_state = ReceivingData 2,
    ar_io = [8, 9] @ replicate 510 0 @ [1, 2, 3] :: bytes\<rparr>"
  have "archive_wf ?a"
    by simp
  moreover have "sequential cursor_read (\<lambda>r. r)"
    using cursor_block_source by (simp add: block_source_def)
  moreover have "unread (\<lambda>r. r) ?a = [8, 9] @ replicate 510 0 @ [1, 2, 3]"
    by (simp add: unread_def buf_contents_def buf_new_def)
  ultimately show ?thesis
    using read_after_end [of ?a cursor_read "\<lambda>r. r" 1 2 "[8, 9]" "replicate 510 0" "[1, 2, 3]"
        "sample_cfg True" "\<lparr>en_header = sample_header 2\<rparr>"]
    by (simp add: padding_def)
qed

text \<open>
  C35. A header that arrives in two pieces makes the reader panic: over a source that returns
  what has arrived, any cut within the first header is fatal, whatever the header.
\<close>

theorem split_header:
  assumes "archive_with_capacity (take k hdr # drop k hdr # ps) capacity = Ok a"
    and "0 < capacity" and "length hdr = 512" and "\<not> all_zero hdr" and "0 < k" and "k < 512"
  shows "\<exists>a'. next_entry_poll E pieces_read a = (Panic IndexOutOfRange, a')"
  using split_header_panics [OF assms, of E] by (auto simp: next_entry_poll_def)

theorem split_header_witness:
  "\<exists>a a'. archive_with_capacity
      [take 100 (sample_header 3), drop 100 (sample_header 3), [1, 2, 3]] 8 = Ok a \<and>
    next_entry_poll (sample_cfg True) pieces_read a = (Panic IndexOutOfRange, a')"
proof -
  obtain a where "archive_with_capacity
      [take 100 (sample_header 3), drop 100 (sample_header 3), [1, 2, 3]] 8 = Ok a"
    by (rule archive_with_capacity_Ok [of 8]) (simp_all add: usize_max_def usize_bits_def)
  then show ?thesis
    using split_header [of 100 "sample_header 3" "[[1, 2, 3]]" 8 a "sample_cfg True"] by simp
qed

text \<open>
  C36. A header whose checksum is right but whose size field cannot be read makes the reader
  panic instead of returning the error of the header.
\<close>

theorem unreadable_size:
  assumes "block_source read rest" and "0 < capacity"
    and "archive_with_capacity io capacity = Ok a" and "rest io = hdr @ tail"
    and "length hdr = 512" and "\<not> all_zero hdr" and "hdr_cksum E hdr = Inr (calc_cksum hdr)"
    and "hdr_entry_size E hdr = Inl e"
  shows "\<exists>a'. next_entry_poll E read a = (Panic UnwrapFailed, a')"
proof -
  note a = archive_with_capacity_start [OF assms(3,2)]
  let ?lack = "padding 512 (length tail)"
  have "512 dvd 512 + (length tail + ?lack)"
    by (rule dvd_add [OF dvd_refl dvd_add_padding]) simp
  then have "aligned ?lack rest (ar_io a)"
    using assms(4,5) a(3) by (simp add: aligned_def add.assoc)
  moreover have "unread rest a = hdr @ tail" "entry_gap (ar_state a) = Some 0"
    using assms(4) a by (simp_all add: unread_def)
  ultimately obtain a' where "poll_next_entry E read a = (Panic UnwrapFailed, a')"
    using unreadable_size_panics [OF a(1) assms(1) _ dvd_add_padding _ _ assms(5-8)]
    by (metis zero_less_numeral)
  then show ?thesis by (simp add: next_entry_poll_def)
qed

theorem unreadable_size_witness:
  "\<exists>a a'. archive_with_capacity (sample_header 3) 1 = Ok a \<and>
    next_entry_poll ((sample_cfg True)\<lparr>hdr_entry_size := \<lambda>h. Inl (IoError OtherKind [])\<rparr>)
      cursor_read a = (Panic UnwrapFailed, a')"
proof -
  obtain a where "archive_with_capacity (sample_header 3) 1 = Ok a"
    by (rule archive_with_capacity_Ok [of 1]) (simp_all add: usize_max_def usize_bits_def)
  then show ?thesis
    using unreadable_size [OF cursor_block_source, of 1 "sample_header 3" a "sample_header 3" "[]"
        "(sample_cfg True)\<lparr>hdr_entry_size := \<lambda>h. Inl (IoError OtherKind [])\<rparr>"]
    by simp
qed

end
