(* ===== verification/Reading_Safety.thy ===== *)
theory Reading_Safety
  imports Edge_Cases
begin

text \<open>
  The state transitions a client can cause by reading, whatever the source answers, and the
  invariant they keep: the archive is well formed, and the bytes taken so far followed by
  the unread ones are the stream.
\<close>

section \<open>Sources that may be pending or fail\<close>

text \<open>A source loses no bytes when it is pending or fails.\<close>

definition lossless :: "'r reader \<Rightarrow> ('r \<Rightarrow> bytes) \<Rightarrow> bool" where
  "lossless read rest \<longleftrightarrow>
     (\<forall>r room. case read r room of
        (Ok bs, r') \<Rightarrow> rest r = bs @ rest r' \<and> length bs \<le> room
      | (Panic p, r') \<Rightarrow> True
      | (_, r') \<Rightarrow> rest r' = rest r)"

lemma losslessD:
  assumes "lossless read rest"
  shows "read r room = (Ok bs, r') \<Longrightarrow> rest r = bs @ rest r' \<and> length bs \<le> room"
    and "read r room = (Err e, r') \<Longrightarrow> rest r' = rest r"
    and "read r room = (Pending, r') \<Longrightarrow> rest r' = rest r"
  using assms [unfolded lossless_def, rule_format, of r room] by simp_all

text \<open>An archive that has moved on in the stream.\<close>

definition advances :: "('r \<Rightarrow> bytes) \<Rightarrow> 'r archive \<Rightarrow> 'r archive \<Rightarrow> bool" where
  "advances rest a a' \<longleftrightarrow> archive_wf a' \<and> ar_capacity a' = ar_capacity a \<and>
     (\<exists>taken. unread rest a = taken @ unread rest a')"

lemma advances_refl: "archive_wf a \<Longrightarrow> advances rest a a"
  by (simp add: advances_def)

lemma advances_trans [trans]: "advances rest a b \<Longrightarrow> advances rest b c \<Longrightarrow> advances rest a c"
  by (auto simp: advances_def)

text \<open>What every operation is shown to do: it panics, or the archive has moved on.\<close>

definition keeps :: "('r \<Rightarrow> bytes) \<Rightarrow> 'r archive \<Rightarrow> 'b outcome \<times> 'r archive \<Rightarrow> bool" where
  "keeps rest a m \<longleftrightarrow> panicked (fst m) \<or> advances rest a (snd m)"

named_theorems keeps_rules \<open>operations that keep the invariant\<close>

lemma keeps_result [keeps_rules]: "advances rest a b \<Longrightarrow> keeps rest a (r, b)"
  by (simp add: keeps_def)

lemma keeps_panic [simp]: "keeps rest a (Panic p, b)"
  by (simp add: keeps_def)

lemma keeps_and_then:
  assumes "keeps rest a m"
    and "\<And>x b. m = (Ok x, b) \<Longrightarrow> advances rest a b \<Longrightarrow> keeps rest a (f x b)"
  shows "keeps rest a (and_then m f)"
  using assms by (cases m; cases "fst m") (auto simp: keeps_def)

lemma keeps_trans: "advances rest a b \<Longrightarrow> keeps rest b m \<Longrightarrow> keeps rest a m"
  by (auto simp: keeps_def intro: advances_trans)

lemma advances_wf: "advances rest a b \<Longrightarrow> archive_wf b"
  by (simp add: advances_def)

section \<open>The operations of the archive\<close>

text \<open>Filling moves bytes from the source to the buffer, when the buffer is empty.\<close>

lemma poll_fill_buf_same:
  assumes wf: "archive_wf a" and src: "lossless read rest"
    and run: "poll_fill_buf read a = (r, a')" and ok: "\<not> panicked r"
  shows "archive_wf a' \<and> ar_capacity a' = ar_capacity a \<and> ar_state a' = ar_state a \<and>
    unread rest a' = unread rest a \<and>
    (if ar_bytes a \<noteq> [] then a' = a
     else ar_bytes a' = [] \<and> rest (ar_io a') = rest (ar_io a) \<or>
       read (ar_io a) (ar_capacity a) = (Ok (ar_bytes a'), ar_io a'))"
proof (cases "ar_bytes a = []")
  case False
  then show ?thesis
    using wf run by (simp add: poll_fill_buf_buffered)
next
  case True
  obtain res io' where io: "read (ar_io a) (ar_capacity a) = (res, io')" by fastforce
  note fill = poll_fill_buf_empty [where read = read and res = res, OF wf True io]
  have wf': "archive_wf (a\<lparr>ar_io := io'\<rparr>)" using wf by (simp add: archive_wf_def)
  show ?thesis
  proof (cases res)
    case (Ok bs)
    note bs = losslessD(1) [OF src io [unfolded Ok]]
    show ?thesis
    proof (cases "bs = []")
      case False
      with fill bs Ok run obtain "r = Ok ()" "ar_bytes a' = bs"
          "ar_io a' = io'" "ar_capacity a' = ar_capacity a" "archive_wf a'" "ar_state a' = ar_state a"
        by auto
      with bs True io Ok show ?thesis by (simp add: unread_def)
    next
      case empty: True
      obtain dst where dst: "available_bytes_mut (ar_buf a) = Ok dst" "length dst = ar_capacity a"
        using available_bytes_mut_eq [OF archive_wfD(1) [OF wf]] archive_wfD(4) [OF wf True] by auto
      have "buf_commit_available (ar_buf a) 0 = Ok (ar_buf a)"
        using archive_wfD(1) [OF wf]
        by (simp add: buf_commit_available_def rm_commit_def region_commit_def available_def
            checked_add_def put_available_def rm_set_position_def buf_wf_def)
      moreover have "dst \<noteq> []" using dst(2) archive_wfD(3) [OF wf] by auto
      ultimately have "a' = a\<lparr>ar_io := io'\<rparr>"
        using dst empty Ok io True wf run ok
        by (auto simp: poll_fill_buf_def buffered_bytes_eq archive_wfD(1) poll_read_io_def
            split: if_splits)
      with bs empty True wf' show ?thesis by (simp add: unread_def)
    qed
  next
    case (Err e)
    then show ?thesis
      using fill run wf' True losslessD(2) [OF src io [unfolded Err]] by (auto simp: unread_def)
  next
    case Pending
    then show ?thesis
      using fill run wf' True losslessD(3) [OF src io [unfolded Pending]] by (auto simp: unread_def)
  next
    case (Panic p)
    then show ?thesis using fill run ok by auto
  qed
qed

lemma poll_fill_buf_keeps:
  assumes "archive_wf a" and "lossless read rest"
  shows "keeps rest a (poll_fill_buf read a)"
proof -
  obtain r a' where run: "poll_fill_buf read a = (r, a')" by fastforce
  then show ?thesis
    using poll_fill_buf_same [OF assms run] by (auto simp: keeps_def advances_def)
qed

lemma poll_next_state_keeps:
  assumes "archive_wf a" and "lossless read rest"
  shows "keeps rest a (poll_next_state E read h a)"
  unfolding poll_next_state_def
  by (intro keeps_and_then poll_fill_buf_keeps [OF assms] keeps_result) assumption+

text \<open>Consuming takes bytes off the buffer and moves the position, or does nothing.\<close>

lemma archive_consume_cases:
  assumes wf: "archive_wf a" and run: "archive_consume E amt h a = (r, a')" and ok: "\<not> panicked r"
  shows "r \<noteq> Ok () \<and> a' = a \<or>
    r = Ok () \<and> archive_wf a' \<and> amt \<le> length (ar_bytes a) \<and>
    ar_bytes a' = drop amt (ar_bytes a) \<and> ar_io a' = ar_io a \<and> ar_capacity a' = ar_capacity a \<and>
    (\<exists>st. take_slices E (ar_state a) [take amt (ar_bytes a)] h = Ok (st, amt) \<and>
      settle E h st = Ok (ar_state a'))"
proof (cases "amt \<le> length (ar_bytes a)")
  case False
  note facts = archive_wfD [OF wf]
  have "rg_len checks \<lparr>rg_buf = take (buf_cap (ar_buf a)) (buf_store (ar_buf a)),
      rg_pos = buf_pos (ar_buf a)\<rparr> = Ok (length (ar_bytes a))" for checks
    using facts(1) by (simp add: rg_len_def rg.remaining_eq buf_contents_def buf_wf_def)
  with False run ok show ?thesis
    by (auto simp: archive_consume_def buffered_eq [OF facts(1)])
next
  case True
  note facts = archive_wfD [OF wf]
  let ?reg = "\<lparr>rg_buf = take (buf_cap (ar_buf a)) (buf_store (ar_buf a)), rg_pos = buf_pos (ar_buf a)\<rparr>"
  have "rg_len checks ?reg = Ok (length (ar_bytes a))" "rg_bytes ?reg = Ok (ar_bytes a)" for checks
    using facts(1) by (simp_all add: rg_len_def rg_bytes_def rg.remaining_eq rg.bytes_eq
        buf_contents_def buf_wf_def)
  note start = archive_consume_def buffered_eq [OF facts(1)] this slice_in_range True
  show ?thesis
  proof (cases "take_slices E (ar_state a) [take amt (ar_bytes a)] h")
    case (Ok t)
    then obtain st pos where take: "take_slices E (ar_state a) [take amt (ar_bytes a)] h = Ok (st, pos)"
      by (cases t) simp
    show ?thesis
    proof (cases "settle E h st")
      case (Ok st')
      show ?thesis
      proof (cases "pos = amt")
        case pos: True
        note take = take [unfolded pos]
        from consume_spec [OF wf True take Ok] run take Ok True show ?thesis by auto
      qed (use take Ok run ok in \<open>auto simp: start\<close>)
    qed (use take run ok in \<open>auto simp: start\<close>)
  qed (use run ok in \<open>auto simp: start\<close>)
qed

lemma archive_consume_keeps:
  assumes "archive_wf a"
  shows "keeps rest a (archive_consume E amt h a)"
proof -
  obtain r a' where run: "archive_consume E amt h a = (r, a')" by fastforce
  have "unread rest a = take amt (ar_bytes a) @ unread rest a'"
    if "ar_bytes a' = drop amt (ar_bytes a)" "ar_io a' = ar_io a"
    using that by (simp add: unread_def)
  with archive_consume_cases [OF assms run] run assms show ?thesis
    by (cases "panicked r") (auto simp: keeps_def advances_def intro: advances_refl)
qed

lemma archive_consume_keeps_from:
  "advances rest a b \<Longrightarrow> keeps rest a (archive_consume E amt h b)"
  by (rule keeps_trans [OF _ archive_consume_keeps]) (simp_all add: advances_wf)

section \<open>The loops\<close>

lemma next_entry_loop_keeps:
  "lossless read rest \<Longrightarrow> archive_wf a \<Longrightarrow> keeps rest a (next_entry_loop E read a)"
proof (induction E read a rule: next_entry_loop.induct)
  case (1 E read a)
  show ?case
    unfolding next_entry_loop.simps [of E read a]
  proof (rule keeps_and_then [OF poll_next_state_keeps [OF "1.prems"(2,1)]], goal_cases)
    case (1 r b)
    note step = this(1) and b = this(2)
    show ?case
    proof (cases r)
      case (Pair st amt)
      have again: "keeps rest a (and_then (archive_consume E amt None b)
          (\<lambda>_ a. next_entry_loop E read a))"
        if "\<And>x c. archive_consume E amt None b = (Ok x, c) \<Longrightarrow> archive_wf c \<Longrightarrow>
          keeps rest c (next_entry_loop E read c)"
        using that b by (intro keeps_and_then archive_consume_keeps_from)
          (auto intro: keeps_trans dest: advances_wf)
      note IH = "1.IH" [OF step Pair [symmetric]]
      show ?thesis
      proof (cases st)
        case (ReceivingHeader rem e)
        show ?thesis
          by (simp add: Pair ReceivingHeader, rule again) (rule IH(1) [OF ReceivingHeader _ "1.prems"(1)])
      next
        case (AligningData rem)
        show ?thesis
          by (simp add: Pair AligningData, rule again) (rule IH(2) [OF AligningData _ "1.prems"(1)])
      next
        case AlignedData
        show ?thesis
          by (simp add: Pair AlignedData, rule again) (rule IH(3) [OF AlignedData _ "1.prems"(1)])
      next
        case (ReceivingEof rem)
        show ?thesis
          by (simp add: Pair ReceivingEof, rule again) (rule IH(4) [OF ReceivingEof _ "1.prems"(1)])
      qed (use b in \<open>auto simp: Pair intro!: keeps_and_then archive_consume_keeps_from keeps_result\<close>)
    qed
  qed
qed

lemma poll_next_entry_keeps:
  "lossless read rest \<Longrightarrow> archive_wf a \<Longrightarrow> keeps rest a (poll_next_entry E read a)"
  by (simp add: poll_next_entry_def next_entry_loop_keeps keeps_result advances_refl)

lemma poll_read_entry_keeps:
  "lossless read rest \<Longrightarrow> archive_wf a \<Longrightarrow> keeps rest a (poll_read_entry E read hdr a)"
proof (induction E read hdr a rule: poll_read_entry.induct)
  case (1 E read hdr a)
  show ?case
    unfolding poll_read_entry.simps [of E read hdr a]
  proof (rule keeps_and_then [OF poll_next_state_keeps [OF "1.prems"(2,1)]], goal_cases)
    case (1 r b)
    note step = this(1) and b = this(2)
    show ?case
    proof (cases r)
      case (Pair st amt)
      note IH = "1.IH" [OF step Pair [symmetric]]
      show ?thesis
      proof (cases st)
        case (AligningData rem)
        have "keeps rest a (and_then (archive_consume E amt None b)
            (\<lambda>_ a. poll_read_entry E read hdr a))"
          using b by (intro keeps_and_then archive_consume_keeps_from)
            (auto intro!: keeps_trans [OF _ IH [OF AligningData _ "1.prems"(1)]] dest: advances_wf)
        then show ?thesis by (simp add: Pair AligningData)
      qed (use b in \<open>auto simp: Pair intro!: keeps_and_then archive_consume_keeps_from keeps_result\<close>)
    qed
  qed
qed

lemma poll_skip_entry_keeps:
  "lossless read rest \<Longrightarrow> archive_wf a \<Longrightarrow> keeps rest a (poll_skip_entry E read hdr a)"
proof (induction E read hdr a rule: poll_skip_entry.induct)
  case (1 E read hdr a)
  show ?case
    unfolding poll_skip_entry.simps [of E read hdr a]
  proof (rule keeps_and_then [OF poll_read_entry_keeps [OF "1.prems"]], goal_cases)
    case (1 bs b)
    note step = this(1) and b = this(2)
    show ?case
    proof (cases "bs = []")
      case False
      then have "length bs \<noteq> 0" by simp
      note IH = "1.IH" [OF step refl this]
      have "keeps rest a (and_then (archive_consume E (length bs) (Some hdr) b)
          (\<lambda>_ a. poll_skip_entry E read hdr a))"
        using b by (intro keeps_and_then archive_consume_keeps_from)
          (auto intro!: keeps_trans [OF _ IH [OF _ "1.prems"(1)]] dest: advances_wf)
      then show ?thesis using False by (simp add: Let_def)
    qed (use b in \<open>simp add: keeps_result\<close>)
  qed
qed

lemma entry_poll_read_keeps:
  "lossless read rest \<Longrightarrow> archive_wf a \<Longrightarrow> keeps rest a (entry_poll_read E read en room a)"
  unfolding entry_poll_read_def entry_poll_fill_buf_def entry_consume_def Let_def
  by (auto simp: advances_refl intro!: keeps_and_then poll_read_entry_keeps keeps_result
      archive_consume_keeps_from)

section \<open>What a client can do\<close>

text \<open>
  Every call a client can make, with the outcome it gets; a call that panics ends the run.
  A future that is pending is polled again by the same call later.
\<close>

inductive read_step :: "cfg \<Rightarrow> 'r reader \<Rightarrow> 'r archive \<Rightarrow> 'r archive \<Rightarrow> bool"
  for E :: cfg and read :: "'r reader" where
  next_entry: "next_entry_poll E read a = (r, a') \<Longrightarrow> \<not> panicked r \<Longrightarrow> read_step E read a a'"
| entries: "entries_poll_next E read a = (r, a') \<Longrightarrow> \<not> panicked r \<Longrightarrow> read_step E read a a'"
| fill_buf: "entry_poll_fill_buf E read en a = (r, a') \<Longrightarrow> \<not> panicked r \<Longrightarrow> read_step E read a a'"
| consume: "entry_consume E en amt a = (r, a') \<Longrightarrow> \<not> panicked r \<Longrightarrow> read_step E read a a'"
| read: "entry_poll_read E read en room a = (r, a') \<Longrightarrow> \<not> panicked r \<Longrightarrow> read_step E read a a'"
| skip: "entry_poll_skip E read en a = (r, a') \<Longrightarrow> \<not> panicked r \<Longrightarrow> read_step E read a a'"

lemma next_entry_poll_eq: "next_entry_poll E read a = poll_next_entry E read a"
  by (cases "poll_next_entry E read a"; cases "fst (poll_next_entry E read a)")
    (auto simp: next_entry_poll_def split: option.splits)

lemma keepsD: "keeps rest a m \<Longrightarrow> m = (r, a') \<Longrightarrow> \<not> panicked r \<Longrightarrow> advances rest a a'"
  by (auto simp: keeps_def)

lemma read_step_advances:
  assumes "read_step E read a a'" and src: "lossless read rest" and wf: "archive_wf a"
  shows "advances rest a a'"
  using assms(1)
proof cases
  case (next_entry r)
  then show ?thesis
    using keepsD [OF poll_next_entry_keeps [OF src wf]] by (simp add: next_entry_poll_eq)
next
  case (entries r)
  then obtain r' where "poll_next_entry E read a = (r', a')" "\<not> panicked r'"
    by (auto simp: entries_poll_next_def split: prod.splits outcome.splits option.splits)
  then show ?thesis
    using keepsD [OF poll_next_entry_keeps [OF src wf]] by blast
next
  case (fill_buf en r)
  then show ?thesis
    using keepsD [OF poll_read_entry_keeps [OF src wf]] by (simp add: entry_poll_fill_buf_def)
next
  case (consume en amt r)
  then show ?thesis
    using keepsD [OF archive_consume_keeps [OF wf]] by (simp add: entry_consume_def)
next
  case (read en room r)
  then show ?thesis
    using keepsD [OF entry_poll_read_keeps [OF src wf]] by simp
next
  case (skip en r)
  then show ?thesis
    using keepsD [OF poll_skip_entry_keeps [OF src wf]] by (simp add: entry_poll_skip_def)
qed

lemma reachable_advances:
  assumes "(read_step E read)\<^sup>*\<^sup>* a a'" and src: "lossless read rest" and wf: "archive_wf a"
  shows "advances rest a a'"
  using assms(1)
proof (induction rule: rtranclp_induct)
  case base
  then show ?case using wf by (rule advances_refl)
next
  case (step b c)
  have "advances rest b c"
    using read_step_advances [OF step.hyps(2) src] step.IH by (simp add: advances_def)
  with step.IH show ?case by (rule advances_trans)
qed

section \<open>Properties of a run\<close>

text \<open>
  Reading loses and duplicates nothing: after any calls of a client in any order, with a
  source that may be pending or fail at any time, the archive is well formed and the bytes
  taken so far, those in the buffer and those still in the source make up the stream.
\<close>

theorem reading_loses_nothing:
  assumes "archive_with_capacity io capacity = Ok a" and "0 < capacity"
    and "lossless read rest" and "(read_step E read)\<^sup>*\<^sup>* a a'"
  shows "archive_wf a' \<and> ar_capacity a' = capacity * 512 \<and>
    (\<exists>taken. rest io = taken @ ar_bytes a' @ rest (ar_io a'))"
  using reachable_advances [OF assms(4,3)] archive_with_capacity_start [OF assms(1,2)]
  by (simp add: advances_def unread_def)

lemma lossless_cursor: "lossless cursor_read (\<lambda>r. r)"
  by (simp add: lossless_def cursor_read_def)

theorem reading_loses_nothing_witness:
  "\<exists>a a'. archive_with_capacity (archive_bytes [(sample_header 3, [1, 2, 3])]) 1 = Ok a \<and>
    next_entry_poll (sample_cfg True) cursor_read a = (Ok (Some \<lparr>en_header = sample_header 3\<rparr>), a') \<and>
    archive_wf a' \<and> ar_capacity a' = 512 \<and>
    (\<exists>taken. archive_bytes [(sample_header 3, [1, 2, 3])] = taken @ ar_bytes a' @ ar_io a')"
proof -
  obtain a where a: "archive_with_capacity (archive_bytes [(sample_header 3, [1, 2, 3])]) 1 = Ok a"
    by (rule archive_with_capacity_Ok [of 1]) (simp_all add: usize_max_def usize_bits_def)
  obtain a' where a': "next_entry_poll (sample_cfg True) cursor_read a =
      (Ok (Some \<lparr>en_header = sample_header 3\<rparr>), a')"
    using first_entry [OF cursor_block_source _ a valid_sample_header [of True 3]]
    by (auto simp: archive_bytes_simps)
  have "(read_step (sample_cfg True) cursor_read)\<^sup>*\<^sup>* a a'"
    using read_step.next_entry [OF a'] by auto
  from reading_loses_nothing [OF a _ lossless_cursor this] a a' show ?thesis
    by auto
qed

end
