(* ===== verification/Round_Trip.thy ===== *)
theory Round_Trip
  imports Encoding Reading_Safety
begin

text \<open>What one archive wrote, another reads back.\<close>

text \<open>
  C3. Writing and reading are inverse: entries written with any buffer capacity through any
  willing object to an empty sink, and read with any other capacity through any source of
  whole blocks that delivers what was sent, are the entries that were written, in order.
\<close>

theorem write_read_roundtrip:
  assumes "appends W sent" and "willing W" and "sent io = []"
    and "0 < wcap" and "wcap * 512 \<le> usize_max" and "list_all (writable E) es"
    and "block_source read rest" and "0 < room"
    and "0 < rcap" and "rcap * 512 \<le> usize_max"
    and "\<forall>w. rest (open_sink w) = sent w"
  shows "\<exists>a1 a2 b1 b2. archive_with_capacity io wcap = Ok a1 \<and>
    write_archive E W es a1 = Some (Ok (), a2) \<and>
    archive_with_capacity (open_sink (into_inner a2)) rcap = Ok b1 \<and>
    read_archive E read room [] b1 =
      Some (Ok (map (\<lambda>e. (\<lparr>en_header = fst e\<rparr>, snd e)) es), b2) \<and>
    unread rest b2 = []"
proof -
  obtain a1 where a1: "archive_with_capacity io wcap = Ok a1" "archive_wf a1"
      "ar_state a1 = ExpectingHeader" "ar_io a1 = io" "ar_bytes a1 = []"
    using archive_with_capacity_Ok [OF assms(4,5)] by metis
  have writable: "\<And>e. e \<in> set es \<Longrightarrow> writable E e" using assms(6) by (simp add: list_all_iff)
  from write_archive_entries [OF a1(2) assms(1,2) writable a1(3)] obtain a2
    where a2: "write_archive E W es a1 = Some (Ok (), a2)"
      "sent (ar_io a2) = written sent a1 @ archive_bytes es"
    by auto
  let ?src = "open_sink (into_inner a2)"
  have stream: "rest ?src = archive_bytes es"
    using a2(2) a1(4,5) assms(3,11) by (simp add: written_def into_inner_def)
  obtain b1 where b1: "archive_with_capacity ?src rcap = Ok b1" "archive_wf b1"
      "ar_state b1 = ExpectingHeader" "ar_io b1 = ?src" "ar_bytes b1 = []"
    using archive_with_capacity_Ok [OF assms(9,10)] by metis
  have fits: "\<And>e. e \<in> set es \<Longrightarrow> entry_fits E e"
    using writable by (simp add: writable_def)
  then have "aligned 0 rest (ar_io b1)"
    using dvd_length_archive_bytes [of es E] stream b1(4) by (simp add: aligned_def)
  from read_archive_entries [OF b1(2) assms(7,8) fits _ _ this, of es "[]" "[]"] obtain b2
    where "read_archive E read room [] b1 =
        Some (Ok (map (\<lambda>e. (\<lparr>en_header = fst e\<rparr>, snd e)) es), b2)" "unread rest b2 = []"
    using b1 stream by (auto simp: unread_def)
  with a1(1) a2(1) b1(1) show ?thesis by blast
qed

theorem write_read_roundtrip_witness:
  "\<exists>a1 a2 b1 b2. archive_with_capacity [] 3 = Ok a1 \<and>
    write_archive (sample_cfg True) (chunk_writer 700 False)
      [(sample_header 3, [1, 2, 3]), (sample_header 1, [4])] a1 = Some (Ok (), a2) \<and>
    archive_with_capacity (into_inner a2) 1 = Ok b1 \<and>
    read_archive (sample_cfg True) cursor_read 2 [] b1 =
      Some (Ok [(\<lparr>en_header = sample_header 3\<rparr>, [1, 2, 3]), (\<lparr>en_header = sample_header 1\<rparr>, [4])], b2) \<and>
    unread (\<lambda>r. r) b2 = []"
proof -
  have "list_all (writable (sample_cfg True)) [(sample_header 3, [1, 2, 3]), (sample_header 1, [4])]"
    by (simp add: writable_def)
  with write_read_roundtrip [OF chunk_writer_appends [of 700 False] chunk_writer_willing, of "[]" 3
      "sample_cfg True" "[(sample_header 3, [1, 2, 3]), (sample_header 1, [4])]" cursor_read
      "\<lambda>r. r" 2 1 "\<lambda>w. w"] cursor_block_source
  show ?thesis by (simp add: usize_max_def usize_bits_def)
qed

end
