(* ===== verification/Positions.thy ===== *)
theory Positions
  imports Format
begin

text \<open>
  The meaning of a position (\<open>src/shared/state.rs\<close>): which bytes have been taken where the
  machine is in a given state. The specification knows only the layout of an archive; the
  transitions of the machine are shown to keep to it.
\<close>

section \<open>The specification\<close>

text \<open>The padding of an entry: what a reader accepts, or, when \<open>strict\<close>, what a writer writes.\<close>

definition pad_bytes :: "bool \<Rightarrow> bytes \<Rightarrow> bool" where
  "pad_bytes strict pad \<longleftrightarrow> strict \<longrightarrow> all_zero pad"

definition header_block :: "header \<Rightarrow> bool" where
  "header_block hdr \<longleftrightarrow> length hdr = 512 \<and> \<not> all_zero hdr"

text \<open>The bytes of complete entries, with their headers in order.\<close>

inductive whole_entries :: "cfg \<Rightarrow> bool \<Rightarrow> header list \<Rightarrow> bytes \<Rightarrow> bool"
  for E :: cfg and strict :: bool where
  none: "whole_entries E strict [] []"
| more: "whole_entries E strict hs bs \<Longrightarrow> header_block hdr \<Longrightarrow> hdr_entry_size E hdr = Inr n \<Longrightarrow>
    length data = unat n \<Longrightarrow> length pad = padding 512 (unat n) \<Longrightarrow> pad_bytes strict pad \<Longrightarrow>
    whole_entries E strict (hs @ [hdr]) (bs @ hdr @ data @ pad)"

text \<open>
  The bytes taken where the machine is in a state, and the headers among them. The last of
  the headers may be that of an entry that is not complete yet.
\<close>

inductive position :: "cfg \<Rightarrow> bool \<Rightarrow> header list \<Rightarrow> bytes \<Rightarrow> state \<Rightarrow> bool"
  for E :: cfg and strict :: bool where
  expecting_header: "whole_entries E strict hs bs \<Longrightarrow> position E strict hs bs ExpectingHeader"
| receiving_header: "whole_entries E strict hs bs \<Longrightarrow> length part + rem = 512 \<Longrightarrow> 0 < rem \<Longrightarrow>
    position E strict hs (bs @ part) (ReceivingHeader rem (all_zero part))"
| received_header: "whole_entries E strict hs bs \<Longrightarrow> header_block hdr \<Longrightarrow>
    position E strict hs (bs @ hdr) ReceivedHeader"
| receiving_data: "whole_entries E strict hs bs \<Longrightarrow> header_block hdr \<Longrightarrow>
    hdr_entry_size E hdr = Inr n \<Longrightarrow> length data + unat rem = unat n \<Longrightarrow>
    position E strict (hs @ [hdr]) (bs @ hdr @ data) (ReceivingData rem)"
| received_data: "whole_entries E strict hs bs \<Longrightarrow> header_block hdr \<Longrightarrow>
    hdr_entry_size E hdr = Inr n \<Longrightarrow> length data = unat n \<Longrightarrow>
    position E strict (hs @ [hdr]) (bs @ hdr @ data) ReceivedData"
| aligning_data: "whole_entries E strict hs bs \<Longrightarrow> header_block hdr \<Longrightarrow>
    hdr_entry_size E hdr = Inr n \<Longrightarrow> length data = unat n \<Longrightarrow>
    length pad + rem = padding 512 (unat n) \<Longrightarrow> pad_bytes strict pad \<Longrightarrow>
    position E strict (hs @ [hdr]) (bs @ hdr @ data @ pad) (AligningData rem)"
| aligned_data: "whole_entries E strict hs bs \<Longrightarrow> position E strict hs bs AlignedData"
| receiving_eof: "whole_entries E strict hs bs \<Longrightarrow> n + rem = 1024 \<Longrightarrow> 0 < rem \<Longrightarrow> rem \<le> 512 \<Longrightarrow>
    position E strict hs (bs @ replicate n 0) (ReceivingEof rem)"
| received_eof: "whole_entries E strict hs bs \<Longrightarrow>
    position E strict hs (bs @ make_eof_data) ReceivedEof"

inductive_cases position_expecting_header: "position E strict hs bs ExpectingHeader"
inductive_cases position_receiving_header: "position E strict hs bs (ReceivingHeader rem e)"
inductive_cases position_received_header: "position E strict hs bs ReceivedHeader"
inductive_cases position_receiving_data: "position E strict hs bs (ReceivingData rem)"
inductive_cases position_received_data: "position E strict hs bs ReceivedData"
inductive_cases position_aligning_data: "position E strict hs bs (AligningData rem)"
inductive_cases position_aligned_data: "position E strict hs bs AlignedData"
inductive_cases position_receiving_eof: "position E strict hs bs (ReceivingEof rem)"
inductive_cases position_received_eof: "position E strict hs bs ReceivedEof"

section \<open>Whole entries\<close>

lemma whole_entries_blocks: "whole_entries E strict hs bs \<Longrightarrow> 512 dvd length bs"
proof (induction rule: whole_entries.induct)
  case (more hs bs hdr n data pad)
  then show ?case
    using dvd_add_padding [of 512 "unat n"] by (simp add: header_block_def add.assoc [symmetric])
      (metis add.assoc dvd_add dvd_refl)
qed simp

text \<open>A writer's entries are those of the archive format.\<close>

lemma whole_entries_archive:
  "whole_entries E True hs bs \<Longrightarrow>
    \<exists>es. map fst es = hs \<and> bs = concat (map entry_bytes es) \<and>
      list_all (\<lambda>e. \<exists>n. hdr_entry_size E (fst e) = Inr n \<and> length (snd e) = unat n) es"
proof (induction rule: whole_entries.induct)
  case (more hs bs hdr n data pad)
  then obtain es where "map fst es = hs" "bs = concat (map entry_bytes es)"
      "list_all (\<lambda>e. \<exists>n. hdr_entry_size E (fst e) = Inr n \<and> length (snd e) = unat n) es"
    by blast
  moreover have "pad = replicate (padding 512 (unat n)) 0"
    using more.hyps by (metis all_zero_iff_replicate pad_bytes_def)
  ultimately show ?case
    using more.hyps by (intro exI [of _ "es @ [(hdr, data)]"])
      (simp add: entry_bytes_def [of "(hdr, data)"])
qed simp

section \<open>Transitions keep the position\<close>

text \<open>
  The header a transition is given: after the header it is the block just taken, in the
  data it is the header of the entry.
\<close>

fun header_fits :: "header list \<Rightarrow> bytes \<Rightarrow> state \<Rightarrow> header option \<Rightarrow> bool" where
  "header_fits hs bs ReceivedHeader (Some hdr) \<longleftrightarrow> length hdr = 512 \<and> drop (length bs - 512) bs = hdr"
| "header_fits hs bs (ReceivingData rem) (Some hdr) \<longleftrightarrow> hdr = last hs"
| "header_fits hs bs ReceivedData (Some hdr) \<longleftrightarrow> hdr = last hs"
| "header_fits hs bs _ _ \<longleftrightarrow> True"

definition headers_after :: "header list \<Rightarrow> state \<Rightarrow> header option \<Rightarrow> header list" where
  "headers_after hs s h = (case s of ReceivedHeader \<Rightarrow> hs @ [the h] | _ \<Rightarrow> hs)"

text \<open>The bytes a strict position may take as padding.\<close>

definition padding_fits :: "bool \<Rightarrow> state \<Rightarrow> bytes \<Rightarrow> bool" where
  "padding_fits strict s buf \<longleftrightarrow> (\<forall>rem. s = AligningData rem \<longrightarrow> pad_bytes strict buf)"

lemma position_step:
  assumes "position E strict hs bs s" and "state_next E s buf h = Ok (s', n)"
    and "header_fits hs bs s h" and "padding_fits strict s buf"
  shows "position E strict (headers_after hs s h) (bs @ take n buf) s'"
proof (cases s)
  case ExpectingHeader
  then have "whole_entries E strict hs bs" using assms(1) by (auto elim: position_expecting_header)
  from receiving_header [OF this, of "[]" 512] show ?thesis
    using assms(2) ExpectingHeader by (simp add: headers_after_def)
next
  case (ReceivingHeader rem e)
  then obtain bs0 part where p: "whole_entries E strict hs bs0" "bs = bs0 @ part"
      "length part + rem = 512" "0 < rem" "e = all_zero part"
    using assms(1) by (auto elim: position_receiving_header)
  let ?part = "part @ take n buf"
  have n: "n = min rem (length buf)" "s' = (if rem - n = 0
      then (if e \<and> all_zero (take n buf) then ReceivingEof BLOCK_SIZE else ReceivedHeader)
      else ReceivingHeader (rem - n) (e \<and> all_zero (take n buf)))"
    using assms(2) ReceivingHeader by (auto simp: read_run_def advance_def Let_def)
  then have len: "length ?part + (rem - n) = 512" using p(3) by simp
  show ?thesis
  proof (cases "rem - n = 0")
    case False
    then show ?thesis
      using receiving_header [OF p(1) len] n p(2,5) ReceivingHeader
      by (simp add: headers_after_def)
  next
    case True
    show ?thesis
    proof (cases "all_zero ?part")
      case zero: True
      then have "?part = replicate 512 0" using all_zero_iff_replicate [of ?part] len True by simp
      moreover have "s' = ReceivingEof 512" using n True zero p(5) by simp
      ultimately show ?thesis
        using receiving_eof [OF p(1), of 512 512] p(2) ReceivingHeader
        by (simp add: headers_after_def del: append_assoc add: append_assoc [symmetric])
          (metis append_assoc)
    next
      case False
      then have "header_block ?part" using len True by (simp add: header_block_def)
      moreover have "s' = ReceivedHeader" using n True False p(5) by auto
      ultimately show ?thesis
        using received_header [OF p(1), of ?part] p(2) ReceivingHeader by (simp add: headers_after_def)
    qed
  qed
next
  case ReceivedHeader
  then obtain bs0 hdr where p: "whole_entries E strict hs bs0" "bs = bs0 @ hdr" "header_block hdr"
    using assms(1) by (auto elim: position_received_header)
  from assms(2) ReceivedHeader obtain hdr' m where h: "h = Some hdr'" "hdr_entry_size E hdr' = Inr m"
      "s' = ReceivingData m" "n = 0"
    by (auto simp: bind_outcome_eq_Ok entry_size_of_def split: option.splits)
  have "hdr' = hdr"
    using assms(3) ReceivedHeader h(1) p(2,3) by (auto simp: header_block_def)
  with receiving_data [OF p(1,3), of m "[]" m] h p(2) ReceivedHeader show ?thesis
    by (simp add: headers_after_def)
next
  case (ReceivingData rem)
  then obtain hs0 bs0 hdr m data where p: "whole_entries E strict hs0 bs0" "hs = hs0 @ [hdr]"
      "bs = bs0 @ hdr @ data" "header_block hdr" "hdr_entry_size E hdr = Inr m"
      "length data + unat rem = unat m"
    using assms(1) by (auto elim: position_receiving_data)
  have n: "n = min (unat rem) (length buf)"
      "s' = (if rem - word_of_nat n = 0 then ReceivedData else ReceivingData (rem - word_of_nat n))"
    using assms(2) ReceivingData by (auto simp: next_receiving_data_def Let_def advance_def)
  have rem: "unat (rem - word_of_nat n) = unat rem - n"
    using n(1) by (intro unat_minus_of_nat) simp
  let ?data = "data @ take n buf"
  have len: "length ?data + unat (rem - word_of_nat n) = unat m"
    using p(6) n(1) rem by simp
  show ?thesis
  proof (cases "rem - word_of_nat n = 0")
    case True
    with len have "length ?data = unat m" by simp
    from received_data [OF p(1,4,5) this] True show ?thesis
      using n(2) p(2,3) ReceivingData by (simp add: headers_after_def)
  next
    case False
    from receiving_data [OF p(1,4,5) len] False show ?thesis
      using n(2) p(2,3) ReceivingData by (simp add: headers_after_def)
  qed
next
  case ReceivedData
  then obtain hs0 bs0 hdr m data where p: "whole_entries E strict hs0 bs0" "hs = hs0 @ [hdr]"
      "bs = bs0 @ hdr @ data" "header_block hdr" "hdr_entry_size E hdr = Inr m" "length data = unat m"
    using assms(1) by (auto elim: position_received_data)
  from assms(2) ReceivedData obtain hdr' rem k where h: "h = Some hdr'" "hdr_entry_size E hdr' = Inr rem"
      "next_multiple_of (debug_assertions E) rem 512 = Ok k" "s' = AligningData (unat (k - rem))" "n = 0"
    by (auto simp: bind_outcome_eq_Ok entry_size_of_def split: option.splits)
  have "hdr' = hdr" using assms(3) ReceivedData h(1) p(2) by simp
  with h(2) p(5) have "rem = m" by simp
  from next_multiple_of_minus [OF h(3)] this have "length [] + unat (k - rem) = padding 512 (unat m)"
    by simp
  from aligning_data [OF p(1,4,5,6) this] h p(2,3) ReceivedData show ?thesis
    by (simp add: headers_after_def pad_bytes_def)
next
  case (AligningData rem)
  then obtain hs0 bs0 hdr m data pad where p: "whole_entries E strict hs0 bs0" "hs = hs0 @ [hdr]"
      "bs = bs0 @ hdr @ data @ pad" "header_block hdr" "hdr_entry_size E hdr = Inr m"
      "length data = unat m" "length pad + rem = padding 512 (unat m)" "pad_bytes strict pad"
    using assms(1) by (auto elim: position_aligning_data)
  have n: "n = min rem (length buf)"
      "s' = (if rem - n = 0 then AlignedData else AligningData (rem - n))"
    using assms(2) AligningData by (auto simp: Let_def advance_def)
  let ?pad = "pad @ take n buf"
  have len: "length ?pad + (rem - n) = padding 512 (unat m)" using p(7) n(1) by simp
  have pad: "pad_bytes strict ?pad"
    using p(8) assms(4) AligningData by (auto simp: pad_bytes_def padding_fits_def)
  show ?thesis
  proof (cases "rem - n = 0")
    case True
    with len have "length ?pad = padding 512 (unat m)" by simp
    from aligned_data [OF more [OF p(1,4,5,6) this pad]] True show ?thesis
      using n(2) p(2,3) AligningData by (simp add: headers_after_def)
  next
    case False
    from aligning_data [OF p(1,4,5,6) len pad] False show ?thesis
      using n(2) p(2,3) AligningData by (simp add: headers_after_def)
  qed
next
  case AlignedData
  then have "whole_entries E strict hs bs" using assms(1) by (auto elim: position_aligned_data)
  from expecting_header [OF this] show ?thesis
    using assms(2) AlignedData by (simp add: headers_after_def)
next
  case (ReceivingEof rem)
  then obtain bs0 m where p: "whole_entries E strict hs bs0" "bs = bs0 @ replicate m 0"
      "m + rem = 1024" "0 < rem" "rem \<le> 512"
    using assms(1) by (auto elim: position_receiving_eof)
  have n: "n = min rem (length buf)" "all_zero (take n buf)"
      "s' = (if rem - n = 0 then ReceivedEof else ReceivingEof (rem - n))"
    using assms(2) ReceivingEof by (auto simp: read_run_def advance_def Let_def split: if_splits)
  have "take n buf = replicate n 0"
    using n(1,2) all_zero_iff_replicate [of "take n buf"] by simp
  then have bytes: "bs @ take n buf = bs0 @ replicate (m + n) 0"
    using p(2) by (simp add: replicate_add)
  show ?thesis
  proof (cases "rem - n = 0")
    case True
    then have "m + n = 1024" using p(3) n(1) by simp
    with received_eof [OF p(1)] True n(3) bytes ReceivingEof show ?thesis
      by (simp add: headers_after_def make_eof_data_def)
  next
    case False
    have "m + n + (rem - n) = 1024" using p(3) n(1) by simp
    from receiving_eof [OF p(1) this] False n(3) bytes p(5) ReceivingEof show ?thesis
      by (simp add: headers_after_def)
  qed
next
  case ReceivedEof
  with assms(2) show ?thesis by simp
qed

text \<open>
  Several transitions on the same bytes. A strict position needs zeros for the padding, or
  bytes that do not reach it.
\<close>

definition no_padding :: "state \<Rightarrow> bytes \<Rightarrow> bool" where
  "no_padding s buf \<longleftrightarrow>
     (case s of
        ReceivingData rem \<Rightarrow> length buf \<le> unat rem
      | ReceivedHeader \<Rightarrow> buf = [] | ReceivedData \<Rightarrow> buf = [] | AligningData rem \<Rightarrow> buf = []
      | _ \<Rightarrow> True)"

definition bytes_fit :: "bool \<Rightarrow> state \<Rightarrow> bytes \<Rightarrow> bool" where
  "bytes_fit strict s buf \<longleftrightarrow> strict \<longrightarrow> all_zero buf \<or> no_padding s buf"

lemma bytes_fit_reader [simp]: "bytes_fit False s buf"
  by (simp add: bytes_fit_def)

lemma bytes_fit_padding: "bytes_fit strict s buf \<Longrightarrow> padding_fits strict s buf"
  by (auto simp: bytes_fit_def padding_fits_def pad_bytes_def no_padding_def)

lemma bytes_fit_next:
  assumes "bytes_fit strict s buf" and "state_next E s buf h = Ok (s', n)" and "n < length buf"
    and "s' \<noteq> ReceivedHeader"
  shows "bytes_fit strict s' (drop n buf)"
proof -
  have "all_zero buf \<Longrightarrow> all_zero (drop n buf)"
    by (metis all_zero_simps(3) append_take_drop_id)
  moreover have "no_padding s' (drop n buf)" if "no_padding s buf"
    using that assms(2-4)
    by (cases s) (auto simp: no_padding_def Let_def read_run_def advance_def next_receiving_data_def
        bind_outcome_eq_Ok unat_minus_of_nat min_def split: if_splits)
  ultimately show ?thesis using assms(1) by (auto simp: bytes_fit_def)
qed

lemma header_fits_next:
  assumes "header_fits hs bs s h" and "state_next E s buf h = Ok (s', n)" and "s' \<noteq> ReceivedHeader"
  shows "header_fits (headers_after hs s h) bs' s' h"
  using assms
  by (cases s; cases h) (auto simp: Let_def next_receiving_data_def headers_after_def
      bind_outcome_eq_Ok entry_size_of_def split: if_splits prod.splits)

lemma headers_after_other: "s \<noteq> ReceivedHeader \<Longrightarrow> headers_after hs s h = hs"
  by (cases s) (simp_all add: headers_after_def)

lemma position_take_until:
  assumes "take_until E s slices_stop buf h = Ok (s', n)" and "position E strict hs bs s"
    and "header_fits hs bs s h" and "bytes_fit strict s buf"
  shows "position E strict (headers_after hs s h) (bs @ take n buf) s'"
  using assms
proof (induction s buf arbitrary: s' n hs bs
    rule: take_until_induct [where E = E and h = h and stop = slices_stop])
  case (step s buf)
  from step.prems(1) obtain s1 n1 where s1: "state_next E s buf h = Ok (s1, n1)"
    by (subst (asm) take_until_unfold) (auto simp: bind_outcome_eq_Ok)
  note position = position_step [OF step.prems(2) s1 step.prems(3) bytes_fit_padding [OF step.prems(4)]]
  show ?case
  proof (cases "s1 \<in> set slices_stop \<or> length buf \<le> n1")
    case True
    with step.prems(1) s1 have "s' = s1" "n = n1"
      by (simp_all add: take_until_unfold [of E s])
    with position show ?thesis by simp
  next
    case False
    then have other: "s1 \<noteq> ReceivedHeader" "s1 \<notin> set slices_stop" "n1 < length buf"
      by (auto simp: slices_stop_def)
    from step.prems(1) s1 False obtain m
      where m: "take_until E s1 slices_stop (drop n1 buf) h = Ok (s', m)" "n = n1 + m"
      by (auto simp: take_until_unfold [of E s] bind_outcome_eq_Ok)
    from step.IH [OF s1 other(2,3) m(1) position header_fits_next [OF step.prems(3) s1 other(1)]
        bytes_fit_next [OF step.prems(4) s1 other(3,1)]]
    show ?thesis
      using m(2) by (simp add: headers_after_other [OF other(1)] take_add)
  qed
qed

lemma position_take_slices:
  assumes "take_slices E s slices h = Ok (s', n)" and "position E strict hs bs s"
    and "header_fits hs bs s h" and "bytes_fit strict s (concat slices)"
  shows "position E strict (headers_after hs s h) (bs @ take n (concat slices)) s'"
  using position_take_until assms unfolding take_slices_eq_take_until by blast

text \<open>Taking bytes stops early only where the machine has a header or the end of the archive.\<close>

lemma take_until_stops:
  "take_until E s stop buf h = Ok (s', n) \<Longrightarrow>
    n \<le> length buf \<and> (n < length buf \<longrightarrow> s' \<in> set stop)"
proof (induction s buf arbitrary: s' n
    rule: take_until_induct [where E = E and h = h and stop = stop])
  case (step s buf)
  from step.prems obtain s1 n1 where s1: "state_next E s buf h = Ok (s1, n1)"
    by (subst (asm) take_until_unfold) (auto simp: bind_outcome_eq_Ok)
  note le = state_next_le [OF s1]
  show ?case
  proof (cases "s1 \<in> set stop \<or> length buf \<le> n1")
    case True
    with step.prems s1 le show ?thesis by (auto simp: take_until_unfold [of E s])
  next
    case False
    then have other: "s1 \<notin> set stop" "n1 < length buf" by auto
    from step.prems s1 False obtain m
      where m: "take_until E s1 stop (drop n1 buf) h = Ok (s', m)" "n = n1 + m"
      by (auto simp: take_until_unfold [of E s] bind_outcome_eq_Ok)
    from step.IH [OF s1 other m(1)] m(2) other(2) show ?thesis by auto
  qed
qed

text \<open>C24. The state of the machine always says how far the stream has been taken: if the
  state stands for the bytes taken so far (complete entries, then the part of a header, of
  data, of padding or of the end that its counter says), a successful \<open>take_slices\<close> with the
  header of the entry it is in ends in the state that stands for those bytes and the ones
  it reports, which are all it was given unless it stopped at a header or at the end.\<close>

theorem take_slices_keeps_position:
  assumes "position E False hs bs s" and "header_fits hs bs s h"
    and "take_slices E s slices h = Ok (s', n)"
  shows "position E False (headers_after hs s h) (bs @ take n (concat slices)) s' \<and>
    n \<le> length (concat slices) \<and> (n < length (concat slices) \<longrightarrow> s' \<in> {ReceivedHeader, ReceivedEof})"
  using position_take_slices [OF assms(3,1,2)] take_until_stops [of E s slices_stop "concat slices" h s' n]
    assms(3) by (auto simp: take_slices_eq_take_until slices_stop_def)

theorem take_slices_keeps_position_witness:
  "take_slices (sample_cfg True) ReceivedHeader
     [[7, 8], [9] @ replicate 509 0 @ sample_header 5, [5]] (Some (sample_header 3)) =
     Ok (ReceivedHeader, 1024) \<and>
   position (sample_cfg True) False [sample_header 3]
     (sample_header 3 @ [7, 8, 9] @ replicate 509 0 @ sample_header 5) ReceivedHeader"
proof -
  let ?E = "sample_cfg True" and ?slices = "[[7, 8], [9] @ replicate 509 0 @ sample_header 5, [5]]"
  have run: "take_slices ?E ReceivedHeader ?slices (Some (sample_header 3)) = Ok (ReceivedHeader, 1024)"
  proof -
    have "take_until ?E ReceivedHeader slices_stop (data @ pad @ hdr @ [5]) (Some (sample_header 3)) =
        Ok (ReceivedHeader, 1024)"
      if "length data = 3" "length pad = 509" "length hdr = 512" "\<not> all_zero hdr" for data pad hdr
    proof -
      have "hdr \<noteq> []" using that(3) by auto
      with that show ?thesis by (simp add: layout_steps padding_def)
    qed
    from this [of "[7, 8, 9]" "replicate 509 0" "sample_header 5"] show ?thesis
      by (simp add: take_slices_eq_take_until)
  qed
  have "position ?E False [] ([] @ sample_header 3) ReceivedHeader"
    by (rule received_header [OF none]) (simp add: header_block_def)
  from take_slices_keeps_position [OF this _ run]
  show ?thesis using run by (simp add: headers_after_def)
qed

end
