(* ===== verification/Reader_Calls.thy ===== *)
theory Reader_Calls
  imports Reading_Safety
begin

text \<open>
  What the result of a reading call tells the client (\<open>src/read/mod.rs\<close>): which entries
  \<open>next_entry\<close> hands out, over any source at all, when the stream of entries ends, what a
  single read returns, and a client that lists the entries and skips their data.
\<close>

section \<open>The result of next\_entry\<close>

lemma poll_next_state_marker:
  assumes "poll_next_state E read None a = (Ok (st, amt), a1)"
  shows "ar_state a \<noteq> ReceivedHeader \<and> ar_state a \<noteq> ReceivedData"
proof -
  obtain buf where "state_next E (ar_state a) buf None = Ok (st, amt)"
    using poll_next_state_OkD [OF assms] by metis
  then show ?thesis by (auto simp: entry_size_of_def)
qed

text \<open>What is known of the archive and the entry after a successful call.\<close>

definition next_entry_result :: "cfg \<Rightarrow> entry option \<Rightarrow> 'r archive \<Rightarrow> bool" where
  "next_entry_result E e a \<longleftrightarrow>
     (case e of
        None \<Rightarrow> is_terminal (ar_state a)
      | Some en \<Rightarrow> length (en_header en) = 512 \<and>
          hdr_cksum E (en_header en) = Inr (calc_cksum (en_header en)) \<and>
          (\<exists>size. hdr_size E (en_header en) = Inr size) \<and>
          (\<exists>n. hdr_entry_size E (en_header en) = Inr n \<and> ar_state a = ReceivingData n))"

lemma next_entry_loop_result:
  "next_entry_loop E read a = (Ok e, a') \<Longrightarrow> next_entry_result E e a'"
proof (induction E read a rule: next_entry_loop.induct)
  case (1 E read a)
  from "1.prems" obtain st amt a1
    where next_eq: "poll_next_state E read None a = (Ok (st, amt), a1)"
    by (subst (asm) next_entry_loop.simps) (auto simp: and_then_eq_Ok)
  note marker = poll_next_state_marker [OF next_eq]
  note run = "1.prems" [unfolded next_entry_loop.simps [of E read a] next_eq and_then_simps prod.case]
  have again: "next_entry_result E e a'"
    if "and_then (archive_consume E amt None a1) (\<lambda>_ a. next_entry_loop E read a) = (Ok e, a')"
      "\<And>a2. archive_consume E amt None a1 = (Ok (), a2) \<Longrightarrow>
        next_entry_loop E read a2 = (Ok e, a') \<Longrightarrow> next_entry_result E e a'"
    using that by (auto simp: and_then_eq_Ok)
  show ?case
  proof (cases st)
    case ReceivedHeader
    with run obtain x en where x: "512 \<le> length x" "hdr_cksum E (take 512 x) = Inr (calc_cksum (take 512 x))"
      and consume: "archive_consume E amt (Some (take 512 x)) a1 = (Ok (), a')"
      and en: "entry_new E (take 512 x) = Ok en" "e = Some en"
      by (auto simp: and_then_eq_Ok as_header_Ok)
    define hdr where "hdr = take 512 x"
    note hdr = x(2) consume en(1) [unfolded entry_new_Ok]
    have "settle E (Some hdr) ReceivedHeader = Ok (ar_state a')"
      using consume_reported [OF next_eq consume] marker ReceivedHeader by (simp add: hdr_def)
    then obtain n where "hdr_entry_size E hdr = Inr n" "ar_state a' = ReceivingData n"
      by (auto simp: settle_def entry_size_of_def bind_outcome_eq_Ok)
    with hdr x(1) en(2) show ?thesis
      by (auto simp: next_entry_result_def hdr_def)
  next
    case ReceivedEof
    with run obtain a2 where consume: "archive_consume E amt None a1 = (Ok (), a2)"
      and e: "e = None" "a' = a2"
      by (auto simp: and_then_eq_Ok)
    have "settle E None ReceivedEof = Ok (ar_state a2)"
      using consume_reported [OF next_eq consume] ReceivedEof by simp
    with e show ?thesis by (auto simp: next_entry_result_def settle_def)
  next
    case (ReceivingHeader rem b)
    show ?thesis
      by (rule again) (use run ReceivingHeader "1.IH" next_eq in auto)
  next
    case (ReceivingEof rem)
    show ?thesis
      by (rule again) (use run ReceivingEof "1.IH" next_eq in auto)
  next
    case (AligningData rem)
    show ?thesis
      by (rule again) (use run AligningData "1.IH" next_eq in auto)
  next
    case AlignedData
    show ?thesis
      by (rule again) (use run AlignedData "1.IH" next_eq in auto)
  qed (use run in auto)
qed

lemma next_entry_poll_result:
  "next_entry_poll E read a = (Ok e, a') \<Longrightarrow> next_entry_result E e a'"
  by (auto simp: next_entry_poll_eq poll_next_entry_def next_entry_result_def
      dest: next_entry_loop_result split: if_splits)

section \<open>A client that skips what it does not want\<close>

text \<open>
  For every entry, the client reads its data to the end where it wants the entry and calls
  \<open>skip\<close> where it does not.
\<close>

partial_function (option) read_wanted ::
  "cfg \<Rightarrow> 'r reader \<Rightarrow> usize \<Rightarrow> (entry \<Rightarrow> bool) \<Rightarrow> (entry \<times> bytes option) list \<Rightarrow> 'r archive \<Rightarrow>
    ((entry \<times> bytes option) list outcome \<times> 'r archive) option" where
  "read_wanted E read room want acc a =
     loop_then (next_entry_poll E read a) (\<lambda>e a. case e of
         None \<Rightarrow> Some (Ok acc, a)
       | Some en \<Rightarrow>
           if want en then
             Option.bind (read_entry_all E read en room [] a) (\<lambda>r.
               loop_then r (\<lambda>bs a. read_wanted E read room want (acc @ [(en, Some bs)]) a))
           else
             loop_then (entry_poll_skip E read en a) (\<lambda>_ a.
               read_wanted E read room want (acc @ [(en, None)]) a))"

declare read_wanted.simps [simp del]

definition wanted_part :: "(entry \<Rightarrow> bool) \<Rightarrow> header \<times> bytes \<Rightarrow> entry \<times> bytes option" where
  "wanted_part want e =
     (\<lparr>en_header = fst e\<rparr>, if want \<lparr>en_header = fst e\<rparr> then Some (snd e) else None)"

lemma read_wanted_entries:
  assumes "archive_wf a" and src: "block_source read rest" and room: "0 < room"
    and "\<And>e. e \<in> set es \<Longrightarrow> entry_fits E e \<and> (snd e = [] \<longrightarrow> want \<lparr>en_header = fst e\<rparr>)"
    and "entry_gap (ar_state a) = Some 0" and "unread rest a = archive_bytes es @ tail"
    and "aligned lack rest (ar_io a)" and tail: "512 dvd length tail + lack"
  obtains a' where
    "read_wanted E read room want acc a = Some (Ok (acc @ map (wanted_part want) es), a')"
    and "unread rest a' = tail"
  using assms(1,4-7)
proof (induction es arbitrary: a acc thesis)
  case Nil
  from archive_no_entry [OF Nil.prems(2) src Nil.prems(4,5), of E] obtain a1
    where a1: "poll_next_entry E read a = (Ok None, a1)" "unread rest a1 = tail" .
  then have "read_wanted E read room want acc a = Some (Ok acc, a1)"
    by (simp add: read_wanted.simps [of E read room want acc a] next_entry_poll_eq)
  with a1 show ?case using Nil.prems(1) by simp
next
  case (Cons e es)
  let ?en = "\<lparr>en_header = fst e\<rparr>" and ?tail = "archive_bytes es @ tail"
  have seq: "sequential read rest" using src by (simp add: block_source_def)
  from archive_next_entry [OF Cons.prems(2) src _ Cons.prems(4,5,6) tail, of E] Cons.prems(3)
  obtain n a1
    where hdr: "valid_header E (fst e) n" and data: "length (snd e) = unat n"
      and a1: "poll_next_entry E read a = (Ok (Some ?en), a1)" "archive_wf a1"
      "ar_state a1 = ReceivingData n"
      "unread rest a1 = snd e @ replicate (padding 512 (unat n)) 0 @ ?tail"
      "aligned lack rest (ar_io a1)"
    by metis
  note size = valid_headerD(4,6) [OF hdr]
  obtain a2 where a2: "archive_wf a2" "entry_gap (ar_state a2) = Some 0" "unread rest a2 = ?tail"
      "aligned lack rest (ar_io a2)"
      "read_wanted E read room want acc a = read_wanted E read room want (acc @ [wanted_part want e]) a2"
  proof (cases "want ?en")
    case True
    have "replicate (padding 512 (unat n)) 0 @ ?tail \<noteq> []" by simp
    from read_entry_all_entry [OF a1(2) seq room a1(3) data a1(4) _ this, of E ?en lack]
    obtain a2 where "read_entry_all E read ?en room [] a1 = Some (Ok (snd e), a2)"
        "archive_wf a2" "entry_gap (ar_state a2) = Some 0" "unread rest a2 = ?tail"
        "aligned lack rest (ar_io a2)"
      using size src a1(5) by auto
    with True that [of a2] a1(1) show thesis
      by (simp add: read_wanted.simps [of E read room want acc a] next_entry_poll_eq wanted_part_def)
  next
    case False
    with Cons.prems(3) [of e] have "snd e \<noteq> []" by auto
    with data a1(3) have "ar_state a1 = ReceivingData n \<and> 0 < unat n \<and> length (snd e) = unat n \<or>
        ar_state a1 = AligningData (length (replicate (padding 512 (unat n)) (0 :: u8))) \<and> snd e = []"
      by (metis length_greater_0_conv)
    from skip_entry_rest [OF a1(2) seq this a1(4) _ _ size(1), of lack] size(2)
    obtain a2 where "poll_skip_entry E read (fst e) a1 = (Ok (), a2)" "archive_wf a2"
        "ar_state a2 = ExpectingHeader" "unread rest a2 = ?tail"
        "block_source read rest \<Longrightarrow> aligned lack rest (ar_io a1) \<Longrightarrow> aligned lack rest (ar_io a2)"
      by auto
    with False that [of a2] a1(1,5) src show thesis
      by (simp add: read_wanted.simps [of E read room want acc a] next_entry_poll_eq wanted_part_def
          entry_poll_skip_def)
  qed
  show ?case
    by (rule Cons.IH [of "acc @ [wanted_part want e]", OF _ a2(1) _ a2(2-4)])
      (use a2(5) Cons.prems(1,3) in auto)
qed

section \<open>Properties of the calls\<close>

text \<open>
  C14. Every entry \<open>next_entry\<close> hands out has a header whose checksum was verified, its size
  and length can be read without a panic, and the archive stands at the start of exactly that
  much data; this holds over any source, whatever it returns.
\<close>

theorem next_entry_sound:
  assumes "next_entry_poll E read a = (Ok (Some en), a')"
  shows "as_header E (Block (en_header en)) = Ok (en_header en) \<and>
    (\<exists>size. entry_size E en = Ok size) \<and>
    (\<exists>n. entry_len E en = Ok n \<and> ar_state a' = ReceivingData n)"
  using next_entry_poll_result [OF assms]
  by (auto simp: next_entry_result_def as_header_Ok entry_size_def entry_len_def)

theorem next_entry_sound_witness:
  "\<exists>a a'. archive_with_capacity (archive_bytes [(sample_header 3, [1, 2, 3])]) 1 = Ok a \<and>
    next_entry_poll (sample_cfg True) cursor_read a = (Ok (Some \<lparr>en_header = sample_header 3\<rparr>), a') \<and>
    entry_len (sample_cfg True) \<lparr>en_header = sample_header 3\<rparr> = Ok 3 \<and> ar_state a' = ReceivingData 3"
proof -
  obtain a where a: "archive_with_capacity (archive_bytes [(sample_header 3, [1, 2, 3])]) 1 = Ok a"
    by (rule archive_with_capacity_Ok [of 1]) (simp_all add: usize_max_def usize_bits_def)
  obtain a' where a': "next_entry_poll (sample_cfg True) cursor_read a =
      (Ok (Some \<lparr>en_header = sample_header 3\<rparr>), a')"
    using first_entry [OF cursor_block_source _ a valid_sample_header [of True 3]]
    by (auto simp: archive_bytes_simps)
  with a next_entry_sound [OF a'] show ?thesis
    by (auto simp: entry_len_def)
qed

text \<open>
  The end is final: once the stream of entries has returned \<open>None\<close>, every later call of the
  stream or of \<open>next_entry\<close> returns \<open>None\<close> at once, with any source, and changes nothing.
\<close>

theorem entries_end_is_final:
  assumes "entries_poll_next E read a = (Ok None, a')"
  shows "entries_poll_next E' read' a' = (Ok None, a') \<and> next_entry_poll E' read' a' = (Ok None, a')"
proof -
  from assms have "next_entry_poll E read a = (Ok None, a')"
    by (auto simp: entries_poll_next_def next_entry_poll_eq
        split: prod.splits outcome.splits option.splits)
  then have "is_terminal (ar_state a')"
    using next_entry_poll_result by (force simp: next_entry_result_def)
  then show ?thesis
    by (simp add: entries_poll_next_def next_entry_poll_eq poll_next_entry_def)
qed

theorem entries_end_is_final_witness:
  "\<exists>a a'. archive_with_capacity (archive_bytes []) 1 = Ok a \<and>
    entries_poll_next (sample_cfg True) cursor_read a = (Ok None, a') \<and>
    entries_poll_next (sample_cfg False) cursor_read a' = (Ok None, a')"
proof -
  obtain a where a: "archive_with_capacity (archive_bytes []) 1 = Ok a" "archive_wf a"
      "ar_state a = ExpectingHeader" "ar_io a = archive_bytes []" "ar_bytes a = []"
    by (rule archive_with_capacity_Ok [of 1 "archive_bytes []"])
      (simp_all add: usize_max_def usize_bits_def)
  then obtain a' where "poll_next_entry (sample_cfg True) cursor_read a = (Ok None, a')"
    using archive_no_entry [OF a(2) cursor_block_source, of "[]" "sample_cfg True"]
    by (auto simp: unread_def)
  then have "entries_poll_next (sample_cfg True) cursor_read a = (Ok None, a')"
    by (simp add: entries_poll_next_def)
  with a(1) entries_end_is_final [OF this] show ?thesis by blast
qed

text \<open>
  C20. One read of an entry: it returns the next bytes of the stream, at least one of them and
  no more than the caller has room for or the entry has left, and moves the position by
  exactly those; with the last byte of the data the archive goes on to the padding.
\<close>

theorem entry_read_correct:
  assumes "archive_wf a" and "sequential read rest" and "unread rest a \<noteq> []"
    and "ar_state a = ReceivingData n" and "0 < unat n" and "0 < room"
    and "hdr_entry_size E (en_header en) = Inr tot"
    and "\<not> debug_assertions E \<or> unat tot + 511 < 2 ^ 64"
  shows "\<exists>m a'. entry_poll_read E read en room a = (Ok (take m (unread rest a)), a') \<and>
    0 < m \<and> m \<le> room \<and> m \<le> unat n \<and> m \<le> length (unread rest a) \<and>
    unread rest a' = drop m (unread rest a) \<and>
    ar_state a' = (if m = unat n then AligningData (padding 512 (unat tot))
      else ReceivingData (n - word_of_nat m))"
  by (rule entry_read_data [OF assms]) blast

theorem entry_read_correct_witness:
  "\<exists>m a'. entry_poll_read (sample_cfg True) cursor_read \<lparr>en_header = sample_header 3\<rparr> 2
      \<lparr>ar_buf = buf_new 512, ar_state = ReceivingData 3, ar_io = [7, 8, 9, 0]\<rparr> =
        (Ok (take m [7, 8, 9, 0]), a') \<and> 0 < m \<and> m \<le> 2 \<and>
    ar_state a' = ReceivingData (3 - word_of_nat m)"
proof -
  let ?a = "\<lparr>ar_buf = buf_new 512, ar_state = ReceivingData 3, ar_io = [7, 8, 9, 0]\<rparr>"
  have "archive_wf ?a" and "sequential cursor_read (\<lambda>r. r)"
    using cursor_block_source by (simp_all add: block_source_def)
  from entry_read_correct [OF this, of 3 2 "sample_cfg True" "\<lparr>en_header = sample_header 3\<rparr>" 3]
  obtain m a' where "entry_poll_read (sample_cfg True) cursor_read \<lparr>en_header = sample_header 3\<rparr> 2 ?a =
        (Ok (take m (unread (\<lambda>r. r) ?a)), a')" "0 < m" "m \<le> 2"
      "ar_state a' = (if m = unat (3 :: u64) then AligningData (padding 512 (unat (3 :: u64)))
        else ReceivingData (3 - word_of_nat m))"
    by (auto simp: unread_def)
  then show ?thesis by (auto simp: unread_def)
qed

text \<open>
  C17. Skipping does not disturb reading: over a source that is always ready and is read in whole
  blocks but for its end, a client that reads the entries it wants and skips the others,
  provided these have data, gets every header of the archive and exactly the
  data of the wanted entries, whatever the capacity and its own buffer.
\<close>

theorem read_wanted_decodes:
  assumes "block_source read rest" and "0 < room"
    and "0 < capacity" and "capacity * 512 \<le> usize_max"
    and "list_all (entry_fits E) es"
    and "list_all (\<lambda>e. snd e \<noteq> [] \<or> want \<lparr>en_header = fst e\<rparr>) es"
    and "rest io = archive_bytes es @ tail"
  shows "\<exists>a a'. archive_with_capacity io capacity = Ok a \<and>
    read_wanted E read room want [] a =
      Some (Ok (map (\<lambda>e. (\<lparr>en_header = fst e\<rparr>,
        if want \<lparr>en_header = fst e\<rparr> then Some (snd e) else None)) es), a') \<and>
    unread rest a' = tail"
proof -
  have fits: "\<And>e. e \<in> set es \<Longrightarrow> entry_fits E e \<and> (snd e = [] \<longrightarrow> want \<lparr>en_header = fst e\<rparr>)"
    using assms(5,6) by (auto simp: list_all_iff)
  obtain a where a: "archive_with_capacity io capacity = Ok a" "archive_wf a"
      "ar_state a = ExpectingHeader" "ar_io a = io" "ar_bytes a = []"
    using archive_with_capacity_Ok [OF assms(3,4)] by metis
  have "512 dvd length (archive_bytes es) + (length tail + padding 512 (length tail))"
    by (rule dvd_add [OF dvd_length_archive_bytes [of _ E] dvd_add_padding]) (use fits in auto)
  then have "aligned (padding 512 (length tail)) rest (ar_io a)"
    using assms(7) a(4) by (simp add: aligned_def add.assoc)
  from read_wanted_entries [OF a(2) assms(1,2) fits _ _ this, of es tail "[]"] obtain a'
    where "read_wanted E read room want [] a = Some (Ok (map (wanted_part want) es), a')"
      "unread rest a' = tail"
    using a assms(7) by (auto simp: unread_def dvd_add_padding)
  with a(1) show ?thesis by (auto simp: wanted_part_def [abs_def])
qed

theorem read_wanted_decodes_witness:
  "\<exists>a a'. archive_with_capacity
      (archive_bytes [(sample_header 3, [1, 2, 3]), (sample_header 2, [4, 5])]) 1 = Ok a \<and>
    read_wanted (sample_cfg True) cursor_read 2 (\<lambda>en. en_header en ! 135 = 2) [] a =
      Some (Ok [(\<lparr>en_header = sample_header 3\<rparr>, None),
        (\<lparr>en_header = sample_header 2\<rparr>, Some [4, 5])], a')"
  using read_wanted_decodes [OF cursor_block_source, of 2 1 "sample_cfg True"
      "[(sample_header 3, [1, 2, 3]), (sample_header 2, [4, 5])]" "\<lambda>en. en_header en ! 135 = 2" _ "[]"]
  by (auto simp: usize_max_def usize_bits_def)

end
