(* ===== verification/Reading_Layout.thy ===== *)
theory Reading_Layout
  imports Positions Reader_Calls
begin

text \<open>
  What is taken from the stream by reading (\<open>src/read/mod.rs\<close>): whatever a client does with
  the handles it is given, over a source that may be pending or fail, the bytes taken are the
  entries it was handed, in the layout of an archive, and the state is the position in it.
\<close>

section \<open>The invariant\<close>

text \<open>A source that loses nothing and is read in whole blocks, but for its end.\<close>

definition lossless_blocks :: "'r reader \<Rightarrow> ('r \<Rightarrow> bytes) \<Rightarrow> bool" where
  "lossless_blocks read rest \<longleftrightarrow> lossless read rest \<and>
     (\<forall>r room bs r'. read r room = (Ok bs, r') \<longrightarrow> 512 dvd room \<longrightarrow>
       512 dvd length bs \<or> rest r' = [])"

text \<open>
  The archive stands at a position of the stream, whose headers are \<open>hs\<close>. A header is never
  left half taken, except at the end of the stream.
\<close>

definition follows ::
  "cfg \<Rightarrow> ('r \<Rightarrow> bytes) \<Rightarrow> bytes \<Rightarrow> header list \<Rightarrow> 'r archive \<Rightarrow> bool" where
  "follows E rest stream hs a \<longleftrightarrow> archive_wf a \<and> ar_state a \<noteq> ReceivedHeader \<and>
     (\<exists>taken. stream = taken @ unread rest a \<and> position E False hs taken (ar_state a) \<and>
       (512 dvd length taken + length (ar_bytes a) \<or> rest (ar_io a) = [])) \<and>
     (\<forall>rem e. ar_state a = ReceivingHeader rem e \<longrightarrow> rem = 512 \<or> unread rest a = [])"

lemma follows_wf: "follows E rest stream hs a \<Longrightarrow> archive_wf a"
  by (simp add: follows_def)

text \<open>The header a call is given in the data of an entry.\<close>

definition in_data :: "state \<Rightarrow> bool" where
  "in_data s \<longleftrightarrow> (\<exists>rem. s = ReceivingData rem) \<or> s = ReceivedData"

definition data_left :: "state \<Rightarrow> usize" where
  "data_left s = (case s of ReceivingData rem \<Rightarrow> unat rem | _ \<Rightarrow> 0)"

lemma data_left_outside: "\<not> in_data s \<Longrightarrow> data_left s = 0"
  by (cases s) (simp_all add: in_data_def data_left_def)

lemma in_data_next:
  assumes "state_next E s buf h = Ok (s', n)" and "in_data s'" and "s \<noteq> ReceivedHeader"
  shows "in_data s"
  using assms by (cases s) (auto simp: in_data_def Let_def split: if_splits prod.splits)

lemma in_data_settle: "settle E h s = Ok s' \<Longrightarrow> s \<noteq> ReceivedHeader \<Longrightarrow> in_data s' \<Longrightarrow> in_data s"
  by (auto simp: settle_def bind_outcome_eq_Ok dest: in_data_next split: if_splits)

lemma header_fits_data:
  "s \<noteq> ReceivedHeader \<Longrightarrow> (in_data s \<Longrightarrow> hdr = last hs) \<Longrightarrow> header_fits hs bs s (Some hdr)"
  by (cases s) (auto simp: in_data_def)

lemma header_fits_none [simp]: "header_fits hs bs s None"
  by (cases s) auto

section \<open>Filling\<close>

lemma follows_fill:
  assumes fol: "follows E rest stream hs a" and src: "lossless_blocks read rest"
    and run: "poll_fill_buf read a = (r, a')" and ok: "\<not> panicked r"
  shows "follows E rest stream hs a'" and "ar_state a' = ar_state a"
proof -
  note wf = follows_wf [OF fol]
  have lossless: "lossless read rest" using src by (simp add: lossless_blocks_def)
  note same = poll_fill_buf_same [OF wf lossless run ok]
  then show "ar_state a' = ar_state a" by simp
  have aligned: "512 dvd length taken + length (ar_bytes a') \<or> rest (ar_io a') = []"
    if "512 dvd length taken + length (ar_bytes a) \<or> rest (ar_io a) = []" for taken :: bytes
  proof (cases "ar_bytes a \<noteq> [] \<or> ar_bytes a' = [] \<and> rest (ar_io a') = rest (ar_io a)")
    case True
    then show ?thesis using same that by (cases "ar_bytes a = []") auto
  next
    case False
    then have empty: "ar_bytes a = []" "read (ar_io a) (ar_capacity a) = (Ok (ar_bytes a'), ar_io a')"
      using same by (auto split: if_splits)
    then have "512 dvd length (ar_bytes a') \<or> rest (ar_io a') = []"
      using src archive_wfD(2) [OF wf] unfolding lossless_blocks_def by blast
    moreover have "rest (ar_io a) = ar_bytes a' @ rest (ar_io a')"
      using losslessD(1) [OF lossless empty(2)] by simp
    ultimately show ?thesis using that empty(1) by auto
  qed
  obtain taken where t: "stream = taken @ unread rest a" "position E False hs taken (ar_state a)"
      "512 dvd length taken + length (ar_bytes a) \<or> rest (ar_io a) = []"
    using fol by (auto simp: follows_def)
  have "stream = taken @ unread rest a'" "position E False hs taken (ar_state a')"
      "archive_wf a'" "ar_state a' \<noteq> ReceivedHeader"
      "\<forall>rem e. ar_state a' = ReceivingHeader rem e \<longrightarrow> rem = 512 \<or> unread rest a' = []"
    using fol same t(1,2) by (simp_all add: follows_def)
  with aligned [OF t(3)] show "follows E rest stream hs a'"
    unfolding follows_def by blast
qed

lemma follows_next_state:
  assumes fol: "follows E rest stream hs a" and src: "lossless_blocks read rest"
    and run: "poll_next_state E read h a = (r, a')" and ok: "\<not> panicked r"
  shows "follows E rest stream hs a'" and "ar_state a' = ar_state a"
    and "r = Ok (st, n) \<Longrightarrow> state_next E (ar_state a') (ar_bytes a') h = Ok (st, n)"
    and "r = Ok (st, n) \<Longrightarrow> is_terminal (ar_state a') \<or> ar_bytes a' \<noteq> []"
proof -
  obtain r1 a1 where fill: "poll_fill_buf read a = (r1, a1)" by fastforce
  have ok1: "\<not> panicked r1" using run ok fill by (cases r1) (auto simp: poll_next_state_def)
  note filled = follows_fill [OF fol src fill ok1]
  have bytes: "buffered_bytes (ar_buf a1) = Ok (ar_bytes a1)"
    using follows_wf [OF filled(1)] by (simp add: buffered_bytes_eq archive_wfD)
  have "a' = a1"
    using run fill bytes by (cases r1) (auto simp: poll_next_state_def)
  with filled show "follows E rest stream hs a'" "ar_state a' = ar_state a" by simp_all
  assume "r = Ok (st, n)"
  with run have "poll_next_state E read h a = (Ok (st, n), a')" by simp
  from poll_next_state_OkD [OF this] bytes filled(2) \<open>a' = a1\<close>
  show "state_next E (ar_state a') (ar_bytes a') h = Ok (st, n)"
    and "is_terminal (ar_state a') \<or> ar_bytes a' \<noteq> []"
    by (metis outcome.inject(1))+
qed

section \<open>Consuming\<close>

text \<open>
  Consuming takes bytes from the buffer, and settles; the caller says which header it passes
  and that it does not stop within a header.
\<close>

lemma settle_position:
  assumes "settle E h s = Ok s'" and "position E strict hs bs s" and "header_fits hs bs s h"
  shows "position E strict (headers_after hs s h) bs s'" and "s' \<noteq> ReceivedHeader"
proof -
  have "position E strict (headers_after hs s h) bs s' \<and> s' \<noteq> ReceivedHeader"
  proof (cases "settles s")
    case True
    then obtain n where step: "state_next E s [] h = Ok (s', n)"
      using assms(1) by (auto simp: settle_def bind_outcome_eq_Ok)
    moreover have "s' \<noteq> ReceivedHeader"
      using step assms(2) by (cases s) (auto simp: Let_def read_run_def next_receiving_data_def
          bind_outcome_eq_Ok elim: position_receiving_header split: if_splits)
    ultimately show ?thesis
      using position_step [OF assms(2) step assms(3)] by (simp add: padding_fits_def pad_bytes_def)
  next
    case False
    with assms have "s' = s" "s \<noteq> ReceivedHeader" by (auto simp: settle_def)
    with assms(2) show ?thesis by (simp add: headers_after_other)
  qed
  then show "position E strict (headers_after hs s h) bs s'" "s' \<noteq> ReceivedHeader" by simp_all
qed

lemma follows_consume:
  assumes fol: "follows E rest stream hs a"
    and run: "archive_consume E amt h a = (Ok (), a')"
    and take: "take_slices E (ar_state a) [take amt (ar_bytes a)] h = Ok (st, amt)"
    and fits: "header_fits hs [] (ar_state a) h"
      "\<And>taken. header_fits hs (taken @ take amt (ar_bytes a)) st h"
    and whole: "\<And>rem e. ar_state a' = ReceivingHeader rem e \<Longrightarrow>
      rem = 512 \<or> amt = length (ar_bytes a)"
  shows "follows E rest stream (headers_after hs st h) a'"
proof -
  note wf = follows_wf [OF fol]
  have c: "archive_wf a'" "ar_bytes a' = drop amt (ar_bytes a)" "ar_io a' = ar_io a"
      "settle E h st = Ok (ar_state a')" "amt \<le> length (ar_bytes a)"
    using archive_consume_cases [OF wf run] take by auto
  obtain taken where t: "stream = taken @ unread rest a" "position E False hs taken (ar_state a)"
      "512 dvd length taken + length (ar_bytes a) \<or> rest (ar_io a) = []" "ar_state a \<noteq> ReceivedHeader"
    using fol by (auto simp: follows_def)
  let ?taken = "taken @ take amt (ar_bytes a)"
  have stream: "stream = ?taken @ unread rest a'"
    using t(1) c(2,3) by (simp add: unread_def)
  have "header_fits hs taken (ar_state a) h"
    using fits(1) t(4) by (cases "ar_state a"; cases h) auto
  from position_take_slices [OF take t(2) this]
  have "position E False hs ?taken st"
    by (simp add: headers_after_other [OF t(4)])
  note pos = settle_position [OF c(4) this fits(2)]
  have aligned: "512 dvd length ?taken + length (ar_bytes a') \<or> rest (ar_io a') = []"
    using t(3) c(2,3,5) by simp
  have "unread rest a' = []" if st': "ar_state a' = ReceivingHeader rem e" "rem \<noteq> 512" for rem e
  proof -
    have empty: "ar_bytes a' = []" using whole [OF st'(1)] st'(2) c(2) by simp
    obtain hs' bs part where part: "whole_entries E False hs' bs" "?taken = bs @ part"
        "length part + rem = 512" "0 < rem"
      using pos(1) st'(1) by (auto elim: position_receiving_header)
    have "\<not> 512 dvd length part"
      using part(3,4) st'(2) by (auto dest!: dvd_imp_le split: if_splits)
    then have "\<not> 512 dvd length ?taken"
      using whole_entries_blocks [OF part(1)] part(2) by (simp add: dvd_add_right_iff)
    with aligned empty show ?thesis by (simp add: unread_def)
  qed
  with c(1) stream pos aligned show ?thesis unfolding follows_def by blast
qed

text \<open>Consuming what a transition reported.\<close>

lemma follows_consume_reported:
  assumes fol: "follows E rest stream hs a" and ok: "\<not> panicked r"
    and step: "state_next E (ar_state a) (ar_bytes a) h = Ok (st, amt)"
    and run: "archive_consume E amt h' a = (r, a')"
    and same: "h = h' \<or> ar_state a \<noteq> ReceivedHeader \<and> ar_state a \<noteq> ReceivedData"
    and fits: "header_fits hs [] (ar_state a) h'"
      "\<And>taken. header_fits hs (taken @ take amt (ar_bytes a)) st h'"
  shows "if r = Ok () then follows E rest stream (headers_after hs st h') a' else a' = a"
proof (cases "r = Ok ()")
  case False
  with archive_consume_cases [OF follows_wf [OF fol] run ok] show ?thesis by simp
next
  case True
  have step': "state_next E (ar_state a) (ar_bytes a) h' = Ok (st, amt)"
    using step same state_next_header_irrelevant [of "ar_state a" E "ar_bytes a" h h'] by auto
  note take = take_slices_exact [OF step']
  have settle: "settle E h' st = Ok (ar_state a')"
    using archive_consume_cases [OF follows_wf [OF fol] run ok] True take by auto
  have whole: "rem = 512 \<or> amt = length (ar_bytes a)" if "ar_state a' = ReceivingHeader rem e" for rem e
  proof -
    have "st = ReceivingHeader rem e"
      using settle that by (cases st) (auto simp: settle_def bind_outcome_eq_Ok Let_def
          next_receiving_data_def read_run_def entry_size_of_def split: if_splits option.splits)
    with step' show ?thesis
      by (cases "ar_state a") (auto simp: Let_def read_run_def advance_def next_receiving_data_def
          bind_outcome_eq_Ok entry_size_of_def min_def split: if_splits option.splits)
  qed
  from follows_consume [OF fol run [unfolded True] take fits whole] True show ?thesis by simp
qed

lemma follows_consume_none:
  assumes fol: "follows E rest stream hs a" and ok: "\<not> panicked r"
    and step: "state_next E (ar_state a) (ar_bytes a) h = Ok (st, amt)"
    and run: "archive_consume E amt None a = (r, a')"
  shows "follows E rest stream hs a'"
    and "r = Ok () \<Longrightarrow> \<not> in_data st \<Longrightarrow> \<not> in_data (ar_state a')"
    and "r \<noteq> Ok () \<Longrightarrow> a' = a"
proof -
  have "follows E rest stream hs a' \<and> (r = Ok () \<longrightarrow> \<not> in_data st \<longrightarrow> \<not> in_data (ar_state a'))"
  proof (cases "r = Ok ()")
    case False
    with archive_consume_cases [OF follows_wf [OF fol] run ok] fol show ?thesis by simp
  next
    case True
    note no_marker = consume_without_header [OF run [unfolded True]]
    note fol' = follows_consume_reported [OF fol ok step run, simplified, OF disjI2 [OF conjI [OF no_marker]]]
    have "take_slices E (ar_state a) [take amt (ar_bytes a)] None = Ok (st, amt)"
      using take_slices_exact [OF step] no_marker state_next_header_irrelevant [OF no_marker, of E _ h None]
        step by (metis take_slices_exact)
    then have settle: "settle E None st = Ok (ar_state a')"
      using archive_consume_cases [OF follows_wf [OF fol] run ok] True by auto
    then have "st \<noteq> ReceivedHeader" by (auto simp: settle_def entry_size_of_def)
    with fol' True in_data_settle [OF settle] show ?thesis
      by (auto simp: headers_after_other)
  qed
  then show "follows E rest stream hs a'"
    and "r = Ok () \<Longrightarrow> \<not> in_data st \<Longrightarrow> \<not> in_data (ar_state a')" by auto
  show "r \<noteq> Ok () \<Longrightarrow> a' = a"
    using archive_consume_cases [OF follows_wf [OF fol] run ok] by auto
qed

section \<open>Finding an entry\<close>

text \<open>
  A call that finds an entry adds its header. One that fails adds none, or one that could not
  be handed out; the archive then stays in the data of that entry.
\<close>

definition next_entry_follows ::
  "cfg \<Rightarrow> ('r \<Rightarrow> bytes) \<Rightarrow> bytes \<Rightarrow> header list \<Rightarrow> state \<Rightarrow> entry option outcome \<Rightarrow> 'r archive \<Rightarrow> bool"
  where
  "next_entry_follows E rest stream hs s r a' \<longleftrightarrow>
     (case r of
        Ok (Some en) \<Rightarrow> \<not> in_data s \<and> follows E rest stream (hs @ [en_header en]) a'
      | Ok None \<Rightarrow> \<not> in_data s \<and> follows E rest stream hs a'
      | Panic p \<Rightarrow> True
      | _ \<Rightarrow> follows E rest stream hs a' \<and> in_data (ar_state a') = in_data s \<and>
            data_left (ar_state a') = data_left s \<or>
          \<not> in_data s \<and> in_data (ar_state a') \<and> (\<exists>hdr. follows E rest stream (hs @ [hdr]) a'))"

lemma next_entry_follows_panic [simp]: "next_entry_follows E rest stream hs s (Panic p) a'"
  by (simp add: next_entry_follows_def)

lemma next_entry_follows_same:
  "follows E rest stream hs a' \<Longrightarrow> in_data (ar_state a') = in_data s \<Longrightarrow>
    data_left (ar_state a') = data_left s \<Longrightarrow>
    r = Err e \<or> r = Pending \<Longrightarrow> next_entry_follows E rest stream hs s r a'"
  by (auto simp: next_entry_follows_def)

lemma next_entry_follows_later:
  "next_entry_follows E rest stream hs s r a' \<Longrightarrow> \<not> in_data s \<Longrightarrow> \<not> in_data s' \<Longrightarrow>
    next_entry_follows E rest stream hs s' r a'"
  using data_left_outside [of s] data_left_outside [of s']
  by (cases r) (auto simp: next_entry_follows_def split: option.splits)

text \<open>The block of a header has been handed out whole.\<close>

lemma follows_received_header:
  assumes fol: "follows E rest stream hs a" and some: "ar_bytes a \<noteq> []"
    and step: "state_next E (ar_state a) (ar_bytes a) None = Ok (ReceivedHeader, amt)"
  shows "amt = 512" and "512 \<le> length (ar_bytes a)" and "\<not> in_data (ar_state a)"
    and "archive_consume E amt (Some (take 512 (ar_bytes a))) a = (r, a') \<Longrightarrow> \<not> panicked r \<Longrightarrow>
      if r = Ok () then follows E rest stream (hs @ [take 512 (ar_bytes a)]) a' \<and> in_data (ar_state a')
      else a' = a"
proof -
  obtain rem e where st: "ar_state a = ReceivingHeader rem e" "amt = min rem (length (ar_bytes a))"
      "rem - amt = 0"
    using step by (cases "ar_state a") (auto simp: Let_def read_run_def advance_def entry_size_of_def
        next_receiving_data_def bind_outcome_eq_Ok split: if_splits)
  moreover have "rem = 512" using fol some st(1) by (auto simp: follows_def unread_def)
  ultimately show amt: "amt = 512" "512 \<le> length (ar_bytes a)" by auto
  show "\<not> in_data (ar_state a)" using st(1) by (simp add: in_data_def)
  assume run: "archive_consume E amt (Some (take 512 (ar_bytes a))) a = (r, a')" and ok: "\<not> panicked r"
  let ?hdr = "take 512 (ar_bytes a)"
  have fits: "header_fits hs (taken @ take amt (ar_bytes a)) ReceivedHeader (Some ?hdr)" for taken
    using amt by simp
  have "in_data (ar_state a')" if "r = Ok ()"
  proof -
    have "state_next E (ar_state a) (ar_bytes a) (Some ?hdr) = Ok (ReceivedHeader, amt)"
      using step st(1) by simp
    from take_slices_exact [OF this] have "settle E (Some ?hdr) ReceivedHeader = Ok (ar_state a')"
      using archive_consume_cases [OF follows_wf [OF fol] run ok] that by auto
    then show ?thesis
      unfolding in_data_def by (auto simp: settle_def entry_size_of_def bind_outcome_eq_Ok) metis
  qed
  with follows_consume_reported [OF fol ok step run _ _ fits] st(1)
  show "if r = Ok () then follows E rest stream (hs @ [?hdr]) a' \<and> in_data (ar_state a') else a' = a"
    by (auto simp: headers_after_def)
qed

lemma next_entry_loop_follows:
  assumes "follows E rest stream hs a" and "lossless_blocks read rest"
    and "next_entry_loop E read a = (r, a')"
  shows "next_entry_follows E rest stream hs (ar_state a) r a'"
  using assms
proof (induction E read a rule: next_entry_loop.induct)
  case (1 E read a)
  obtain r1 a1 where r1: "poll_next_state E read None a = (r1, a1)" by fastforce
  note run = "1.prems"(3) [unfolded next_entry_loop.simps [of E read a] r1]
  show ?case
  proof (cases "panicked r1")
    case True
    then obtain p where "r1 = Panic p" by (cases r1) auto
    with run show ?thesis by (auto simp: next_entry_follows_def)
  next
    case False
    note filled = follows_next_state [OF "1.prems"(1,2) r1 False]
    show ?thesis
    proof (cases r1)
      case (Ok t)
      obtain st amt where t: "t = (st, amt)" by (cases t)
      note step = filled(3) [OF Ok [unfolded t]] and some = filled(4) [OF Ok [unfolded t]]
      note run = run [unfolded Ok t and_then_simps prod.case]
      note fol = filled(1) and IH = "1.IH" [OF r1 [unfolded Ok] t [symmetric]]
      have again: ?thesis
        if "\<not> in_data (ar_state a)" and "\<not> in_data st"
          and loop: "and_then (archive_consume E amt None a1) (\<lambda>_ a. next_entry_loop E read a) = (r, a')"
          and IH: "\<And>x a2. archive_consume E amt None a1 = (Ok x, a2) \<Longrightarrow>
            follows E rest stream hs a2 \<Longrightarrow> next_entry_loop E read a2 = (r, a') \<Longrightarrow>
            next_entry_follows E rest stream hs (ar_state a2) r a'"
      proof -
        obtain r2 a2 where r2: "archive_consume E amt None a1 = (r2, a2)" by fastforce
        show ?thesis
        proof (cases "panicked r2")
          case True
          with loop r2 show ?thesis by (cases r2) (auto simp: next_entry_follows_def)
        next
          case False
          note after = follows_consume_none [OF fol False step r2]
          show ?thesis
          proof (cases "r2 = Ok ()")
            case True
            with loop r2 after(1) IH have "next_entry_follows E rest stream hs (ar_state a2) r a'" by simp
            with after(2) [OF True] that(1,2) show ?thesis by (auto intro: next_entry_follows_later)
          next
            case other: False
            with loop after(3) have "a' = a1" "r = Pending \<or> (\<exists>e. r = Err e)"
              using r2 False by (cases r2; auto)+
            with fol filled(2) show ?thesis by (auto intro: next_entry_follows_same)
          qed
        qed
      qed
      have start: "\<not> in_data (ar_state a)" if "st \<noteq> ReceivedData" "\<forall>rem. st \<noteq> ReceivingData rem"
        using step that filled(2)
        by (auto simp: in_data_def next_receiving_data_def entry_size_of_def Let_def split: if_splits)
      show ?thesis
      proof (cases st)
        case ReceivedHeader
        have "ar_bytes a1 \<noteq> []"
          using some step ReceivedHeader
          by (cases "ar_state a1") (auto simp: Let_def read_run_def split: if_splits)
        note header = follows_received_header [OF fol this step [unfolded ReceivedHeader]]
        let ?hdr = "take 512 (ar_bytes a1)"
        note bytes = buffered_bytes_eq [OF archive_wfD(1) [OF follows_wf [OF fol]]]
        have run: "(r, a') = and_then (as_header E (Block ?hdr), a1) (\<lambda>header a.
            and_then (archive_consume E amt (Some header) a) (\<lambda>_ a.
            and_then (entry_new E header, a) (\<lambda>entry a. (Ok (Some entry), a))))"
          using run ReceivedHeader bytes header(2) by (simp add: slice_in_range from_bytes_as_bytes)
        show ?thesis
        proof (cases "as_header E (Block ?hdr)")
          case (Ok header)
          then have "header = ?hdr" by (simp add: as_header_Ok)
          with run Ok have run: "(r, a') = and_then (archive_consume E amt (Some ?hdr) a1) (\<lambda>_ a.
              and_then (entry_new E ?hdr, a) (\<lambda>entry a. (Ok (Some entry), a)))" by simp
          obtain r2 a2 where r2: "archive_consume E amt (Some ?hdr) a1 = (r2, a2)" by fastforce
          show ?thesis
          proof (cases "panicked r2")
            case True
            with run r2 show ?thesis by (cases r2) (auto simp: next_entry_follows_def)
          next
            case False
            note after = header(4) [OF r2 False]
            show ?thesis
            proof (cases "r2 = Ok ()")
              case True
              with run r2 have run: "(r, a') =
                  and_then (entry_new E ?hdr, a2) (\<lambda>entry a. (Ok (Some entry), a))" by simp
              show ?thesis
              proof (cases "entry_new E ?hdr")
                case (Ok en)
                then have "en_header en = ?hdr"
                  by (auto simp: entry_new_def bind_outcome_eq_Ok)
                with run Ok after True header(3) filled(2) show ?thesis
                  by (auto simp: next_entry_follows_def)
              qed (use run after True header(3) filled(2) in \<open>auto simp: next_entry_follows_def\<close>)
            next
              case other: False
              with run r2 False after fol header(3) filled(2) show ?thesis
                by (cases r2) (auto intro: next_entry_follows_same)
            qed
          qed
        qed (use run fol header(3) filled(2) in \<open>auto simp: next_entry_follows_def\<close>)
      next
        case ReceivedEof
        obtain r2 a2 where r2: "archive_consume E amt None a1 = (r2, a2)" by fastforce
        show ?thesis
        proof (cases "panicked r2")
          case True
          with run ReceivedEof r2 show ?thesis by (cases r2) (auto simp: next_entry_follows_def)
        next
          case False
          note after = follows_consume_none(1,3) [OF fol False step r2]
          show ?thesis
            using run ReceivedEof r2 False after start filled(2)
            by (cases r2) (auto simp: next_entry_follows_def)
        qed
      qed (use run start IH "1.prems"(2) in \<open>auto simp: in_data_def intro!: again\<close>)
    next
      case (Err e)
      with run filled(1,2) show ?thesis by (auto intro: next_entry_follows_same)
    next
      case Pending
      with run filled(1,2) show ?thesis by (auto intro: next_entry_follows_same)
    next
      case (Panic p)
      with False show ?thesis by simp
    qed
  qed
qed

section \<open>The data of an entry\<close>

text \<open>The handle fits: in the data, its header is that of the entry the archive is in.\<close>

definition handle_fits :: "header list \<Rightarrow> header \<Rightarrow> state \<Rightarrow> bool" where
  "handle_fits hs hdr s \<longleftrightarrow> in_data s \<longrightarrow> hdr = last hs"

lemma handle_fits_header:
  "handle_fits hs hdr s \<Longrightarrow> s \<noteq> ReceivedHeader \<Longrightarrow> header_fits hs bs s (Some hdr)"
  by (rule header_fits_data) (simp_all add: handle_fits_def)

lemma settle_receiving_header:
  "settle E h s = Ok (ReceivingHeader rem e) \<Longrightarrow> s = ReceivingHeader rem e"
  by (cases s) (auto simp: settle_def bind_outcome_eq_Ok Let_def next_receiving_data_def
      read_run_def entry_size_of_def split: if_splits option.splits)

lemma follows_receiving_header:
  assumes "follows E rest stream hs a" and "ar_state a = ReceivingHeader rem e"
  shows "0 < rem" and "rem = 512 \<or> ar_bytes a = []"
  using assms by (auto simp: follows_def unread_def elim: position_receiving_header)

lemma data_left_over:
  "state_next E s buf h = Ok (s', n) \<Longrightarrow> \<not> in_data s' \<Longrightarrow> data_left s = 0"
  by (cases s) (auto simp: data_left_def in_data_def next_receiving_data_def Let_def split: if_splits)

lemma data_left_settle:
  "settle E h s = Ok s' \<Longrightarrow> s \<noteq> ReceivedHeader \<Longrightarrow> data_left s' = data_left s"
  by (cases s) (auto simp: settle_def data_left_def bind_outcome_eq_Ok Let_def read_run_def
      next_receiving_data_def entry_size_of_def split: if_splits option.splits)

lemma data_left_next:
  assumes "state_next E s buf h = Ok (s', n)" and "length buf = amt" and "s \<noteq> ReceivedHeader"
    and "amt = 0 \<or> (\<exists>rem. s = ReceivingData rem \<and> amt \<le> unat rem)"
  shows "data_left s = amt + data_left s'"
proof (cases "\<exists>rem. s = ReceivingData rem")
  case True
  then obtain rem where rem: "s = ReceivingData rem" ..
  with assms(4) have le: "amt \<le> unat rem" by auto
  then have "s' = (if rem - word_of_nat amt = 0 then ReceivedData else ReceivingData (rem - word_of_nat amt))"
    using assms(1,2) rem by (auto simp: next_receiving_data_def Let_def advance_def)
  then have "data_left s' = unat (rem - word_of_nat amt)" by (simp add: data_left_def)
  with le rem unat_minus_of_nat [OF le] show ?thesis by (simp add: data_left_def)
next
  case False
  with assms show ?thesis
    by (cases s) (auto simp: data_left_def Let_def read_run_def entry_size_of_def bind_outcome_eq_Ok
        split: if_splits option.splits)
qed

lemma take_length_take: "take (length (take n xs)) xs = take n xs"
  by (simp add: min_def)

lemma follows_consume_entry:
  assumes fol: "follows E rest stream hs a" and fits: "handle_fits hs hdr (ar_state a)"
    and amt: "amt = 0 \<or> (\<exists>rem. ar_state a = ReceivingData rem \<and> amt \<le> unat rem)"
    and run: "archive_consume E amt (Some hdr) a = (r, a')" and ok: "\<not> panicked r"
  shows "follows E rest stream hs a'" and "handle_fits hs hdr (ar_state a')"
    and "if r = Ok () then unread rest a = take amt (ar_bytes a) @ unread rest a' \<and>
        data_left (ar_state a) = amt + data_left (ar_state a')
      else a' = a"
proof -
  have "follows E rest stream hs a' \<and> handle_fits hs hdr (ar_state a') \<and>
    (if r = Ok () then unread rest a = take amt (ar_bytes a) @ unread rest a' \<and>
        data_left (ar_state a) = amt + data_left (ar_state a')
      else a' = a)"
  proof (cases "r = Ok ()")
    case False
    with archive_consume_cases [OF follows_wf [OF fol] run ok] fol fits show ?thesis by auto
  next
    case True
    let ?data = "take amt (ar_bytes a)" and ?h = "Some hdr"
    obtain st where c: "amt \<le> length (ar_bytes a)" "settle E ?h st = Ok (ar_state a')"
        and take: "take_slices E (ar_state a) [?data] ?h = Ok (st, amt)"
      using archive_consume_cases [OF follows_wf [OF fol] run ok] True by auto
    have no_header: "ar_state a \<noteq> ReceivedHeader" using fol by (simp add: follows_def)
    obtain n where step: "state_next E (ar_state a) ?data ?h = Ok (st, n)"
    proof (cases "amt = 0")
      case True
      with take that show thesis
        by (auto simp: take_slices_eq_take_until take_until_unfold [of E "ar_state a"]
            bind_outcome_eq_Ok split: if_splits)
    next
      case False
      with amt obtain rem where rem: "ar_state a = ReceivingData rem" "amt \<le> unat rem" by auto
      then obtain st1 where "state_next E (ar_state a) ?data ?h = Ok (st1, amt)"
        using c(1) by (simp add: next_receiving_data_def Let_def advance_def)
      from take_slices_exact [OF this] take this that show thesis by simp
    qed
    have st: "st \<noteq> ReceivedHeader"
      using step amt follows_receiving_header(1) [OF fol]
      by (cases "ar_state a") (auto simp: Let_def next_receiving_data_def read_run_def advance_def
          bind_outcome_eq_Ok split: if_splits)
    have fits': "handle_fits hs hdr st"
      using in_data_next [OF step _ no_header] fits by (auto simp: handle_fits_def)
    have whole: "rem = 512 \<or> amt = length (ar_bytes a)" if "ar_state a' = ReceivingHeader rem e" for rem e
      using settle_receiving_header [OF c(2) [unfolded that]] step amt
        follows_receiving_header [OF fol]
      by (cases "ar_state a") (auto simp: Let_def next_receiving_data_def read_run_def advance_def
          bind_outcome_eq_Ok entry_size_of_def split: if_splits)
    have "follows E rest stream (headers_after hs st ?h) a'"
      by (rule follows_consume [OF fol run [unfolded True] take])
        (use whole fits fits' no_header st in \<open>auto intro: handle_fits_header\<close>)
    moreover have "handle_fits hs hdr (ar_state a')"
      using fits' in_data_settle [OF c(2) st] by (auto simp: handle_fits_def)
    moreover have "unread rest a = take amt (ar_bytes a) @ unread rest a'"
      using archive_consume_cases [OF follows_wf [OF fol] run ok] True
      by (auto simp: unread_def append_assoc [symmetric] simp del: append_assoc)
    moreover have "data_left (ar_state a) = amt + data_left st"
      using step amt c(1) no_header by (intro data_left_next) auto
    moreover have "data_left (ar_state a') = data_left st" by (rule data_left_settle [OF c(2) st])
    ultimately show ?thesis using st True by (simp add: headers_after_other)
  qed
  then show "follows E rest stream hs a'" "handle_fits hs hdr (ar_state a')"
    and "if r = Ok () then unread rest a = take amt (ar_bytes a) @ unread rest a' \<and>
        data_left (ar_state a) = amt + data_left (ar_state a')
      else a' = a" by blast+
qed

text \<open>What reading returns is at the front of the buffer, and no more than what is missing.\<close>

definition data_result :: "bytes outcome \<Rightarrow> 'r archive \<Rightarrow> bool" where
  "data_result r a \<longleftrightarrow> (\<forall>bs. r = Ok bs \<longrightarrow> bs = [] \<or>
     bs = take (length bs) (ar_bytes a) \<and>
     (\<exists>rem. ar_state a = ReceivingData rem \<and> length bs \<le> unat rem))"

lemma poll_read_entry_follows:
  assumes "follows E rest stream hs a" and "lossless_blocks read rest"
    and "handle_fits hs hdr (ar_state a)"
    and "poll_read_entry E read hdr a = (r, a')" and "\<not> panicked r"
  shows "follows E rest stream hs a' \<and> handle_fits hs hdr (ar_state a') \<and> data_result r a' \<and>
    data_left (ar_state a') = data_left (ar_state a)"
  using assms
proof (induction E read hdr a rule: poll_read_entry.induct)
  case (1 E read hdr a)
  obtain r1 a1 where r1: "poll_next_state E read (Some hdr) a = (r1, a1)" by fastforce
  note run = "1.prems"(4) [unfolded poll_read_entry.simps [of E read hdr a] r1]
  have ok1: "\<not> panicked r1" using run "1.prems"(5) by (cases r1) auto
  note filled = follows_next_state [OF "1.prems"(1,2) r1 ok1]
  show ?case
  proof (cases r1)
    case (Ok t)
    obtain st amt where t: "t = (st, amt)" by (cases t)
    note step = filled(3) [OF Ok [unfolded t]]
    note run = run [unfolded Ok t and_then_simps prod.case]
    note fol = filled(1) and IH = "1.IH" [OF r1 [unfolded Ok] t [symmetric]]
    have no_header: "ar_state a1 \<noteq> ReceivedHeader" using fol by (simp add: follows_def)
    note bytes = buffered_bytes_eq [OF archive_wfD(1) [OF follows_wf [OF fol]]]
    have data: ?thesis
      if "in_data st"
        and loop: "and_then (buffered_bytes (ar_buf a1), a1) (\<lambda>buf a. (slice_to buf amt, a)) = (r, a')"
    proof -
      have "r = Ok (take amt (ar_bytes a1))" "a' = a1"
        using loop bytes state_next_le [OF step] by (auto simp: slice_in_range)
      moreover have "amt = 0 \<or> (\<exists>rem. ar_state a1 = ReceivingData rem \<and> amt \<le> unat rem)"
        using step that(1) no_header
        by (cases "ar_state a1") (auto simp: in_data_def Let_def next_receiving_data_def advance_def
            bind_outcome_eq_Ok split: if_splits prod.splits)
      ultimately show ?thesis
        using fol "1.prems"(3) filled(2) take_length_take [of amt "ar_bytes a1"]
          le_trans [OF eq_imp_le [OF length_take] min.cobounded2, of amt "ar_bytes a1"]
        by (auto simp: data_result_def simp del: length_take)
    qed
    show ?thesis
    proof (cases st)
      case (AligningData rem)
      obtain r2 a2 where r2: "archive_consume E amt None a1 = (r2, a2)" by fastforce
      note loop = run [unfolded AligningData, simplified, unfolded r2]
      have ok2: "\<not> panicked r2" using loop "1.prems"(5) by (cases r2) auto
      note after = follows_consume_none [OF fol ok2 step r2]
      show ?thesis
      proof (cases "r2 = Ok ()")
        case True
        have "\<not> in_data st" using AligningData by (simp add: in_data_def)
        with after(2) [OF True] have outside: "\<not> in_data (ar_state a2)" by blast
        then have "handle_fits hs hdr (ar_state a2)" by (simp add: handle_fits_def)
        with IH [OF AligningData _ after(1) "1.prems"(2)] r2 loop True "1.prems"(5)
        have "follows E rest stream hs a' \<and> handle_fits hs hdr (ar_state a') \<and> data_result r a' \<and>
          data_left (ar_state a') = data_left (ar_state a2)" by simp
        moreover have "data_left (ar_state a) = 0"
          using data_left_over [OF step] AligningData filled(2) by (simp add: in_data_def)
        ultimately show ?thesis using data_left_outside [OF outside] by simp
      next
        case False
        with archive_consume_cases [OF follows_wf [OF fol] r2 ok2] have "a2 = a1" by simp
        with False loop fol "1.prems"(3) filled(2) show ?thesis
          by (cases r2) (auto simp: data_result_def)
      qed
    next
      case AlignedData
      obtain r2 a2 where r2: "archive_consume E amt (Some hdr) a1 = (r2, a2)" by fastforce
      note loop = run [unfolded AlignedData, simplified, unfolded r2]
      have ok2: "\<not> panicked r2" using loop "1.prems"(5) by (cases r2) auto
      have "header_fits hs [] (ar_state a1) (Some hdr)"
        using "1.prems"(3) filled(2) no_header by (intro handle_fits_header) simp_all
      note reported = follows_consume_reported [OF fol ok2 step r2 _ this]
      then have after: "if r2 = Ok () then follows E rest stream hs a2 else a2 = a1"
        unfolding AlignedData by (auto simp: headers_after_def)
      show ?thesis
      proof (cases "r2 = Ok ()")
        case True
        have "settle E (Some hdr) AlignedData = Ok (ar_state a2)"
          using archive_consume_cases [OF follows_wf [OF fol] r2 ok2] True
            take_slices_exact [OF step] AlignedData by auto
        then have outside: "\<not> in_data (ar_state a2)" by (auto simp: settle_def in_data_def)
        moreover have "data_left (ar_state a) = 0"
          using data_left_over [OF step] AlignedData filled(2) by (simp add: in_data_def)
        ultimately show ?thesis
          using True after loop data_left_outside [OF outside]
          by (auto simp: data_result_def handle_fits_def)
      next
        case False
        with after loop fol "1.prems"(3) filled(2) show ?thesis
          by (cases r2) (auto simp: data_result_def)
      qed
    qed (use run data "1.prems"(5) in \<open>auto simp: in_data_def\<close>)
  qed (use run filled(1,2) "1.prems"(3,5) in \<open>auto simp: data_result_def\<close>)
qed

lemma data_result_amount:
  "data_result (Ok bs) a \<Longrightarrow> amt \<le> length bs \<Longrightarrow>
    amt = 0 \<or> (\<exists>rem. ar_state a = ReceivingData rem \<and> amt \<le> unat rem)"
  by (force simp: data_result_def)

text \<open>
  What a read delivers is what follows in the stream, taken from the data that is left; a
  read that gives no data leaves as much as there was.
\<close>

definition read_delivers ::
  "cfg \<Rightarrow> ('r \<Rightarrow> bytes) \<Rightarrow> bytes \<Rightarrow> header list \<Rightarrow> 'r archive \<Rightarrow> bytes outcome \<Rightarrow> 'r archive \<Rightarrow> bool"
  where
  "read_delivers E rest stream hs a r a' \<longleftrightarrow>
     (if \<exists>bs. r = Ok bs then
        \<exists>bs b. r = Ok bs \<and> follows E rest stream hs b \<and> unread rest b = bs @ unread rest a' \<and>
          data_left (ar_state b) = data_left (ar_state a) \<and>
          data_left (ar_state a) = length bs + data_left (ar_state a') \<and>
          (bs = [] \<or> in_data (ar_state b))
      else data_left (ar_state a') = data_left (ar_state a))"

lemma entry_poll_read_follows:
  assumes fol: "follows E rest stream hs a" and src: "lossless_blocks read rest"
    and fits: "handle_fits hs (en_header en) (ar_state a)"
    and run: "entry_poll_read E read en room a = (r, a')" and ok: "\<not> panicked r"
  shows "follows E rest stream hs a'" and "handle_fits hs (en_header en) (ar_state a')"
    and "read_delivers E rest stream hs a r a'"
proof -
  have "follows E rest stream hs a' \<and> handle_fits hs (en_header en) (ar_state a') \<and>
    read_delivers E rest stream hs a r a'"
  proof (cases "room = 0")
    case True
    with run fol fits show ?thesis by (auto simp: entry_poll_read_def read_delivers_def)
  next
    case False
    obtain r1 a1 where r1: "poll_read_entry E read (en_header en) a = (r1, a1)" by fastforce
    note run = run [unfolded entry_poll_read_def entry_poll_fill_buf_def r1]
    have ok1: "\<not> panicked r1" using run ok False by (cases r1) auto
    note read = poll_read_entry_follows [OF fol src fits r1 ok1]
    show ?thesis
    proof (cases r1)
      case (Ok bs)
      let ?n = "min (length bs) room"
      obtain r2 a2 where r2: "archive_consume E ?n (Some (en_header en)) a1 = (r2, a2)" by fastforce
      have loop: "(r, a') = and_then (r2, a2) (\<lambda>_ a. (Ok (take ?n bs), a))"
        using run False Ok r2 by (simp add: entry_consume_def slice_in_range Let_def)
      have ok2: "\<not> panicked r2" using loop ok by (cases r2) auto
      have same: "a' = a2" using loop by (cases r2) auto
      have a1: "follows E rest stream hs a1" "handle_fits hs (en_header en) (ar_state a1)"
          "data_result (Ok bs) a1" "data_left (ar_state a1) = data_left (ar_state a)"
        using read Ok by simp_all
      note after = follows_consume_entry [OF a1(1,2) data_result_amount [OF a1(3), of ?n] r2 ok2]
      show ?thesis
      proof (cases "r2 = Ok ()")
        case True
        let ?bs = "take ?n bs"
        have "r = Ok ?bs" using loop True by simp
        moreover have "?bs = take ?n (ar_bytes a1)" "?n = length ?bs" "?bs = [] \<or> in_data (ar_state a1)"
          using a1(3) by (auto simp: data_result_def in_data_def min_def)
            (metis min.absorb2 min.commute nat_le_linear take_take)+
        ultimately show ?thesis
          using after True a1 same unfolding read_delivers_def by auto
      next
        case other: False
        then have "\<nexists>bs. r = Ok bs" using loop by (cases r2) auto
        with after other a1 same show ?thesis by (simp add: read_delivers_def)
      qed
    qed (use run False read ok in \<open>auto simp: read_delivers_def\<close>)
  qed
  then show "follows E rest stream hs a'" "handle_fits hs (en_header en) (ar_state a')"
    and "read_delivers E rest stream hs a r a'" by blast+
qed

lemma poll_skip_entry_follows:
  assumes "follows E rest stream hs a" and "lossless_blocks read rest"
    and "handle_fits hs hdr (ar_state a)"
    and "poll_skip_entry E read hdr a = (r, a')" and "\<not> panicked r"
  shows "follows E rest stream hs a' \<and> handle_fits hs hdr (ar_state a')"
  using assms
proof (induction E read hdr a rule: poll_skip_entry.induct)
  case (1 E read hdr a)
  obtain r1 a1 where r1: "poll_read_entry E read hdr a = (r1, a1)" by fastforce
  note run = "1.prems"(4) [unfolded poll_skip_entry.simps [of E read hdr a] r1]
  have ok1: "\<not> panicked r1" using run "1.prems"(5) by (cases r1) auto
  note read = poll_read_entry_follows [OF "1.prems"(1-3) r1 ok1]
  show ?case
  proof (cases r1)
    case (Ok bs)
    show ?thesis
    proof (cases "bs = []")
      case True
      with run Ok read show ?thesis by (auto simp: assert_that_def split: if_splits)
    next
      case False
      then have some: "length bs \<noteq> 0" by simp
      obtain r2 a2 where r2: "archive_consume E (length bs) (Some hdr) a1 = (r2, a2)" by fastforce
      have loop: "(r, a') = and_then (r2, a2) (\<lambda>_ a. poll_skip_entry E read hdr a)"
        using run Ok False r2 by (simp add: Let_def)
      have ok2: "\<not> panicked r2" using loop "1.prems"(5) by (cases r2) auto
      have "data_result (Ok bs) a1" using read Ok by simp
      from follows_consume_entry [OF _ _ data_result_amount [OF this order_refl] r2 ok2] read
      have after: "follows E rest stream hs a2" "handle_fits hs hdr (ar_state a2)" by auto
      show ?thesis
      proof (cases "r2 = Ok ()")
        case True
        with "1.IH" [OF r1 [unfolded Ok] refl some _ after(1) "1.prems"(2) after(2)] r2 loop "1.prems"(5)
        show ?thesis by auto
      next
        case other: False
        then have "a' = a2" using loop by (cases r2) auto
        with after show ?thesis by simp
      qed
    qed
  qed (use run read in auto)
qed

section \<open>Runs of a client\<close>

text \<open>
  A client owns the archive and at most one handle to an entry, as the borrow checker
  demands: looking for the next entry gives up the handle, everything else goes through it. A
  run has the headers of the entries handed out so far, and says whether the client holds
  the handle of the last of them. Buffered reading consumes no more than it was shown.
\<close>

inductive reading_run ::
  "cfg \<Rightarrow> 'r reader \<Rightarrow> 'r archive \<Rightarrow> header list \<Rightarrow> bool \<Rightarrow> 'r archive \<Rightarrow> bool"
  for E :: cfg and read :: "'r reader" and a :: "'r archive" where
  start: "reading_run E read a [] False a"
| entry_found: "reading_run E read a hs held b \<Longrightarrow> next_entry_poll E read b = (Ok (Some en), c) \<Longrightarrow>
    reading_run E read a (hs @ [en_header en]) True c"
| no_entry: "reading_run E read a hs held b \<Longrightarrow> next_entry_poll E read b = (r, c) \<Longrightarrow>
    \<not> panicked r \<Longrightarrow> (\<And>en. r \<noteq> Ok (Some en)) \<Longrightarrow> reading_run E read a hs False c"
| reads: "reading_run E read a hs True b \<Longrightarrow> en_header en = last hs \<Longrightarrow>
    entry_poll_read E read en room b = (r, c) \<Longrightarrow> \<not> panicked r \<Longrightarrow> reading_run E read a hs True c"
| shows_data: "reading_run E read a hs True b \<Longrightarrow> en_header en = last hs \<Longrightarrow>
    entry_poll_fill_buf E read en b = (r, c) \<Longrightarrow> \<not> panicked r \<Longrightarrow> reading_run E read a hs True c"
| consumes: "reading_run E read a hs True b \<Longrightarrow> en_header en = last hs \<Longrightarrow>
    entry_poll_fill_buf E read en b = (Ok bs, c) \<Longrightarrow> amt \<le> length bs \<Longrightarrow>
    entry_consume E en amt c = (r, d) \<Longrightarrow> \<not> panicked r \<Longrightarrow> reading_run E read a hs True d"
| skips: "reading_run E read a hs True b \<Longrightarrow> en_header en = last hs \<Longrightarrow>
    entry_poll_skip E read en b = (r, c) \<Longrightarrow> \<not> panicked r \<Longrightarrow> reading_run E read a hs True c"

text \<open>
  Where the client holds a handle, the headers of the stream are those handed out; otherwise
  there may be one more, of an entry that could not be handed out.
\<close>

definition run_follows ::
  "cfg \<Rightarrow> ('r \<Rightarrow> bytes) \<Rightarrow> bytes \<Rightarrow> header list \<Rightarrow> bool \<Rightarrow> 'r archive \<Rightarrow> bool" where
  "run_follows E rest stream hs held a \<longleftrightarrow>
     (if held then follows E rest stream hs a
      else follows E rest stream hs a \<or>
        in_data (ar_state a) \<and> (\<exists>hdr. follows E rest stream (hs @ [hdr]) a))"

lemma next_entry_poll_outcome:
  assumes fol: "follows E rest stream hs a" and src: "lossless_blocks read rest"
    and run: "next_entry_poll E read a = (r, a')"
  shows "next_entry_follows E rest stream hs (ar_state a) r a'"
proof (cases "is_terminal (ar_state a)")
  case True
  then have "r = Ok None" "a' = a" "\<not> in_data (ar_state a)"
    using run by (auto simp: next_entry_poll_eq poll_next_entry_def in_data_def)
  with fol show ?thesis by (simp add: next_entry_follows_def)
next
  case False
  with run have "next_entry_loop E read a = (r, a')"
    by (simp add: next_entry_poll_eq poll_next_entry_def)
  with next_entry_loop_follows [OF fol src] show ?thesis by blast
qed

lemma next_entry_poll_follows:
  assumes "run_follows E rest stream hs held a" and src: "lossless_blocks read rest"
    and run: "next_entry_poll E read a = (r, a')" and ok: "\<not> panicked r"
  shows "case r of
      Ok (Some en) \<Rightarrow> follows E rest stream (hs @ [en_header en]) a'
    | _ \<Rightarrow> run_follows E rest stream hs False a'"
proof (cases "follows E rest stream hs a")
  case True
  from next_entry_poll_outcome [OF this src run] ok show ?thesis
    by (cases r) (auto simp: next_entry_follows_def run_follows_def split: option.splits)
next
  case False
  with assms(1) obtain hdr where "in_data (ar_state a)" "follows E rest stream (hs @ [hdr]) a"
    by (auto simp: run_follows_def split: if_splits)
  from next_entry_poll_outcome [OF this(2) src run] this(1) ok show ?thesis
    by (cases r) (auto simp: next_entry_follows_def run_follows_def split: option.splits)
qed

lemma reading_run_follows:
  assumes "reading_run E read a hs held a'" and src: "lossless_blocks read rest"
    and start: "follows E rest stream [] a"
  shows "run_follows E rest stream hs held a' \<and>
    (held \<longrightarrow> handle_fits hs (last hs) (ar_state a'))"
  using assms(1)
proof (induction rule: reading_run.induct)
  case start
  with assms(3) show ?case by (simp add: run_follows_def)
next
  case (entry_found hs held b en c)
  then show ?case
    using next_entry_poll_follows [OF _ src entry_found.hyps(2)]
    by (auto simp: run_follows_def handle_fits_def)
next
  case (no_entry hs held b r c)
  have no_entry_case: "case r of
      Ok (Some en) \<Rightarrow> follows E rest stream (hs @ [en_header en]) c
    | _ \<Rightarrow> run_follows E rest stream hs False c"
    using next_entry_poll_follows [OF _ src no_entry.hyps(2,3)] no_entry.IH by blast
  show ?case
  proof (cases r)
    case (Ok found)
    with no_entry.hyps(4) have "found = None" by (cases found) auto
    with no_entry_case Ok show ?thesis by simp
  qed (use no_entry_case in simp_all)
next
  case (reads hs b en room r c)
  have "follows E rest stream hs b" "handle_fits hs (en_header en) (ar_state b)"
    using reads.IH reads.hyps(2) by (simp_all add: run_follows_def)
  from entry_poll_read_follows [OF this(1) src this(2) reads.hyps(3,4)] reads.hyps(2)
  show ?case by (simp add: run_follows_def)
next
  case (shows_data hs b en r c)
  have "follows E rest stream hs b" "handle_fits hs (en_header en) (ar_state b)"
    using shows_data.IH shows_data.hyps(2) by (simp_all add: run_follows_def)
  from poll_read_entry_follows [OF this(1) src this(2)
      shows_data.hyps(3) [unfolded entry_poll_fill_buf_def] shows_data.hyps(4)] shows_data.hyps(2)
  show ?case by (simp add: run_follows_def)
next
  case (consumes hs b en bs c amt r d)
  have "follows E rest stream hs b" "handle_fits hs (en_header en) (ar_state b)"
    using consumes.IH consumes.hyps(2) by (simp_all add: run_follows_def)
  from poll_read_entry_follows [OF this(1) src this(2)
      consumes.hyps(3) [unfolded entry_poll_fill_buf_def]]
  have shown: "follows E rest stream hs c" "handle_fits hs (en_header en) (ar_state c)"
      "data_result (Ok bs) c"
    by simp_all
  from follows_consume_entry [OF shown(1,2) data_result_amount [OF shown(3) consumes.hyps(4)]
      consumes.hyps(5) [unfolded entry_consume_def] consumes.hyps(6)] consumes.hyps(2)
  show ?case by (simp add: run_follows_def)
next
  case (skips hs b en r c)
  have "follows E rest stream hs b" "handle_fits hs (en_header en) (ar_state b)"
    using skips.IH skips.hyps(2) by (simp_all add: run_follows_def)
  from poll_skip_entry_follows [OF this(1) src this(2)
      skips.hyps(3) [unfolded entry_poll_skip_def] skips.hyps(4)] skips.hyps(2)
  show ?case by (simp add: run_follows_def)
qed

section \<open>Every run\<close>

text \<open>C8. Over any source that loses nothing and is read in whole blocks but for its end, pending
  and failing as it likes, and for any
  calls of the client that do not panic: the bytes taken from the stream are complete entries
  in the layout of an archive, whose headers are those of the entries handed out, followed
  by the part of an entry, or of the end of the archive, that the state of the archive stands
  for. Only where the client has no handle there may be one more header, of an entry that was
  not handed out because the call was interrupted by the source.\<close>

theorem reading_follows_layout:
  assumes "archive_with_capacity io capacity = Ok a" and "0 < capacity"
    and "lossless_blocks read rest" and "reading_run E read a hs held a'"
  shows "\<exists>taken entries. rest io = taken @ ar_bytes a' @ rest (ar_io a') \<and>
    position E False entries taken (ar_state a') \<and>
    (if held then entries = hs else entries = hs \<or> (\<exists>hdr. entries = hs @ [hdr]))"
proof -
  note a = archive_with_capacity_start [OF assms(1,2)]
  have "follows E rest (rest io) [] a"
    using a expecting_header [OF none [of E False]] by (auto simp: follows_def unread_def)
  from reading_run_follows [OF assms(4,3) this] have run: "run_follows E rest (rest io) hs held a'"
    by simp
  have taken: "\<exists>taken. rest io = taken @ ar_bytes a' @ rest (ar_io a') \<and>
      position E False entries taken (ar_state a')"
    if "follows E rest (rest io) entries a'" for entries
    using that by (auto simp: follows_def unread_def)
  show ?thesis
  proof (cases "follows E rest (rest io) hs a'")
    case True
    from taken [OF this] show ?thesis by auto
  next
    case False
    with run obtain hdr where "\<not> held" "follows E rest (rest io) (hs @ [hdr]) a'"
      by (auto simp: run_follows_def split: if_splits)
    with taken [OF this(2)] show ?thesis by auto
  qed
qed

lemma lossless_blocks_cursor: "lossless_blocks cursor_read (\<lambda>r. r)"
  using lossless_cursor by (auto simp: lossless_blocks_def cursor_read_def min_def)

theorem reading_follows_layout_witness:
  "\<exists>a a' taken. archive_with_capacity (archive_bytes [(sample_header 3, [1, 2, 3])]) 1 = Ok a \<and>
    next_entry_poll (sample_cfg True) cursor_read a = (Ok (Some \<lparr>en_header = sample_header 3\<rparr>), a') \<and>
    archive_bytes [(sample_header 3, [1, 2, 3])] = taken @ ar_bytes a' @ ar_io a' \<and>
    position (sample_cfg True) False [sample_header 3] taken (ar_state a')"
proof -
  obtain a where a: "archive_with_capacity (archive_bytes [(sample_header 3, [1, 2, 3])]) 1 = Ok a"
    by (rule archive_with_capacity_Ok [of 1]) (simp_all add: usize_max_def usize_bits_def)
  obtain a' where a': "next_entry_poll (sample_cfg True) cursor_read a =
      (Ok (Some \<lparr>en_header = sample_header 3\<rparr>), a')"
    using first_entry [OF cursor_block_source _ a valid_sample_header [of True 3]]
    by (auto simp: archive_bytes_simps)
  have "reading_run (sample_cfg True) cursor_read a [sample_header 3] True a'"
    using entry_found [OF reading_run.start a'] by simp
  from reading_follows_layout [OF a _ lossless_blocks_cursor this] a a' show ?thesis
    by auto
qed

section \<open>A run to the end\<close>

text \<open>C6. Over any source read in whole blocks, pending and failing as it likes, and whatever the
  client did before: when there is no further entry, what was taken from the stream is an
  archive, complete entries and its two empty blocks, whose headers are exactly those of the
  entries handed out, in their order; what follows it has not been touched.\<close>

theorem reading_ends_with_archive:
  assumes "archive_with_capacity io capacity = Ok a" and "0 < capacity"
    and "lossless_blocks read rest" and "reading_run E read a hs held b"
    and "next_entry_poll E read b = (Ok None, c)"
  shows "\<exists>bs. whole_entries E False hs bs \<and> ar_state c = ReceivedEof \<and>
    rest io = bs @ make_eof_data @ ar_bytes c @ rest (ar_io c)"
proof -
  note a = archive_with_capacity_start [OF assms(1,2)]
  have "follows E rest (rest io) [] a"
    using a expecting_header [OF none [of E False]] by (auto simp: follows_def unread_def)
  from reading_run_follows [OF assms(4,3) this] have "run_follows E rest (rest io) hs held b" ..
  from next_entry_poll_follows [OF this assms(3,5)]
  have "run_follows E rest (rest io) hs False c" by simp
  moreover have terminal: "is_terminal (ar_state c)"
    using next_entry_poll_result [OF assms(5)] by (force simp: next_entry_result_def)
  then have "\<not> in_data (ar_state c)" by (auto simp: in_data_def)
  ultimately have "follows E rest (rest io) hs c" by (simp add: run_follows_def)
  then obtain taken where taken: "rest io = taken @ ar_bytes c @ rest (ar_io c)"
      "position E False hs taken (ar_state c)"
    by (auto simp: follows_def unread_def)
  have "ar_state c = ReceivedEof"
    using terminal taken(2) by (cases "ar_state c") (auto elim: position_receiving_eof)
  with taken show ?thesis by (auto elim: position_received_eof)
qed

theorem reading_ends_with_archive_witness:
  "\<exists>a c bs. archive_with_capacity (archive_bytes [(sample_header 3, [1, 2, 3])]) 1 = Ok a \<and>
    whole_entries (sample_cfg True) False [sample_header 3] bs \<and> ar_state c = ReceivedEof \<and>
    archive_bytes [(sample_header 3, [1, 2, 3])] = bs @ make_eof_data @ ar_bytes c @ ar_io c"
proof -
  let ?E = "sample_cfg True" and ?en = "\<lparr>en_header = sample_header 3\<rparr>"
    and ?io = "archive_bytes [(sample_header 3, [1, 2, 3])]"
  have valid: "valid_header ?E (sample_header 3) 3"
    using valid_sample_header [of True 3] by simp
  obtain a where a: "archive_with_capacity ?io 1 = Ok a"
    by (rule archive_with_capacity_Ok [of 1]) (simp_all add: usize_max_def usize_bits_def)
  have stream: "?io = sample_header 3 @ [1, 2, 3] @ replicate 509 0 @ archive_bytes []"
    by (simp add: archive_bytes_simps padding_def)
  obtain a1 where a1: "next_entry_poll ?E cursor_read a = (Ok (Some ?en), a1)" "archive_wf a1"
      "ar_state a1 = ReceivingData 3"
      "unread (\<lambda>r. r) a1 = [1, 2, 3] @ replicate 509 0 @ archive_bytes []"
    using first_entry [OF cursor_block_source zero_less_one a valid stream] .
  have sequential: "sequential cursor_read (\<lambda>r. r)"
    using cursor_block_source by (simp add: block_source_def)
  have "hdr_entry_size ?E (en_header ?en) = Inr 3" using valid_headerD(4) [OF valid] by simp
  from skip_entry_rest [OF a1(2) sequential _ a1(4) _ _ this] a1(3)
  obtain a2 where a2: "entry_poll_skip ?E cursor_read ?en a1 = (Ok (), a2)" "archive_wf a2"
      "ar_state a2 = ExpectingHeader" "unread (\<lambda>r. r) a2 = archive_bytes [] @ []"
    by (auto simp: entry_poll_skip_def padding_def)
  then obtain c where "poll_next_entry ?E cursor_read a2 = (Ok None, c)"
    using archive_no_entry [OF a2(2) cursor_block_source _ a2(4), of ?E] by auto
  then have c: "next_entry_poll ?E cursor_read a2 = (Ok None, c)"
    by (simp add: next_entry_poll_eq)
  have "reading_run ?E cursor_read a [sample_header 3] True a2"
    using skips [OF entry_found [OF reading_run.start a1(1)] _ a2(1)] by simp
  from reading_ends_with_archive [OF a zero_less_one lossless_blocks_cursor this c] a
  show ?thesis by blast
qed

end
