(* ===== verification/Reading_Data.thy ===== *)
theory Reading_Data
  imports Reading_Layout
begin

text \<open>
  What reading delivers (\<open>src/read/mod.rs\<close>): whatever a client does with the handles it is
  given, the bytes it gets through a handle are the data of that entry in the stream, from
  the first byte on, none lost, repeated or reordered.
\<close>

section \<open>Where the entries are in the stream\<close>

definition size_of :: "cfg \<Rightarrow> header \<Rightarrow> usize" where
  "size_of E hdr = (case hdr_entry_size E hdr of Inr n \<Rightarrow> unat n | Inl _ \<Rightarrow> 0)"

definition entry_span :: "cfg \<Rightarrow> header \<Rightarrow> usize" where
  "entry_span E hdr = 512 + size_of E hdr + padding 512 (size_of E hdr)"

definition entry_start :: "cfg \<Rightarrow> header list \<Rightarrow> usize" where
  "entry_start E hs = sum_list (map (entry_span E) hs)"

definition entry_data :: "cfg \<Rightarrow> bytes \<Rightarrow> header list \<Rightarrow> nat \<Rightarrow> bytes" where
  "entry_data E stream hs k =
     take (size_of E (hs ! k)) (drop (entry_start E (take k hs) + 512) stream)"

definition headers_at :: "cfg \<Rightarrow> bytes \<Rightarrow> header list \<Rightarrow> bool" where
  "headers_at E stream hs \<longleftrightarrow>
     (\<forall>k < length hs. take 512 (drop (entry_start E (take k hs)) stream) = hs ! k)"

lemma entry_start_simps [simp]:
  "entry_start E [] = 0"
  "entry_start E (hs @ [hdr]) = entry_start E hs + entry_span E hdr"
  by (simp_all add: entry_start_def)

lemma entry_start_take:
  assumes "k < length hs"
  shows "entry_start E (take k hs) + entry_span E (hs ! k) \<le> entry_start E hs"
proof -
  have "entry_start E hs = entry_start E (take k hs @ hs ! k # drop (Suc k) hs)"
    using id_take_nth_drop [OF assms] by simp
  then show ?thesis by (simp add: entry_start_def)
qed

lemma headers_at_append:
  assumes "headers_at E bs hs" and "entry_start E hs \<le> length bs"
  shows "headers_at E (bs @ xs) hs"
  unfolding headers_at_def
proof (intro allI impI)
  fix k
  assume k: "k < length hs"
  with entry_start_take [OF this, of E] assms(2)
  have "entry_start E (take k hs) + 512 \<le> length bs" by (simp add: entry_span_def)
  with k assms(1) show "take 512 (drop (entry_start E (take k hs)) (bs @ xs)) = hs ! k"
    by (simp add: headers_at_def)
qed

lemma headers_at_snoc:
  assumes "headers_at E bs hs" and "length bs = entry_start E hs" and "length hdr = 512"
  shows "headers_at E (bs @ hdr @ xs) (hs @ [hdr])"
  using headers_at_append [OF assms(1), of "hdr @ xs"] assms(2,3)
  by (auto simp: headers_at_def nth_append less_Suc_eq)

lemma headers_at_butlast: "headers_at E bs (hs @ [hdr]) \<Longrightarrow> headers_at E bs hs"
  by (auto simp: headers_at_def nth_append All_less_Suc)

lemma whole_entries_at:
  "whole_entries E strict hs bs \<Longrightarrow> length bs = entry_start E hs \<and> headers_at E bs hs"
proof (induction rule: whole_entries.induct)
  case (more hs bs hdr n data pad)
  then show ?case
    using headers_at_snoc [of E bs hs hdr "data @ pad"]
    by (simp add: header_block_def entry_span_def size_of_def)
qed (simp add: headers_at_def)

lemma position_headers:
  assumes "position E strict hs bs s"
  shows "headers_at E (bs @ xs) hs"
  using assms
  by cases (auto dest!: whole_entries_at simp: header_block_def
      intro: headers_at_snoc headers_at_append)

lemma position_data:
  assumes "position E strict hs bs s" and "in_data s"
  shows "hs \<noteq> []" and "data_left s \<le> size_of E (last hs)"
    and "length bs + data_left s = entry_start E (butlast hs) + 512 + size_of E (last hs)"
  using assms by (cases; auto dest!: whole_entries_at simp: header_block_def in_data_def data_left_def size_of_def)+

text \<open>What is left of the stream where the archive is in the data of an entry.\<close>

lemma follows_headers:
  "follows E rest stream hs a \<Longrightarrow> headers_at E stream hs"
  using position_headers by (fastforce simp: follows_def)

lemma follows_data:
  assumes "follows E rest stream hs a" and "in_data (ar_state a)"
  shows "hs \<noteq> []" and "data_left (ar_state a) \<le> size_of E (last hs)"
    and "unread rest a = drop (size_of E (last hs) - data_left (ar_state a))
      (drop (entry_start E (butlast hs) + 512) stream)"
proof -
  obtain taken where taken: "stream = taken @ unread rest a" "position E False hs taken (ar_state a)"
    using assms(1) by (auto simp: follows_def)
  note pos = position_data [OF taken(2) assms(2)]
  show "hs \<noteq> []" "data_left (ar_state a) \<le> size_of E (last hs)" by (rule pos)+
  have "length taken = size_of E (last hs) - data_left (ar_state a) + (entry_start E (butlast hs) + 512)"
    using pos(2,3) by simp
  then show "unread rest a = drop (size_of E (last hs) - data_left (ar_state a))
      (drop (entry_start E (butlast hs) + 512) stream)"
    using taken(1) by (simp add: drop_drop)
qed

section \<open>What the client has been given\<close>

text \<open>
  The log of a client has, for every entry handed out, its header and the data that came
  through its handle, or \<open>None\<close> where the client has called \<open>skip\<close>.
\<close>

type_synonym data_log = "(header \<times> bytes option) list"

definition deliver :: "bytes \<Rightarrow> data_log \<Rightarrow> data_log" where
  "deliver bs log = butlast log @ [map_prod id (map_option (\<lambda>d. d @ bs)) (last log)]"

definition forget :: "data_log \<Rightarrow> data_log" where
  "forget log = butlast log @ [(fst (last log), None)]"

text \<open>
  The data of every entry in the log is that in the stream, but for what is left of the last.
\<close>

definition log_fits :: "cfg \<Rightarrow> bytes \<Rightarrow> usize \<Rightarrow> data_log \<Rightarrow> bool" where
  "log_fits E stream left log \<longleftrightarrow>
     (\<forall>k < length log. \<forall>d. snd (log ! k) = Some d \<longrightarrow>
       length d = size_of E (fst (log ! k)) - (if Suc k = length log then left else 0) \<and>
       d = take (length d) (entry_data E stream (map fst log) k))"

lemma deliver_snoc [simp]:
  "deliver bs (log @ [(hdr, d)]) = log @ [(hdr, map_option (\<lambda>d. d @ bs) d)]"
  by (simp add: deliver_def)

lemma forget_snoc [simp]: "forget (log @ [(hdr, d)]) = log @ [(hdr, None)]"
  by (simp add: forget_def)

lemma take_entry_data:
  assumes "m \<le> size_of E (hs ! k)"
  shows "take m (entry_data E stream hs k) =
    take m (drop (entry_start E (take k hs) + 512) stream)"
  using assms by (simp add: entry_data_def min_absorb1)

lemma entry_data_append:
  "k < length hs \<Longrightarrow> entry_data E stream (hs @ [hdr]) k = entry_data E stream hs k"
  by (simp add: entry_data_def nth_append)

lemma log_fits_Nil [simp]: "log_fits E stream left []"
  by (simp add: log_fits_def)

lemma log_fits_snoc:
  "log_fits E stream left (log @ [(hdr, d)]) \<longleftrightarrow> log_fits E stream 0 log \<and>
    (\<forall>x. d = Some x \<longrightarrow> length x = size_of E hdr - left \<and>
      x = take (length x) (entry_data E stream (map fst log @ [hdr]) (length log)))"
  by (auto simp: log_fits_def All_less_Suc nth_append entry_data_append)

text \<open>What follows in the stream extends the data of the entry that is being read.\<close>

lemma log_fits_deliver:
  assumes fits: "log_fits E stream left (log @ [(hdr, d)])"
    and left: "left = length bs + left'" "left \<le> size_of E hdr"
    and stream: "bs = take (length bs)
      (drop (size_of E hdr - left) (drop (entry_start E (map fst log) + 512) stream))"
  shows "log_fits E stream left' (deliver bs (log @ [(hdr, d)]))"
proof -
  let ?data = "drop (entry_start E (map fst log) + 512) stream"
  have whole: "take m (entry_data E stream (map fst log @ [hdr]) (length log)) = take m ?data"
    if "m \<le> size_of E hdr" for m
    using that take_entry_data [of m E "map fst log @ [hdr]" "length log"] by (simp add: nth_append)
  have sizes: "size_of E hdr - left' = size_of E hdr - left + length bs" using left by simp
  then have data: "take (size_of E hdr - left') ?data = take (size_of E hdr - left) ?data @ bs"
    by (simp only: take_add stream [symmetric])
  have "length (x @ bs) = size_of E hdr - left' \<and>
      x @ bs = take (length (x @ bs)) (entry_data E stream (map fst log @ [hdr]) (length log))"
    if "d = Some x" for x
  proof -
    have x: "length x = size_of E hdr - left"
        "x = take (length x) (entry_data E stream (map fst log @ [hdr]) (length log))"
      using fits that unfolding log_fits_snoc by blast+
    have "x = take (size_of E hdr - left) (entry_data E stream (map fst log @ [hdr]) (length log))"
      by (rule x(2) [unfolded x(1)])
    then have "x = take (size_of E hdr - left) ?data" by (simp add: whole)
    with data have "x @ bs = take (size_of E hdr - left') (entry_data E stream (map fst log @ [hdr]) (length log))"
      by (simp add: whole)
    moreover have size: "length (x @ bs) = size_of E hdr - left'" using x(1) sizes by simp
    ultimately show ?thesis unfolding size by blast
  qed
  moreover have "log_fits E stream 0 log" using fits unfolding log_fits_snoc by blast
  ultimately show ?thesis unfolding deliver_snoc log_fits_snoc by blast
qed

lemma log_fits_forget:
  "log \<noteq> [] \<Longrightarrow> log_fits E stream left log \<Longrightarrow> log_fits E stream left' (forget log)"
  by (cases log rule: rev_cases) (auto simp: log_fits_snoc forget_def)

section \<open>Runs of a client that keeps what it is given\<close>

text \<open>
  The runs of \<open>reading_run\<close>, with the log: a read delivers what it returned, and buffered
  reading what is consumed of the bytes that were shown. A call that is pending or fails
  delivers nothing; \<open>skip\<close> gives up the data of the entry.
\<close>

inductive delivering_run ::
  "cfg \<Rightarrow> 'r reader \<Rightarrow> 'r archive \<Rightarrow> data_log \<Rightarrow> bool \<Rightarrow> 'r archive \<Rightarrow> bool"
  for E :: cfg and read :: "'r reader" and a :: "'r archive" where
  start: "delivering_run E read a [] False a"
| entry_found: "delivering_run E read a log held b \<Longrightarrow>
    next_entry_poll E read b = (Ok (Some en), c) \<Longrightarrow>
    delivering_run E read a (log @ [(en_header en, Some [])]) True c"
| no_entry: "delivering_run E read a log held b \<Longrightarrow> next_entry_poll E read b = (r, c) \<Longrightarrow>
    \<not> panicked r \<Longrightarrow> (\<And>en. r \<noteq> Ok (Some en)) \<Longrightarrow> delivering_run E read a log False c"
| reads: "delivering_run E read a log True b \<Longrightarrow> en_header en = fst (last log) \<Longrightarrow>
    entry_poll_read E read en room b = (r, c) \<Longrightarrow> \<not> panicked r \<Longrightarrow>
    delivering_run E read a (case r of Ok bs \<Rightarrow> deliver bs log | _ \<Rightarrow> log) True c"
| shows_data: "delivering_run E read a log True b \<Longrightarrow> en_header en = fst (last log) \<Longrightarrow>
    entry_poll_fill_buf E read en b = (r, c) \<Longrightarrow> \<not> panicked r \<Longrightarrow> delivering_run E read a log True c"
| consumes: "delivering_run E read a log True b \<Longrightarrow> en_header en = fst (last log) \<Longrightarrow>
    entry_poll_fill_buf E read en b = (Ok bs, c) \<Longrightarrow> amt \<le> length bs \<Longrightarrow>
    entry_consume E en amt c = (r, d) \<Longrightarrow> \<not> panicked r \<Longrightarrow>
    delivering_run E read a (if r = Ok () then deliver (take amt bs) log else log) True d"
| skips: "delivering_run E read a log True b \<Longrightarrow> en_header en = fst (last log) \<Longrightarrow>
    entry_poll_skip E read en b = (r, c) \<Longrightarrow> \<not> panicked r \<Longrightarrow>
    delivering_run E read a (forget log) True c"

text \<open>The archive agrees with the log: it is at the header, or in the data, of its last entry.\<close>

definition agrees ::
  "cfg \<Rightarrow> ('r \<Rightarrow> bytes) \<Rightarrow> bytes \<Rightarrow> data_log \<Rightarrow> 'r archive \<Rightarrow> bool" where
  "agrees E rest stream log a \<longleftrightarrow> follows E rest stream (map fst log) a \<and>
     log_fits E stream (data_left (ar_state a)) log"

definition run_agrees ::
  "cfg \<Rightarrow> ('r \<Rightarrow> bytes) \<Rightarrow> bytes \<Rightarrow> data_log \<Rightarrow> bool \<Rightarrow> 'r archive \<Rightarrow> bool" where
  "run_agrees E rest stream log held a \<longleftrightarrow>
     (if held then agrees E rest stream log a \<and> log \<noteq> [] \<and>
        handle_fits (map fst log) (fst (last log)) (ar_state a)
      else agrees E rest stream log a \<or>
        in_data (ar_state a) \<and> (\<exists>hdr. follows E rest stream (map fst log @ [hdr]) a) \<and>
        log_fits E stream 0 log)"

lemma run_agrees_held:
  assumes "run_agrees E rest stream log True a" and "hdr = fst (last log)"
  shows "follows E rest stream (map fst log) a" "log_fits E stream (data_left (ar_state a)) log"
    and "log \<noteq> []" "handle_fits (map fst log) hdr (ar_state a)"
  using assms by (simp_all add: run_agrees_def agrees_def)

lemma run_agrees_heldI:
  assumes "follows E rest stream (map fst log) a" and "log_fits E stream (data_left (ar_state a)) log"
    and "log \<noteq> []" and "handle_fits (map fst log) (fst (last log)) (ar_state a)"
  shows "run_agrees E rest stream log True a"
  using assms by (simp add: run_agrees_def agrees_def)

lemma deliver_log [simp]:
  assumes "log \<noteq> []"
  shows "map fst (deliver bs log) = map fst log" "deliver bs log \<noteq> []"
    "fst (last (deliver bs log)) = fst (last log)"
    "map fst (forget log) = map fst log" "forget log \<noteq> []"
    "fst (last (forget log)) = fst (last log)"
  using assms by (cases log rule: rev_cases; auto)+

text \<open>Bytes that leave the buffer while the archive is in the data of the last entry.\<close>

lemma agrees_deliver:
  assumes fol: "follows E rest stream (map fst log) b" and some: "log \<noteq> []"
    and fits: "log_fits E stream (data_left (ar_state b)) log"
    and bytes: "unread rest b = bs @ unread rest c"
    and left: "data_left (ar_state b) = length bs + data_left (ar_state c)"
    and inside: "bs = [] \<or> in_data (ar_state b)"
  shows "log_fits E stream (data_left (ar_state c)) (deliver bs log)"
proof -
  obtain log' hdr d where log: "log = log' @ [(hdr, d)]"
    using some by (cases log rule: rev_cases) auto
  show ?thesis
  proof (cases "in_data (ar_state b)")
    case True
    note data = follows_data [OF fol True]
    have "bs = take (length bs) (unread rest b)" using bytes by simp
    with log_fits_deliver [of E stream _ log' hdr d, OF fits [unfolded log] left] data(2,3)
    show ?thesis by (simp add: log)
  next
    case False
    with inside left fits log show ?thesis by (cases d) simp_all
  qed
qed

text \<open>Looking for the next entry: the data of the last one has all been taken.\<close>

lemma next_entry_poll_agrees:
  assumes agrees: "agrees E rest stream log a" and src: "lossless_blocks read rest"
    and run: "next_entry_poll E read a = (r, a')" and ok: "\<not> panicked r"
  shows "case r of
      Ok (Some en) \<Rightarrow> run_agrees E rest stream (log @ [(en_header en, Some [])]) True a'
    | _ \<Rightarrow> run_agrees E rest stream log False a'"
proof -
  have fol: "follows E rest stream (map fst log) a"
    and fits: "log_fits E stream (data_left (ar_state a)) log"
    using agrees by (simp_all add: agrees_def)
  note found = next_entry_poll_outcome [OF fol src run, unfolded next_entry_follows_def]
  have over: "log_fits E stream 0 log" if "\<not> in_data (ar_state a)"
    using fits data_left_outside [OF that] by simp
  have interrupted: "run_agrees E rest stream log False a'"
    if "follows E rest stream (map fst log) a' \<and> in_data (ar_state a') = in_data (ar_state a) \<and>
        data_left (ar_state a') = data_left (ar_state a) \<or>
      \<not> in_data (ar_state a) \<and> in_data (ar_state a') \<and>
        (\<exists>hdr. follows E rest stream (map fst log @ [hdr]) a')"
    using that fits over by (auto simp: run_agrees_def agrees_def)
  show ?thesis
  proof (cases r)
    case (Ok e)
    note result = next_entry_poll_result [OF run [unfolded Ok]]
    show ?thesis
    proof (cases e)
      case None
      with result have "is_terminal (ar_state a')" by (simp add: next_entry_result_def)
      then have "data_left (ar_state a') = 0"
        by (cases "ar_state a'") (simp_all add: data_left_def)
      with found Ok None over show ?thesis by (simp add: run_agrees_def agrees_def)
    next
      case (Some en)
      obtain n where n: "hdr_entry_size E (en_header en) = Inr n" "ar_state a' = ReceivingData n"
        using result Some by (auto simp: next_entry_result_def)
      then have "data_left (ar_state a') = size_of E (en_header en)"
        by (simp add: data_left_def size_of_def)
      with found Ok Some over show ?thesis
        by (simp add: run_agrees_def agrees_def log_fits_snoc handle_fits_def)
    qed
  qed (use found interrupted ok in auto)
qed

lemma next_entry_poll_run:
  assumes "run_agrees E rest stream log held a" and src: "lossless_blocks read rest"
    and run: "next_entry_poll E read a = (r, a')" and ok: "\<not> panicked r"
  shows "case r of
      Ok (Some en) \<Rightarrow> run_agrees E rest stream (log @ [(en_header en, Some [])]) True a'
    | _ \<Rightarrow> run_agrees E rest stream log False a'"
proof (cases "agrees E rest stream log a")
  case True
  from next_entry_poll_agrees [OF this src run ok] show ?thesis .
next
  case False
  with assms(1) obtain hdr where "in_data (ar_state a)" "log_fits E stream 0 log"
      "follows E rest stream (map fst log @ [hdr]) a"
    by (auto simp: run_agrees_def split: if_splits)
  with next_entry_poll_outcome [OF this(3) src run] ok show ?thesis
    by (cases r) (auto simp: next_entry_follows_def run_agrees_def split: option.splits)
qed

lemma delivering_run_agrees:
  assumes "delivering_run E read a log held b" and src: "lossless_blocks read rest"
    and "follows E rest stream [] a"
  shows "run_agrees E rest stream log held b"
  using assms(1)
proof (induction rule: delivering_run.induct)
  case start
  with assms(3) show ?case by (simp add: run_agrees_def agrees_def)
next
  case (entry_found log held b en c)
  with next_entry_poll_run [OF _ src entry_found.hyps(2)] show ?case by fastforce
next
  case (no_entry log held b r c)
  note found = next_entry_poll_run [OF no_entry.IH src no_entry.hyps(2,3)]
  show ?case
  proof (cases r)
    case (Ok e)
    with no_entry.hyps(4) have "e = None" by (cases e) auto
    with found Ok show ?thesis by simp
  qed (use found in simp_all)
next
  case (reads log b en room r c)
  note held = run_agrees_held [OF reads.IH reads.hyps(2)]
  note read = entry_poll_read_follows [OF held(1) src held(4) reads.hyps(3,4)]
  have log: "run_agrees E rest stream log' True c"
    if "log' = log \<or> log' = deliver bs log" "log_fits E stream (data_left (ar_state c)) log'"
    for log' bs
    using that read(1,2) held(3) reads.hyps(2) by (auto intro!: run_agrees_heldI)
  show ?case
  proof (cases "\<exists>bs. r = Ok bs")
    case True
    with read(3) obtain bs b' where bs: "r = Ok bs" "follows E rest stream (map fst log) b'"
        "unread rest b' = bs @ unread rest c" "data_left (ar_state b') = data_left (ar_state b)"
        "data_left (ar_state b') = length bs + data_left (ar_state c)" "bs = [] \<or> in_data (ar_state b')"
      by (auto simp: read_delivers_def)
    have "log_fits E stream (data_left (ar_state b')) log" using held(2) bs(4) by simp
    from log [OF disjI2 [OF refl] agrees_deliver [OF bs(2) held(3) this bs(3,5,6)]] bs(1)
    show ?thesis by simp
  next
    case False
    with read(3) have "data_left (ar_state c) = data_left (ar_state b)"
      by (simp add: read_delivers_def)
    with log [of log] held(2) False show ?thesis by (cases r) auto
  qed
next
  case (shows_data log b en r c)
  note held = run_agrees_held [OF shows_data.IH shows_data.hyps(2)]
  from poll_read_entry_follows [OF held(1) src held(4)
      shows_data.hyps(3) [unfolded entry_poll_fill_buf_def] shows_data.hyps(4)]
  show ?case using held(2,3) shows_data.hyps(2) by (auto intro!: run_agrees_heldI)
next
  case (consumes log b en bs c amt r d)
  note held = run_agrees_held [OF consumes.IH consumes.hyps(2)]
  from poll_read_entry_follows [OF held(1) src held(4)
      consumes.hyps(3) [unfolded entry_poll_fill_buf_def]]
  have shown: "follows E rest stream (map fst log) c" "data_result (Ok bs) c"
      "handle_fits (map fst log) (en_header en) (ar_state c)"
      "log_fits E stream (data_left (ar_state c)) log"
    using held(2) by simp_all
  note amount = data_result_amount [OF shown(2) consumes.hyps(4)]
  note after = follows_consume_entry [OF shown(1,3) amount consumes.hyps(5) [unfolded entry_consume_def]
      consumes.hyps(6)]
  show ?case
  proof (cases "r = Ok ()")
    case True
    have "take amt bs = take amt (ar_bytes c)"
      using shown(2) consumes.hyps(4) by (auto simp: data_result_def) (metis min.absorb1 take_take)
    moreover have "length (take amt bs) = amt" using consumes.hyps(4) by simp
    ultimately have "unread rest c = take amt bs @ unread rest d"
        "data_left (ar_state c) = length (take amt bs) + data_left (ar_state d)"
      using after(3) True by simp_all
    moreover have "take amt bs = [] \<or> in_data (ar_state c)"
      using amount by (auto simp: in_data_def)
    ultimately have "log_fits E stream (data_left (ar_state d)) (deliver (take amt bs) log)"
      by (rule agrees_deliver [OF shown(1) held(3) shown(4)])
    with True after(1,2) held(3) consumes.hyps(2) show ?thesis by (auto intro!: run_agrees_heldI)
  next
    case False
    with after(3) consumes.IH shown held(3) consumes.hyps(2) show ?thesis
      by (auto intro!: run_agrees_heldI)
  qed
next
  case (skips log b en r c)
  note held = run_agrees_held [OF skips.IH skips.hyps(2)]
  from poll_skip_entry_follows [OF held(1) src held(4)
      skips.hyps(3) [unfolded entry_poll_skip_def] skips.hyps(4)]
  show ?case using held(2,3) skips.hyps(2) log_fits_forget [OF held(3,2)]
    by (auto intro!: run_agrees_heldI)
qed

section \<open>What every run delivers\<close>

text \<open>C9. Over any source that loses nothing and is read in whole blocks but for its end, pending
  and failing as it likes, and for any calls of a client with a handle to each entry it is given, none of which panics: every
  header handed out is the block of the stream where its entry starts, and the bytes that came
  through the handle of an entry it has not skipped, by reads of any sizes and by consuming any
  part of what was shown, are the data of that entry in the stream from its first byte on:
  none lost, none twice, in order. They are all of it, as many bytes as the header says, as
  soon as a later entry has been handed out or nothing is left of the entry.\<close>

theorem reading_delivers_data:
  assumes "archive_with_capacity io capacity = Ok a" and "0 < capacity"
    and "lossless_blocks read rest" and "delivering_run E read a log held b"
    and "k < length log"
  shows "take 512 (drop (entry_start E (take k (map fst log))) (rest io)) = fst (log ! k) \<and>
    (\<forall>d. snd (log ! k) = Some d \<longrightarrow> d = take (length d) (entry_data E (rest io) (map fst log) k) \<and>
      (Suc k < length log \<or> data_left (ar_state b) = 0 \<longrightarrow>
        d = entry_data E (rest io) (map fst log) k \<and> length d = size_of E (fst (log ! k))))"
proof -
  note a = archive_with_capacity_start [OF assms(1,2)]
  have "follows E rest (rest io) [] a"
    using a expecting_header [OF none [of E False]] by (auto simp: follows_def unread_def)
  from delivering_run_agrees [OF assms(4,3) this] have run: "run_agrees E rest (rest io) log held b" .
  have headers: "headers_at E (rest io) (map fst log)"
    using run headers_at_butlast
    by (auto simp: run_agrees_def agrees_def split: if_splits dest!: follows_headers)
  have fits: "log_fits E (rest io) (data_left (ar_state b)) log \<or> log_fits E (rest io) 0 log"
    using run by (auto simp: run_agrees_def agrees_def split: if_splits)
  show ?thesis
  proof (intro conjI allI impI)
    show "take 512 (drop (entry_start E (take k (map fst log))) (rest io)) = fst (log ! k)"
      using headers assms(5) by (simp add: headers_at_def)
  next
    fix d
    assume d: "snd (log ! k) = Some d"
    with fits assms(5) show prefix: "d = take (length d) (entry_data E (rest io) (map fst log) k)"
      by (auto simp: log_fits_def)
    assume "Suc k < length log \<or> data_left (ar_state b) = 0"
    with fits obtain left where "log_fits E (rest io) left log" "left = 0 \<or> Suc k \<noteq> length log"
      by fastforce
    with d assms(5) show whole: "length d = size_of E (fst (log ! k))"
      by (auto simp: log_fits_def)
    have "length (entry_data E (rest io) (map fst log) k) \<le> length d"
      using whole assms(5) by (simp add: entry_data_def)
    with prefix show "d = entry_data E (rest io) (map fst log) k" by simp
  qed
qed

text \<open>
  The first entry of an archive, read to its last byte with room for one byte: three reads,
  which deliver the three bytes of its data.
\<close>

theorem reading_delivers_data_witness:
  "\<exists>a b d. archive_with_capacity (archive_bytes [(sample_header 3, [1, 2, 3])]) 1 = Ok a \<and>
    delivering_run (sample_cfg True) cursor_read a [(sample_header 3, Some d)] True b \<and>
    data_left (ar_state b) = 0 \<and> length d = 3 \<and>
    d = entry_data (sample_cfg True) (archive_bytes [(sample_header 3, [1, 2, 3])]) [sample_header 3] 0"
proof -
  let ?E = "sample_cfg True" and ?en = "\<lparr>en_header = sample_header 3\<rparr>"
    and ?io = "archive_bytes [(sample_header 3, [1, 2, 3])]" and ?pad = "replicate 509 0 :: bytes"
  let ?run = "delivering_run ?E cursor_read" and ?read = "entry_poll_read ?E cursor_read ?en 1"
  have valid: "valid_header ?E (sample_header 3) 3"
    using valid_sample_header [of True 3] by simp
  note size = valid_headerD(4) [OF valid]
  obtain a where a: "archive_with_capacity ?io 1 = Ok a"
    by (rule archive_with_capacity_Ok [of 1]) (simp_all add: usize_max_def usize_bits_def)
  have stream: "?io = sample_header 3 @ [1, 2, 3] @ ?pad @ archive_bytes []"
    by (simp add: archive_bytes_simps padding_def)
  obtain b where b: "next_entry_poll ?E cursor_read a = (Ok (Some ?en), b)" "archive_wf b"
      "ar_state b = ReceivingData 3" "unread (\<lambda>r. r) b = [1, 2, 3] @ ?pad @ archive_bytes []"
    using first_entry [OF cursor_block_source zero_less_one a valid stream] .
  have sequential: "sequential cursor_read (\<lambda>r. r)"
    using cursor_block_source by (simp add: block_source_def)
  have one: "\<exists>c. ?read b = (Ok [x], c) \<and> archive_wf c \<and> unread (\<lambda>r. r) c = xs \<and>
      ar_state c = (if unat n = 1 then AligningData (padding 512 3) else ReceivingData (n - 1))"
    if "archive_wf b" "ar_state b = ReceivingData n" "0 < unat n" "unread (\<lambda>r. r) b = x # xs"
    for b :: "bytes archive" and n x xs
  proof -
    have "hdr_entry_size ?E (en_header ?en) = Inr 3" "\<not> debug_assertions ?E \<or> unat (3 :: u64) + 511 < 2 ^ 64"
      using size by simp_all
    from entry_read_data [OF that(1) sequential _ that(2,3) zero_less_one this] that(4)
    obtain m c where c: "?read b = (Ok (take m (x # xs)), c)" "0 < m" "m \<le> 1" "archive_wf c"
        "unread (\<lambda>r. r) c = drop m (x # xs)"
        "ar_state c = (if m = unat n then AligningData (padding 512 (unat (3 :: u64)))
          else ReceivingData (n - word_of_nat m))"
      by (metis list.distinct(1))
    then have "m = 1" by simp
    with c show ?thesis by auto
  qed
  obtain c where c: "?read b = (Ok [1], c)" "archive_wf c" "ar_state c = ReceivingData 2"
      "unread (\<lambda>r. r) c = [2, 3] @ ?pad @ archive_bytes []"
    using one [OF b(2,3), of 1 "[2, 3] @ ?pad @ archive_bytes []"] b(4) by auto
  obtain d where d: "?read c = (Ok [2], d)" "archive_wf d" "ar_state d = ReceivingData 1"
      "unread (\<lambda>r. r) d = [3] @ ?pad @ archive_bytes []"
    using one [OF c(2,3), of 2 "[3] @ ?pad @ archive_bytes []"] c(4) by auto
  obtain e where e: "?read d = (Ok [3], e)" "ar_state e = AligningData (padding 512 3)"
    using one [OF d(2,3), of 3 "?pad @ archive_bytes []"] d(4) by auto
  have "?run a [(sample_header 3, Some [1, 2, 3])] True e"
    using reads [OF reads [OF reads [OF entry_found [OF delivering_run.start b(1)] _ c(1)] _ d(1)] _ e(1)]
    by (simp add: deliver_def)
  with reading_delivers_data [OF a zero_less_one lossless_blocks_cursor this, of 0] a e(2)
  show ?thesis by (auto simp: data_left_def)
qed

end
