(* ===== verification/Writer_Limits.thy ===== *)
theory Writer_Limits
  imports Encoding
begin

text \<open>
  What writing does at the edges of its contract: overlapping entries, empty entries, objects
  that are full or not ready, and headers without a readable checksum.
\<close>

section \<open>A full object\<close>

text \<open>
  An object that supports vectored writes and is full, like a cursor over a fixed slice: its
  writes succeed and accept nothing.
\<close>

definition full :: "'w writer \<Rightarrow> bool" where
  "full W \<longleftrightarrow> (\<forall>w. wr_is_write_vectored W w) \<and> (\<forall>w bs. wr_poll_write W w bs = (Ok 0, w)) \<and>
     (\<forall>w bufs. wr_poll_write_vectored W w bufs = (Ok 0, w))"

lemma full_appends: "full W \<Longrightarrow> \<forall>w. wr_poll_flush W w = (Ok (), w) \<Longrightarrow>
    \<forall>w. wr_poll_shutdown W w = (Ok (), w) \<Longrightarrow> appends W sent"
  by (simp add: full_def appends_def)

lemma poll_flush_buffered_empty:
  assumes wf: "archive_wf a" and empty: "ar_bytes a = []"
  obtains b where "poll_flush_buffered E W a = (Ok (), a\<lparr>ar_buf := b\<rparr>)" and "buf_contents b = []"
    and "archive_wf (a\<lparr>ar_buf := b\<rparr>)" and "buf_capacity b = ar_capacity a"
proof -
  have wfb: "buf_wf (ar_buf a)" using wf by (simp add: archive_wf_def)
  let ?reg = "\<lparr>rg_buf = take (buf_cap (ar_buf a)) (buf_store (ar_buf a)), rg_pos = buf_pos (ar_buf a)\<rparr>"
  have "buf_pos (ar_buf a) = buf_cap (ar_buf a)"
    using wfb empty by (auto simp: buf_wf_def buf_contents_def)
  then have "rg_is_empty (debug_assertions E) ?reg = Ok True"
    using wfb by (simp add: rg_is_empty_def rg_len_def rg.remaining_eq buf_wf_def)
  then have "flush_loop (debug_assertions E) W ?reg (ar_io a) = (Ok (), ?reg, ar_io a)"
    by (simp add: flush_loop.simps [of _ W ?reg])
  then have "poll_flush_buffered E W a = (Ok (), a\<lparr>ar_buf := buf_clear (put_buffered (ar_buf a) ?reg)\<rparr>)"
    by (simp add: poll_flush_buffered_def buffered_eq [OF wfb])
  then show thesis
    using that wf
    by (simp add: archive_wf_def buf_clear_def put_buffered_def buf_contents_def buf_capacity_def
        buf_wf_def buf_room_def)
qed

text \<open>A block at the start of an empty buffer of one block is passed through, and refused.\<close>

lemma write_block_full:
  assumes wf: "archive_wf a" and empty: "ar_bytes a = []" and cap: "ar_capacity a = 512"
    and full: "full W" and buf: "length buf = 512"
    and st: "ar_state a = ExpectingHeader \<or> ar_state a = ReceivingHeader 512 True"
  obtains a' where "poll_write_data E W buf h a = (Ok 0, a')" and "archive_wf a'"
    and "ar_bytes a' = []" and "ar_capacity a' = 512" and "ar_state a' = ReceivingHeader 512 True"
proof -
  have whole: "take 512 (concat [buf]) = buf" using buf by simp
  obtain s where "take_until E (ar_state a) slices_stop buf h = Ok (s, 512)"
    using st take_first_piece [of buf E h] take_header_piece [of buf 512 E True h] buf by auto
  then have taken: "take_slices E (ar_state a) [take 512 (concat [buf])] h =
      Ok (s, length (take 512 (concat [buf])))"
    using buf by (simp add: take_slices_eq_take_until)
  have len: "length (take 512 (concat [buf])) \<le> usize_max"
    using buf block_le_usize_max by simp
  obtain p where run: "poll_write_vectored E W [buf] 512 h a =
      and_then (make_room E W 512 a) (\<lambda>_ b.
      and_then (if passes W 512 a then pass_through E W p 512 b else fill_buffer E p b) (\<lambda>n c.
      and_then (if n = 512 then Ok s else state_after E (ar_state c) p h n, c) (\<lambda>st d.
      (Ok n, d\<lparr>ar_state := st\<rparr>))))"
    and p: "array_take_prefix [buf] 512 = Ok p" "prefix_bytes p = buf"
    by (rule write_vectored_eq [OF wf len taken, of W, unfolded whole buf]) (rule that)
  have pass: "passes W 512 a" using cap full by (simp add: passes_def full_def)
  obtain b where b: "poll_flush_buffered E W a = (Ok (), a\<lparr>ar_buf := b\<rparr>)" "buf_contents b = []"
      "archive_wf (a\<lparr>ar_buf := b\<rparr>)" "buf_capacity b = ar_capacity a"
    by (rule poll_flush_buffered_empty [OF wf empty])
  have "p = prefix_from_parts [buf] []"
    using p(1) buf array_take_prefix_all [of "[buf]" 512] by simp
  then have "pass_through E W p 512 (a\<lparr>ar_buf := b\<rparr>) = (Ok 0, a\<lparr>ar_buf := b\<rparr>)"
    using full by (simp add: pass_through_def slices_simps usize_sub_def full_def)
  moreover have "state_after E (ar_state a) p h 0 = Ok (ReceivingHeader 512 True)"
  proof -
    have "take_slices E (ar_state a) [prefix_bytes p] h = Ok (s, length (prefix_bytes p))"
      using taken p(2) buf by simp
    from state_after_spec [OF this, of 0] obtain s1
      where "state_after E (ar_state a) p h 0 = Ok s1" "take_slices E (ar_state a) [[]] h = Ok (s1, 0)"
      by auto
    with st show ?thesis
      by (auto simp: take_slices_eq_take_until take_until_unfold slices_stop_def read_run_def)
  qed
  ultimately have "poll_write_data E W buf h a =
      (Ok 0, a\<lparr>ar_buf := b, ar_state := ReceivingHeader 512 True\<rparr>)"
    using run pass b(1) buf by (simp add: poll_write_data_def make_room_def)
  then show thesis
    using that b cap by (simp add: archive_wf_def)
qed

text \<open>So the loop that finishes the archive makes no progress and never leaves.\<close>

lemma finish_full_diverges:
  assumes "poll_finish E W a = Some y"
  shows "archive_wf a \<longrightarrow> ar_bytes a = [] \<longrightarrow> ar_capacity a = 512 \<longrightarrow>
    ar_state a = ExpectingHeader \<or> ar_state a = ReceivingHeader 512 True \<longrightarrow> \<not> full W"
proof (rule poll_finish.raw_induct [OF _ assms])
  fix f :: "cfg \<Rightarrow> 'a writer \<Rightarrow> 'a archive \<Rightarrow> (unit outcome \<times> 'a archive) option"
    and E :: cfg and W :: "'a writer" and a :: "'a archive" and y
  assume IH: "\<And>E W a y. f E W a = Some y \<Longrightarrow> archive_wf a \<longrightarrow> ar_bytes a = [] \<longrightarrow>
      ar_capacity a = 512 \<longrightarrow>
      ar_state a = ExpectingHeader \<or> ar_state a = ReceivingHeader 512 True \<longrightarrow> \<not> full W"
    and step: "(case ar_state a of
        ExpectingHeader \<Rightarrow>
          loop_then (poll_write_data E W (as_bytes block_empty) None a) (\<lambda>_ a. f E W a)
      | ReceivingHeader rem is_empty \<Rightarrow>
          if is_empty then
            loop_then (slice_to (as_bytes block_empty) rem, a) (\<lambda>buf a.
            loop_then (poll_write_data E W buf None a) (\<lambda>_ a. f E W a))
          else Some (Panic ExplicitPanic, a)
      | ReceivingEof rem \<Rightarrow>
          loop_then (slice_to (as_bytes block_empty) rem, a) (\<lambda>buf a.
          loop_then (poll_write_data E W buf None a) (\<lambda>_ a. f E W a))
      | ReceivedEof \<Rightarrow>
          loop_then (poll_flush_buffered E W a) (\<lambda>_ a.
            case wr_poll_shutdown W (ar_io a) of (r, io) \<Rightarrow> Some (r, a\<lparr>ar_io := io\<rparr>))
      | _ \<Rightarrow> Some (Panic ExplicitPanic, a)) = Some y"
  show "archive_wf a \<longrightarrow> ar_bytes a = [] \<longrightarrow> ar_capacity a = 512 \<longrightarrow>
      ar_state a = ExpectingHeader \<or> ar_state a = ReceivingHeader 512 True \<longrightarrow> \<not> full W"
  proof (intro impI notI)
    assume start: "archive_wf a" "ar_bytes a = []" "ar_capacity a = 512" "full W"
      and st: "ar_state a = ExpectingHeader \<or> ar_state a = ReceivingHeader 512 True"
    obtain a' where a': "poll_write_data E W EMPTY_BLOCK None a = (Ok 0, a')" "archive_wf a'"
        "ar_bytes a' = []" "ar_capacity a' = 512" "ar_state a' = ReceivingHeader 512 True"
      by (rule write_block_full [OF start length_EMPTY_BLOCK st, of E None]) (rule that)
    have "f E W a' = Some y"
      using step st a'(1) by (auto simp: slice_in_range)
    from IH [OF this] a' start(4) show False by simp
  qed
qed

section \<open>An object that is not ready\<close>

definition not_ready :: "'w writer \<Rightarrow> 'w \<Rightarrow> bool" where
  "not_ready W w \<longleftrightarrow> (\<forall>bs. \<exists>w'. wr_poll_write W w bs = (Pending, w'))"

lemma poll_flush_buffered_pending:
  assumes wf: "archive_wf a" and some: "ar_bytes a \<noteq> []" and pending: "not_ready W (ar_io a)"
  obtains a' where "poll_flush_buffered E W a = (Pending, a')" and "ar_state a' = ar_state a"
proof -
  have wfb: "buf_wf (ar_buf a)" using wf by (simp add: archive_wf_def)
  let ?reg = "\<lparr>rg_buf = take (buf_cap (ar_buf a)) (buf_store (ar_buf a)), rg_pos = buf_pos (ar_buf a)\<rparr>"
  have "buf_pos (ar_buf a) < buf_cap (ar_buf a)"
    using wfb some by (auto simp: buf_wf_def buf_contents_def)
  then have steps: "rg_is_empty (debug_assertions E) ?reg = Ok False"
      "rg_bytes ?reg = Ok (ar_bytes a)"
    using wfb by (simp_all add: rg_is_empty_def rg_len_def rg_bytes_def rg.remaining_eq rg.bytes_eq
        buf_wf_def buf_contents_def)
  obtain w' where "wr_poll_write W (ar_io a) (ar_bytes a) = (Pending, w')"
    using pending unfolding not_ready_def by blast
  with steps have "flush_loop (debug_assertions E) W ?reg (ar_io a) = (Pending, ?reg, w')"
    by (simp add: flush_loop.simps [of _ W ?reg])
  then show thesis
    using that by (simp add: poll_flush_buffered_def buffered_eq [OF wfb])
qed

text \<open>
  The last write of an entry whose data fits in the buffer but whose padding does not: the
  data is accepted, the padding has to wait, and the write reports that it is pending.
\<close>

lemma write_pending_after_accepting:
  assumes wf: "archive_wf a" and sink: "appends W sent" and pending: "not_ready W (ar_io a)"
    and st: "ar_state a = ReceivingData rem" and buf: "buf \<noteq> []" "length buf = unat rem"
    and fits: "length buf \<le> buf_room (ar_buf a)" "length buf < ar_capacity a"
    and size: "hdr_entry_size E (en_header en) = Inr n" "\<not> debug_assertions E \<or> unat n + 511 < 2 ^ 64"
    and pad: "buf_room (ar_buf a) < length buf + padding 512 (unat n)"
  obtains a' where "entry_poll_write E W en buf a = Some (Pending, a')"
    and "ar_state a' = AligningData (padding 512 (unat n))"
proof -
  let ?hdr = "en_header en" and ?pad = "padding 512 (unat n)"
  have len: "length buf \<le> usize_max" using buf(2) unat_le_usize_max [of rem] by simp
  have whole: "take (unat rem) (concat [buf]) = buf" using buf(2) by simp
  have taken: "take_slices E (ar_state a) [take (unat rem) (concat [buf])] (Some ?hdr) =
      Ok (ReceivedData, length (take (unat rem) (concat [buf])))"
    using take_data_piece [of buf rem E "Some ?hdr"] st buf(2) by (simp add: take_slices_eq_take_until)
  have len': "length (take (unat rem) (concat [buf])) \<le> usize_max" using len buf(2) by simp
  obtain p
    where p: "prefix_bytes p = buf" and run: "poll_write_vectored E W [buf] (unat rem) (Some ?hdr) a =
      and_then (make_room E W (length buf) a) (\<lambda>_ b.
      and_then (if passes W (length buf) a then pass_through E W p (length buf) b else fill_buffer E p b) (\<lambda>n c.
      and_then (if n = length buf then Ok ReceivedData else state_after E (ar_state c) p (Some ?hdr) n, c)
        (\<lambda>st d. (Ok n, d\<lparr>ar_state := st\<rparr>))))"
    by (rule write_vectored_eq [OF wf len' taken, of W, unfolded whole]) (rule that)
  have no_pass: "\<not> passes W (length buf) a" using fits(2) by (simp add: passes_def)
  obtain a1 where a1: "fill_buffer E p a = (Ok (length buf), a1)" "archive_wf a1"
      "ar_bytes a1 = ar_bytes a @ buf" "ar_io a1 = ar_io a" "ar_capacity a1 = ar_capacity a"
      "buf_room (ar_buf a1) = buf_room (ar_buf a) - length buf"
  proof -
    have "buf_wf (ar_buf a)" using wf by (simp add: archive_wf_def)
    from bq.push_spec [OF this, of "debug_assertions E" "prefix_iter_buffers p"] p fits obtain b
      where "buf_write (debug_assertions E) (ar_buf a) (prefix_iter_buffers p) = Ok (length buf, b)"
        "buf_contents b = ar_bytes a @ buf" "buf_room b = buf_room (ar_buf a) - length buf"
        "buf_capacity b = ar_capacity a" "buf_wf b"
      by (auto simp: min_absorb1)
    then show thesis
      using wf buf(1) by (intro that [of "a\<lparr>ar_buf := b\<rparr>"]) (simp_all add: fill_buffer_def archive_wf_def)
  qed
  define a2 where "a2 = a1\<lparr>ar_state := ReceivedData\<rparr>"
  have "poll_write_vectored E W [buf] (unat rem) (Some ?hdr) a = (Ok (length buf), a2)"
    using run no_pass fits(1) a1(1) by (simp add: make_room_def a2_def)
  moreover have "(word_of_nat (length buf) = rem)" using buf(2) by simp
  moreover define a3 where "a3 = a2\<lparr>ar_state := AligningData ?pad\<rparr>"
  have "poll_finish_entry E W ?hdr a2 = poll_finish_entry E W ?hdr a3"
    using finish_entry_start [OF _ size, of a2 W] by (simp add: a2_def a3_def)
  moreover obtain a4 where "poll_write_data E W (replicate ?pad 0) (Some ?hdr) a3 = (Pending, a4)"
    and a4: "ar_state a4 = AligningData ?pad"
  proof -
    let ?z = "replicate ?pad (0 :: u8)"
    have wf3: "archive_wf a3"
      using a1(2) padding_less [of 512 "unat n"] by (simp add: a3_def a2_def archive_wf_def)
    have whole3: "take ?pad (concat [?z]) = ?z" by simp
    have taken3: "take_slices E (ar_state a3) [take ?pad (concat [?z])] (Some ?hdr) =
        Ok (AlignedData, length (take ?pad (concat [?z])))"
      using take_padding_piece [of ?z ?pad E "Some ?hdr"]
      by (simp add: take_slices_eq_take_until a3_def)
    have len3: "length (take ?pad (concat [?z])) \<le> usize_max"
      using padding_less [of 512 "unat n"] block_le_usize_max by simp
    obtain q
      where run3: "poll_write_vectored E W [?z] ?pad (Some ?hdr) a3 =
        and_then (make_room E W (length ?z) a3) (\<lambda>_ b.
        and_then (if passes W (length ?z) a3 then pass_through E W q (length ?z) b else fill_buffer E q b) (\<lambda>n c.
        and_then (if n = length ?z then Ok AlignedData else state_after E (ar_state c) q (Some ?hdr) n, c)
          (\<lambda>st d. (Ok n, d\<lparr>ar_state := st\<rparr>))))"
      by (rule write_vectored_eq [OF wf3 len3 taken3, of W, unfolded whole3]) (rule that)
    have "512 \<le> ar_capacity a3"
      using wf3 by (auto simp: archive_wf_def intro: dvd_imp_le)
    then have "\<not> passes W (length ?z) a3"
      using padding_less [of 512 "unat n"] by (simp add: passes_def)
    moreover have "buf_room (ar_buf a3) < length ?z"
      using pad fits(1) a1(6) by (simp add: a3_def a2_def)
    moreover obtain a4 where a4: "poll_flush_buffered E W a3 = (Pending, a4)" "ar_state a4 = ar_state a3"
      using poll_flush_buffered_pending [OF wf3, of W E] a1(3,4) pending buf(1)
      by (auto simp: a3_def a2_def)
    ultimately have "poll_write_data E W ?z (Some ?hdr) a3 = (Pending, a4)"
      using run3 by (simp add: make_room_def poll_write_data_def)
    with a4(2) that [of a4] show thesis by (simp add: a3_def)
  qed
  moreover have "take ?pad EMPTY_BLOCK = replicate ?pad 0" "?pad \<le> 512"
    using padding_less [of 512 "unat n"] by (simp_all add: take_EMPTY_BLOCK)
  ultimately have "entry_poll_write E W en buf a = Some (Pending, a4)"
    using st len
    by (simp add: entry_poll_write_def entry_poll_write_vectored_def poll_write_entry_def
        bytes_len_eq poll_finish_entry.simps [of E W ?hdr a3] a3_def [symmetric] slice_in_range)
      (simp add: a2_def a3_def slice_in_range)
  then show thesis using a4 by (rule that)
qed

section \<open>Properties at the edges\<close>

text \<open>
  Entries do not overlap: while the data or the padding of an entry is missing, adding
  another entry is refused with the error \<open>OverlappingEntry\<close>, of kind \<open>Unsupported\<close>, and
  the archive is left as it was.
\<close>

theorem add_entry_overlapping:
  assumes "(\<exists>rem. ar_state a = ReceivingData rem) \<or> ar_state a = ReceivedData \<or>
    (\<exists>rem. ar_state a = AligningData rem) \<or> ar_state a = AlignedData"
  shows "add_entry E W hdr a =
    Some (Err (IoError Unsupported ''cannot write new entry while another is being written''), a)"
  using assms
  by (auto simp: add_entry_def poll_write_header.simps [of E W hdr a] write_error_into_def)

theorem add_entry_overlapping_witness:
  "add_entry (sample_cfg True) (chunk_writer 2 True) (sample_header 1)
     \<lparr>ar_buf = buf_new 512, ar_state = ReceivingData 3, ar_io = []\<rparr> =
   Some (Err (IoError Unsupported ''cannot write new entry while another is being written''),
     \<lparr>ar_buf = buf_new 512, ar_state = ReceivingData 3, ar_io = []\<rparr>)"
  using add_entry_overlapping [of "\<lparr>ar_buf = buf_new 512, ar_state = ReceivingData 3, ar_io = []\<rparr>"
      "sample_cfg True" "chunk_writer 2 True" "sample_header 1"]
  by simp

text \<open>
  C37. An entry without data is never complete: after \<open>add_entry\<close> of an empty entry,
  finishing the entry panics, adding the next entry fails as overlapping and finishing the
  archive panics.
\<close>

theorem empty_entry_stuck:
  assumes "archive_wf a" and "appends W sent" and "willing W"
    and "ar_state a = ExpectingHeader" and "valid_header E hdr 0" and "hdr ! 0 \<noteq> 0"
  shows "\<exists>a'. add_entry E W hdr a = Some (Ok \<lparr>en_header = hdr\<rparr>, a') \<and>
    entry_finish E W \<lparr>en_header = hdr\<rparr> a' = Some (Panic ExplicitPanic, a') \<and>
    add_entry E W hdr2 a' =
      Some (Err (IoError Unsupported ''cannot write new entry while another is being written''), a') \<and>
    archive_finish E W a' = Some (Panic ExplicitPanic, a')"
proof -
  note hdr = valid_headerD [OF assms(5)]
  obtain a' where a': "poll_write_header E W hdr a = Some (Ok (), a')" "ar_state a' = ReceivingData 0"
    by (rule write_header [OF assms(1-4) hdr(1) assms(6) hdr(4)])
  then show ?thesis
    using hdr(5)
    by (intro exI [of _ a']) (simp add: add_entry_def entry_finish_def entry_poll_shutdown_def
        archive_finish_def poll_finish_entry.simps [of E W hdr a'] poll_finish.simps [of E W a']
        poll_write_header.simps [of E W hdr2 a'] write_error_into_def)
qed

theorem empty_entry_stuck_witness:
  "\<exists>a'. add_entry (sample_cfg True) (chunk_writer 5 True) (sample_header 0)
      \<lparr>ar_buf = buf_new 512, ar_state = ExpectingHeader, ar_io = []\<rparr> =
        Some (Ok \<lparr>en_header = sample_header 0\<rparr>, a') \<and>
    entry_finish (sample_cfg True) (chunk_writer 5 True) \<lparr>en_header = sample_header 0\<rparr> a' =
      Some (Panic ExplicitPanic, a') \<and>
    add_entry (sample_cfg True) (chunk_writer 5 True) (sample_header 1) a' =
      Some (Err (IoError Unsupported ''cannot write new entry while another is being written''), a') \<and>
    archive_finish (sample_cfg True) (chunk_writer 5 True) a' = Some (Panic ExplicitPanic, a')"
proof -
  let ?a = "\<lparr>ar_buf = buf_new 512, ar_state = ExpectingHeader, ar_io = [] :: bytes\<rparr>"
  have "archive_wf ?a"
    by simp
  moreover have "valid_header (sample_cfg True) (sample_header 0) 0"
    using valid_sample_header [of True 0] by simp
  ultimately show ?thesis
    using empty_entry_stuck [of ?a "chunk_writer 5 True" "\<lambda>w. w" "sample_cfg True" "sample_header 0"
        "sample_header 1"] chunk_writer_appends [of 5 True] chunk_writer_willing [of 5 True]
    by simp
qed

text \<open>
  C38. Finishing an archive with a buffer of one block over a full object that supports
  vectored writes never ends: the loop neither fails nor makes progress.
\<close>

theorem finish_full_never_ends:
  assumes "full W" and "archive_with_capacity io 1 = Ok a"
  shows "archive_finish E W a = None"
proof (rule ccontr)
  assume "archive_finish E W a \<noteq> None"
  then obtain y where run: "poll_finish E W a = Some y" by (auto simp: archive_finish_def)
  obtain a0 where a0: "archive_with_capacity io 1 = Ok a0" "archive_wf a0"
      "ar_state a0 = ExpectingHeader" "ar_bytes a0 = []" "ar_capacity a0 = 512"
    by (rule archive_with_capacity_Ok [of 1 io]) (simp_all add: usize_max_def usize_bits_def)
  then have "a0 = a" using assms(2) by simp
  with finish_full_diverges [OF run] a0 assms(1) show False by simp
qed

lemma chunk_writer_full: "full (chunk_writer 0 True)"
  by (simp add: full_def chunk_writer_def)

theorem finish_full_never_ends_witness:
  "\<exists>a. archive_with_capacity [] 1 = Ok a \<and>
    archive_finish (sample_cfg True) (chunk_writer 0 True) a = None"
proof -
  obtain a :: "bytes archive" where "archive_with_capacity [] 1 = Ok a"
    by (rule archive_with_capacity_Ok [of 1 "[] :: bytes"]) (simp_all add: usize_max_def usize_bits_def)
  then show ?thesis
    using finish_full_never_ends [OF chunk_writer_full, of "[]" a "sample_cfg True"] by simp
qed

text \<open>
  A header refused by a full object cannot be tried again: the first \<open>add_entry\<close> fails
  with \<open>WriteZero\<close>, and the next one panics.
\<close>

theorem header_write_zero:
  assumes "full W" and "archive_with_capacity io 1 = Ok a" and "length hdr = 512"
  shows "\<exists>a'. add_entry E W hdr a =
      Some (Err (IoError WriteZero ''failed to write the buffered data''), a') \<and>
    add_entry E W hdr2 a' = Some (Panic ExplicitPanic, a')"
proof -
  obtain a0 where a0: "archive_with_capacity io 1 = Ok a0" "archive_wf a0"
      "ar_state a0 = ExpectingHeader" "ar_bytes a0 = []" "ar_capacity a0 = 512"
    by (rule archive_with_capacity_Ok [of 1 io]) (simp_all add: usize_max_def usize_bits_def)
  then have eq: "a0 = a" using assms(2) by simp
  obtain a' where a': "poll_write_data E W hdr (Some hdr) a = (Ok 0, a')"
      "ar_state a' = ReceivingHeader 512 True"
    by (rule write_block_full [OF a0(2,4,5) assms(1,3), unfolded eq, of E "Some hdr"])
      (use a0(3) eq in simp_all)
  then show ?thesis
    using a0(3) eq
    by (simp add: add_entry_def poll_write_header.simps [of E W hdr a]
        poll_write_header.simps [of E W hdr2 a'] write_error_into_def)
qed

theorem header_write_zero_witness:
  "\<exists>a a'. archive_with_capacity [] 1 = Ok a \<and>
    add_entry (sample_cfg True) (chunk_writer 0 True) (sample_header 3) a =
      Some (Err (IoError WriteZero ''failed to write the buffered data''), a') \<and>
    add_entry (sample_cfg True) (chunk_writer 0 True) (sample_header 3) a' =
      Some (Panic ExplicitPanic, a')"
proof -
  obtain a :: "bytes archive" where "archive_with_capacity [] 1 = Ok a"
    by (rule archive_with_capacity_Ok [of 1 "[] :: bytes"]) (simp_all add: usize_max_def usize_bits_def)
  then show ?thesis
    using header_write_zero [OF chunk_writer_full, of "[]" a "sample_header 3" "sample_cfg True"
        "sample_header 3"] by auto
qed

text \<open>
  C39. A write that completes an entry can be reported as pending after its data was
  accepted, when the padding does not fit in the buffer and the object is not ready; the
  caller has to repeat it, and the repeated write panics.
\<close>

theorem pending_after_accepting:
  assumes "archive_wf a" and "appends W sent" and "not_ready W (ar_io a)"
    and "ar_state a = ReceivingData rem" and "buf \<noteq> []" and "length buf = unat rem"
    and "length buf \<le> buf_room (ar_buf a)" and "length buf < ar_capacity a"
    and "hdr_entry_size E (en_header en) = Inr n" and "\<not> debug_assertions E \<or> unat n + 511 < 2 ^ 64"
    and "buf_room (ar_buf a) < length buf + padding 512 (unat n)"
  shows "\<exists>a'. entry_poll_write E W en buf a = Some (Pending, a') \<and>
    entry_poll_write E W en buf a' = Some (Panic ExplicitPanic, a')"
proof -
  obtain a' where "entry_poll_write E W en buf a = Some (Pending, a')"
      "ar_state a' = AligningData (padding 512 (unat n))"
    by (rule write_pending_after_accepting [OF assms])
  then show ?thesis
    by (simp add: entry_poll_write_def entry_poll_write_vectored_def poll_write_entry_def)
qed

definition pending_writer :: "bytes writer" where
  "pending_writer =
     \<lparr>wr_poll_write = (\<lambda>w bs. (Pending, w)), wr_poll_write_vectored = (\<lambda>w bufs. (Pending, w)),
      wr_is_write_vectored = (\<lambda>w. True),
      wr_poll_flush = (\<lambda>w. (Pending, w)), wr_poll_shutdown = (\<lambda>w. (Pending, w))\<rparr>"

theorem pending_after_accepting_witness:
  "\<exists>a'. entry_poll_write ((sample_cfg True)\<lparr>hdr_entry_size := \<lambda>h. Inr 1500\<rparr>) pending_writer
      \<lparr>en_header = []\<rparr> (replicate 500 7)
      \<lparr>ar_buf = \<lparr>buf_store = replicate 1024 0, buf_cap = 500, buf_pos = 0\<rparr>,
        ar_state = ReceivingData 500, ar_io = []\<rparr> = Some (Pending, a') \<and>
    entry_poll_write ((sample_cfg True)\<lparr>hdr_entry_size := \<lambda>h. Inr 1500\<rparr>) pending_writer
      \<lparr>en_header = []\<rparr> (replicate 500 7) a' = Some (Panic ExplicitPanic, a')"
proof -
  let ?a = "\<lparr>ar_buf = \<lparr>buf_store = replicate 1024 0, buf_cap = 500, buf_pos = 0\<rparr>,
    ar_state = ReceivingData 500, ar_io = [] :: bytes\<rparr>"
  have "archive_wf ?a" "buf_room (ar_buf ?a) = 524" "ar_capacity ?a = 1024"
    by (simp_all add: archive_wf_def buf_wf_def buf_capacity_def buf_contents_def
        buf_room_def usize_max_def usize_bits_def)
  moreover have "appends pending_writer (\<lambda>w. w)" "not_ready pending_writer []"
    by (simp_all add: appends_def not_ready_def pending_writer_def)
  ultimately show ?thesis
    using pending_after_accepting [of ?a pending_writer "\<lambda>w. w" 500 "replicate 500 7"
        "(sample_cfg True)\<lparr>hdr_entry_size := \<lambda>h. Inr 1500\<rparr>" "\<lparr>en_header = []\<rparr>" 1500]
    by (simp add: padding_def)
qed

text \<open>
  A header is written before it is checked: where its checksum field cannot be read,
  \<open>add_entry\<close> fails, but the header has entered the stream and the archive waits for data
  of an entry the client has no handle to.
\<close>

theorem unchecked_header_written:
  assumes "archive_wf a" and "appends W sent" and "willing W"
    and "ar_state a = ExpectingHeader" and "length hdr = 512" and "hdr ! 0 \<noteq> 0"
    and "hdr_entry_size E hdr = Inr n" and "hdr_cksum E hdr = Inl e"
  shows "\<exists>a'. add_entry E W hdr a = Some (Err e, a') \<and>
    written sent a' = written sent a @ hdr \<and> ar_state a' = ReceivingData n"
proof -
  obtain a' where "poll_write_header E W hdr a = Some (Ok (), a')" "ar_state a' = ReceivingData n"
      "written sent a' = written sent a @ hdr"
    by (rule write_header [OF assms(1-7)])
  then show ?thesis
    using assms(8) by (simp add: add_entry_def entry_new_def)
qed

theorem unchecked_header_written_witness:
  "\<exists>a'. add_entry ((sample_cfg True)\<lparr>hdr_cksum := \<lambda>h. Inl (IoError OtherKind [])\<rparr>)
      (chunk_writer 5 True) (sample_header 3)
      \<lparr>ar_buf = buf_new 512, ar_state = ExpectingHeader, ar_io = []\<rparr> =
        Some (Err (IoError OtherKind []), a') \<and>
    written (\<lambda>w. w) a' = sample_header 3 \<and> ar_state a' = ReceivingData 3"
proof -
  let ?a = "\<lparr>ar_buf = buf_new 512, ar_state = ExpectingHeader, ar_io = [] :: bytes\<rparr>"
  have "archive_wf ?a" "written (\<lambda>w. w) ?a = []"
    by (simp_all add: written_def)
  then show ?thesis
    using unchecked_header_written [of ?a "chunk_writer 5 True" "\<lambda>w. w" "sample_header 3"
        "(sample_cfg True)\<lparr>hdr_cksum := \<lambda>h. Inl (IoError OtherKind [])\<rparr>" 3 "IoError OtherKind []"]
      chunk_writer_appends [of 5 True] chunk_writer_willing [of 5 True]
    by simp
qed

text \<open>
  C40. An error of the object is lost: a write whose slice is longer than what is missing of the
  entry, with an empty buffer that is not larger than that, passes no whole slice through
  and tries the rest of it; when that fails or is not ready, the write is reported as a
  success with zero bytes.
\<close>

theorem write_error_swallowed:
  assumes "archive_wf a" and "ar_bytes a = []" and "ar_state a = ReceivingData rem"
    and "ar_capacity a \<le> unat rem" and "unat rem < length buf"
    and "wr_is_write_vectored W (ar_io a)" and "wr_poll_write_vectored W (ar_io a) [] = (Ok 0, w1)"
    and "wr_poll_write W w1 (take (unat rem) buf) = (r, w2)" and "r = Pending \<or> r = Err e"
  shows "\<exists>a'. entry_poll_write E W en buf a = Some (Ok 0, a') \<and> ar_io a' = w2 \<and>
    ar_state a' = ReceivingData rem \<and> ar_bytes a' = []"
proof -
  let ?h = "Some (en_header en)" and ?data = "take (unat rem) buf"
  have rem: "0 < unat rem" using assms(1,4) by (auto simp: archive_wf_def)
  have len: "length ?data = unat rem" "length ?data \<le> usize_max"
    using assms(5) unat_le_usize_max [of rem] by simp_all
  have p: "array_take_prefix [buf] (unat rem) = Ok (prefix_from_parts [] ?data)" (is "_ = Ok ?p")
    using assms(5) rem by (simp add: array_take_prefix_def array_split_at_byte_offset_def
        split_at_byte_offset_def array_split_at_index_def split_at_def slice_in_range)
  have plen: "prefix_bytes_len ?p = unat rem"
    using len by (simp add: prefix_bytes_len_eq prefix_bytes_eq slices_simps)
  have taken: "take_slices E (ReceivingData rem) (prefix_iter_buffers ?p) ?h = Ok (ReceivedData, unat rem)"
    using len by (simp add: take_slices_eq_take_until prefix_bytes_eq slices_simps take_until_halt
        next_receiving_data_def advance_def)
  obtain b where b: "poll_flush_buffered E W a = (Ok (), a\<lparr>ar_buf := b\<rparr>)" "buf_contents b = []"
    by (rule poll_flush_buffered_empty [OF assms(1,2)])
  have pass: "pass_through E W ?p (unat rem) (a\<lparr>ar_buf := b\<rparr>) = (Ok 0, a\<lparr>ar_buf := b, ar_io := w2\<rparr>)"
    using assms(7-9) len by (auto simp: pass_through_def slices_simps usize_sub_def)
  have after: "state_after E (ReceivingData rem) ?p ?h 0 = Ok (ReceivingData rem)"
  proof -
    have "take_slices E (ReceivingData rem) [prefix_bytes ?p] ?h = Ok (ReceivedData, length (prefix_bytes ?p))"
      using taken len by (simp add: take_slices_eq_take_until prefix_bytes_eq slices_simps)
    from state_after_spec [OF this, of 0] obtain s
      where "state_after E (ReceivingData rem) ?p ?h 0 = Ok s"
        "take_slices E (ReceivingData rem) [[]] ?h = Ok (s, 0)" by auto
    then show ?thesis
      using rem by (auto simp: take_slices_eq_take_until take_until_unfold next_receiving_data_def
          slices_stop_def unat_gt_0)
  qed
  have "poll_write_vectored E W [buf] (unat rem) ?h a =
      (Ok 0, a\<lparr>ar_buf := b, ar_io := w2, ar_state := ReceivingData rem\<rparr>)"
    using assms(3,4,6) rem by (simp add: poll_write_vectored_def Let_def p plen taken b(1) pass after)
  moreover have "(0 :: u64) \<noteq> rem" using rem by auto
  ultimately have "entry_poll_write E W en buf a =
      Some (Ok 0, a\<lparr>ar_buf := b, ar_io := w2, ar_state := ReceivingData rem\<rparr>)"
    using assms(3) by (simp add: entry_poll_write_def entry_poll_write_vectored_def poll_write_entry_def)
  then show ?thesis using b(2) by simp
qed

text \<open>An object that takes whole slices only, and fails on single ones.\<close>

definition slices_writer :: "bytes writer" where
  "slices_writer =
     \<lparr>wr_poll_write = (\<lambda>w bs. (Err (IoError OtherKind ''broken pipe''), w)),
      wr_poll_write_vectored = (\<lambda>w bufs. (Ok (length (concat bufs)), w @ concat bufs)),
      wr_is_write_vectored = (\<lambda>w. True),
      wr_poll_flush = (\<lambda>w. (Ok (), w)), wr_poll_shutdown = (\<lambda>w. (Ok (), w))\<rparr>"

theorem write_error_swallowed_witness:
  "\<exists>a'. entry_poll_write (sample_cfg True) slices_writer \<lparr>en_header = sample_header 3\<rparr>
      (replicate 700 1) \<lparr>ar_buf = buf_new 512, ar_state = ReceivingData 600, ar_io = []\<rparr> = Some (Ok 0, a') \<and>
    ar_io a' = [] \<and> ar_state a' = ReceivingData 600 \<and> ar_bytes a' = []"
  using write_error_swallowed [of "\<lparr>ar_buf = buf_new 512, ar_state = ReceivingData 600, ar_io = []\<rparr>"
      600 "replicate 700 1" slices_writer "[]" "Err (IoError OtherKind ''broken pipe'')" "[]"
      "IoError OtherKind ''broken pipe''" "sample_cfg True" "\<lparr>en_header = sample_header 3\<rparr>"]
  by (simp add: slices_writer_def)

end
