(* ===== verification/Writer_Invariants.thy ===== *)
theory Writer_Invariants
  imports Writer_Limits
begin

text \<open>
  What the loops of the writer (\<open>src/write/mod.rs\<close>) keep: any property of the archive that the
  single steps they are made of keep, that is a write of zeros or of data that is due, a
  marker, sending the buffer, and a flush or a shutdown of the object.
\<close>

section \<open>Results and properties of the archive\<close>

text \<open>What an operation does, unless it panics, and a loop, where it ends.\<close>

definition ends_in :: "('a \<Rightarrow> bool) \<Rightarrow> 'b outcome \<times> 'a \<Rightarrow> bool" where
  "ends_in P m \<longleftrightarrow> panicked (fst m) \<or> P (snd m)"

definition loop_ends_in :: "('a \<Rightarrow> bool) \<Rightarrow> ('b outcome \<times> 'a) option \<Rightarrow> bool" where
  "loop_ends_in P m \<longleftrightarrow> (\<forall>r. m = Some r \<longrightarrow> ends_in P r)"

lemma ends_in_panic [simp]: "ends_in P (Panic p, b)"
  by (simp add: ends_in_def)

lemma ends_in_result: "P b \<Longrightarrow> ends_in P (r, b)"
  by (simp add: ends_in_def)

lemma ends_inD: "ends_in P m \<Longrightarrow> m = (r, a') \<Longrightarrow> \<not> panicked r \<Longrightarrow> P a'"
  by (auto simp: ends_in_def)

lemma loop_ends_in_Some: "ends_in P m \<Longrightarrow> loop_ends_in P (Some m)"
  by (simp add: loop_ends_in_def)

lemma loop_ends_inD: "loop_ends_in P m \<Longrightarrow> m = Some r \<Longrightarrow> ends_in P r"
  by (simp add: loop_ends_in_def)

lemma loop_ends_in_then:
  assumes "ends_in P m" and "\<And>x b. m = (Ok x, b) \<Longrightarrow> P b \<Longrightarrow> loop_ends_in P (f x b)"
  shows "loop_ends_in P (loop_then m f)"
  using assms by (cases m; cases "fst m") (auto simp: ends_in_def loop_ends_in_def)

lemma ends_in_and_then:
  assumes "ends_in P m" and "\<And>x b. m = (Ok x, b) \<Longrightarrow> P b \<Longrightarrow> ends_in P (f x b)"
  shows "ends_in P (and_then m f)"
  using assms by (cases m; cases "fst m") (auto simp: ends_in_def)

lemma loop_ends_in_bind:
  assumes "loop_ends_in P m" and "\<And>r. ends_in P r \<Longrightarrow> loop_ends_in P (f r)"
  shows "loop_ends_in P (Option.bind m f)"
  using assms by (cases m) (auto simp: loop_ends_in_def)

section \<open>Facts about single steps\<close>

lemma state_block_le:
  assumes "archive_wf a"
  shows "ar_state a = ReceivingHeader rem e \<Longrightarrow> rem \<le> 512"
    and "ar_state a = AligningData rem \<Longrightarrow> rem \<le> 512"
    and "ar_state a = ReceivingEof rem \<Longrightarrow> rem \<le> 512"
  using assms by (auto simp: archive_wf_def)

lemma loop_then_slice:
  "n \<le> length bs \<Longrightarrow> loop_then (slice_to bs n, a) f = f (take n bs) a"
  by (simp add: slice_in_range)

section \<open>The interface\<close>

text \<open>The zeros the writer owes in a state: of the padding, or of the end of the archive.\<close>

fun zeros_due :: "state \<Rightarrow> usize \<Rightarrow> bool" where
  "zeros_due ExpectingHeader n \<longleftrightarrow> n = 512"
| "zeros_due (ReceivingHeader rem e) n \<longleftrightarrow> e \<and> n = rem"
| "zeros_due (AligningData rem) n \<longleftrightarrow> n = rem"
| "zeros_due (ReceivingEof rem) n \<longleftrightarrow> n = rem"
| "zeros_due _ n \<longleftrightarrow> False"

locale flush_invariant =
  fixes E :: cfg and W :: "'w writer" and holds :: "'w archive \<Rightarrow> bool"
  assumes flush_buffered: "holds a \<Longrightarrow> ends_in holds (poll_flush_buffered E W a)"
    and object_flush: "holds a \<Longrightarrow> holds (a\<lparr>ar_io := snd (wr_poll_flush W (ar_io a))\<rparr>)"
    and object_shutdown: "holds a \<Longrightarrow> holds (a\<lparr>ar_io := snd (wr_poll_shutdown W (ar_io a))\<rparr>)"
begin

lemma poll_flush_keeps: "holds a \<Longrightarrow> ends_in holds (poll_flush E W a)"
  unfolding poll_flush_def
  by (rule ends_in_and_then [OF flush_buffered])
    (auto intro: ends_in_result object_flush simp: case_prod_beta)

end

locale finish_invariant = flush_invariant +
  assumes wf: "holds a \<Longrightarrow> archive_wf a"
    and zeros: "holds a \<Longrightarrow> zeros_due (ar_state a) n \<Longrightarrow>
      ends_in holds (poll_write_data E W (take n EMPTY_BLOCK) h a)"
begin

lemma poll_finish_keeps:
  assumes "holds a"
  shows "loop_ends_in holds (poll_finish E W a)"
proof -
  have "E' = E \<longrightarrow> W' = W \<longrightarrow> holds a \<longrightarrow> ends_in holds y" if "poll_finish E' W' a = Some y" for E' W' a y
  proof (rule poll_finish.raw_induct [OF _ that], intro impI, goal_cases)
    case (1 f E' W' a y)
    note step = "1"(2) [unfolded "1"(3,4)] and holds = "1"(5)
    have piece: "loop_ends_in holds
        (loop_then (poll_write_data E W (take n EMPTY_BLOCK) None a) (\<lambda>_ b. f E W b))"
      if "zeros_due (ar_state a) n" for n
      by (rule loop_ends_in_then [OF zeros [OF holds that]])
        (use "1"(1) in \<open>simp add: loop_ends_in_def\<close>)
    have finished: "loop_ends_in holds (loop_then (poll_flush_buffered E W a) (\<lambda>_ a.
        case wr_poll_shutdown W (ar_io a) of (r, io) \<Rightarrow> Some (r, a\<lparr>ar_io := io\<rparr>)))"
      by (rule loop_ends_in_then [OF flush_buffered [OF holds]])
        (auto simp: case_prod_beta intro: loop_ends_in_Some ends_in_result object_shutdown)
    note le = state_block_le [OF wf [OF holds]]
    show ?case
    proof (cases "ar_state a")
      case ExpectingHeader
      with step loop_ends_inD [OF piece [of 512]] show ?thesis by simp
    next
      case (ReceivingHeader rem e)
      with step loop_ends_inD [OF piece [of rem]] le(1) [of rem e] show ?thesis
        by (cases e) (auto simp: loop_then_slice)
    next
      case (ReceivingEof rem)
      with step loop_ends_inD [OF piece [of rem]] le(3) [of rem] show ?thesis
        by (simp add: loop_then_slice)
    next
      case ReceivedEof
      with step loop_ends_inD [OF finished] show ?thesis by simp
    qed (use step in auto)
  qed
  with assms show ?thesis by (simp add: loop_ends_in_def)
qed

end

text \<open>The steps of an entry are given its header.\<close>

locale entry_invariant = finish_invariant +
  fixes hdr :: header
  assumes marker: "holds a \<Longrightarrow> ar_state a = ReceivedData \<and> h = Some hdr \<or> ar_state a = AlignedData \<and> h = None \<Longrightarrow>
      ends_in holds (archive_take_marker E h a)"
    and data: "holds a \<Longrightarrow> ar_state a = ReceivingData rem \<Longrightarrow>
      ends_in holds (poll_write_vectored E W bufs (unat rem) (Some hdr) a)"
begin

lemma poll_finish_entry_keeps:
  assumes "holds a"
  shows "loop_ends_in holds (poll_finish_entry E W hdr a)"
proof -
  have "E' = E \<longrightarrow> W' = W \<longrightarrow> hdr' = hdr \<longrightarrow> holds a \<longrightarrow> ends_in holds y"
    if "poll_finish_entry E' W' hdr' a = Some y" for E' W' hdr' a y
  proof (rule poll_finish_entry.raw_induct [OF _ that], intro impI, goal_cases)
    case (1 f E' W' hdr' a y)
    note step = "1"(2) [unfolded "1"(3-5)] and holds = "1"(6)
    have again: "loop_ends_in holds (f E W hdr b)" if "holds b" for b
      using "1"(1) that by (simp add: loop_ends_in_def)
    note le = state_block_le [OF wf [OF holds]]
    show ?case
    proof (cases "ar_state a")
      case ReceivedData
      have "loop_ends_in holds (loop_then (archive_take_marker E (Some hdr) a) (\<lambda>_ a. f E W hdr a))"
        by (rule loop_ends_in_then [OF marker [OF holds]]) (use ReceivedData again in auto)
      with step ReceivedData show ?thesis by (simp add: loop_ends_in_def)
    next
      case (AligningData rem)
      have "loop_ends_in holds
          (loop_then (poll_write_data E W (take rem EMPTY_BLOCK) (Some hdr) a) (\<lambda>_ b. f E W hdr b))"
        by (rule loop_ends_in_then [OF zeros [OF holds]]) (use AligningData again in simp_all)
      with step AligningData le(2) [of rem] show ?thesis
        by (simp add: loop_ends_in_def loop_then_slice)
    next
      case AlignedData
      with step marker [OF holds, of None] show ?thesis by auto
    next
      case ExpectingHeader
      with step holds show ?thesis by (auto intro: ends_in_result)
    qed (use step in auto)
  qed
  with assms show ?thesis by (simp add: loop_ends_in_def)
qed

lemma poll_write_entry_keeps:
  assumes holds: "holds a"
  shows "loop_ends_in holds (poll_write_entry E W bufs hdr a)"
proof (cases "ar_state a")
  case (ReceivingData rem)
  define finish where "finish n = (\<lambda>b. Option.bind (poll_finish_entry E W hdr b) (\<lambda>res. case res of
        (Ok _, a) \<Rightarrow> Some (Ok n, a)
      | (Err e, a) \<Rightarrow> Some (if debug_assertions E then Panic AssertFailed else Ok n, a)
      | (Pending, a) \<Rightarrow> Some (Pending, a)
      | (Panic p, a) \<Rightarrow> Some (Panic p, a)))" for n :: usize
  have finish: "loop_ends_in holds (finish n b)" if "holds b" for b n
    unfolding finish_def
    by (rule loop_ends_in_bind [OF poll_finish_entry_keeps [OF that]])
      (auto simp: loop_ends_in_def ends_in_def split: prod.splits outcome.splits)
  have "loop_ends_in holds
      (loop_then (poll_write_vectored E W bufs (unat rem) (Some hdr) a) (\<lambda>n a.
        if word_of_nat n = rem then
          loop_then (assert_that (\<not> debug_assertions E \<or> bytes_len bufs = n), a) (\<lambda>_ a.
          loop_then
            (assert_that (\<not> debug_assertions E \<or> ar_state a = ReceivedData), a) (\<lambda>_ a.
          finish n a))
        else Some (Ok n, a)))"
    by (rule loop_ends_in_then [OF data [OF holds ReceivingData]])
      (auto simp: assert_that_def intro: finish loop_ends_in_Some ends_in_result)
  with ReceivingData show ?thesis
    unfolding finish_def by (simp add: poll_write_entry_def)
qed (simp_all add: poll_write_entry_def loop_ends_in_Some)

lemma entry_finish_keeps:
  assumes "holds a" and "en_header en = hdr"
  shows "loop_ends_in holds (entry_finish E W en a)"
  unfolding entry_finish_def entry_poll_shutdown_def assms(2)
  by (rule loop_ends_in_bind [OF poll_finish_entry_keeps [OF assms(1)]], rule loop_ends_in_then)
    (auto intro: loop_ends_in_Some poll_flush_keeps)

end

end
