(* ===== verification/Writing_Safety.thy ===== *)
theory Writing_Safety
  imports Writer_Invariants
begin

text \<open>
  The state transitions a client can cause by writing, whatever the underlying object
  answers, and the invariant they keep: the archive is well formed, and the bytes sent
  followed by those buffered only ever grow at the end.
\<close>

section \<open>Growing streams\<close>

definition grows :: "('w \<Rightarrow> bytes) \<Rightarrow> 'w archive \<Rightarrow> 'w archive \<Rightarrow> bool" where
  "grows sent a a' \<longleftrightarrow> archive_wf a' \<and> ar_capacity a' = ar_capacity a \<and>
     (\<exists>acc. written sent a' = written sent a @ acc)"

lemma grows_refl: "archive_wf a \<Longrightarrow> grows sent a a"
  by (simp add: grows_def)

lemma grows_trans: "grows sent a b \<Longrightarrow> grows sent b c \<Longrightarrow> grows sent a c"
  by (auto simp: grows_def)

text \<open>What every operation is shown to do: it panics, or the stream has grown.\<close>

abbreviation appending :: "('w \<Rightarrow> bytes) \<Rightarrow> 'w archive \<Rightarrow> 'b outcome \<times> 'w archive \<Rightarrow> bool" where
  "appending sent a \<equiv> ends_in (grows sent a)"

abbreviation appending_loop ::
  "('w \<Rightarrow> bytes) \<Rightarrow> 'w archive \<Rightarrow> ('b outcome \<times> 'w archive) option \<Rightarrow> bool" where
  "appending_loop sent a \<equiv> loop_ends_in (grows sent a)"

lemma appending_loop_trans: "grows sent a b \<Longrightarrow> appending_loop sent b m \<Longrightarrow> appending_loop sent a m"
  by (auto simp: loop_ends_in_def ends_in_def intro: grows_trans)

section \<open>The operations of the archive\<close>

lemma poll_flush_buffered_appending:
  assumes "archive_wf a" and "appends W sent"
  shows "appending sent a (poll_flush_buffered E W a)"
proof -
  obtain r a' where run: "poll_flush_buffered E W a = (r, a')" by fastforce
  then show ?thesis
    using flush_spec [OF assms run] by (auto simp: ends_in_def grows_def)
qed

lemma write_vectored_outcome:
  assumes wf: "archive_wf a" and sink: "appends W sent"
    and len: "length (take m (concat bufs)) \<le> usize_max"
    and run: "poll_write_vectored E W bufs m h a = (r, a')" and ok: "\<not> panicked r"
  shows "write_outcome E sent (take m (concat bufs)) h a r a'"
proof -
  let ?data = "take m (concat bufs)"
  obtain p where p: "array_take_prefix bufs m = Ok p" "prefix_bytes p = ?data"
    by (rule array_take_prefix_bytes)
  have taken: "take_slices E (ar_state a) (prefix_iter_buffers p) h = take_slices E (ar_state a) [?data] h"
    by (simp add: take_slices_eq_take_until p(2))
  show ?thesis
  proof (cases "take_slices E (ar_state a) [?data] h")
    case (Ok t)
    then obtain st n where t: "take_slices E (ar_state a) [?data] h = Ok (st, n)" by (cases t) simp
    show ?thesis
    proof (cases "n = length ?data")
      case True
      with write_vectored_spec [OF wf sink len _ run ok] t show ?thesis by simp
    qed (use write_vectored_checks(2) [OF len t] run ok in auto)
  qed (use p taken wf run ok in \<open>auto simp: poll_write_vectored_def Let_def write_outcome_def\<close>)
qed

lemma write_vectored_appending:
  assumes wf: "archive_wf a" and sink: "appends W sent"
    and len: "length (take m (concat bufs)) \<le> usize_max"
  shows "appending sent a (poll_write_vectored E W bufs m h a)"
proof -
  obtain r a' where run: "poll_write_vectored E W bufs m h a = (r, a')" by fastforce
  show ?thesis
    using write_vectored_outcome [OF wf sink len run] run
    by (auto simp: ends_in_def write_outcome_def grows_def split: outcome.splits)
qed

lemma write_data_appending:
  assumes "archive_wf a" and "appends W sent" and "length buf \<le> usize_max"
  shows "appending sent a (poll_write_data E W buf h a)"
  using write_vectored_appending [OF assms(1,2), of "length buf" "[buf]"] assms(3)
  by (simp add: poll_write_data_def)

lemma archive_take_marker_appending:
  assumes wf: "archive_wf a"
  shows "appending sent a (archive_take_marker E h a)"
proof (cases "is_marker (ar_state a)")
  case True
  show ?thesis
  proof (cases "state_next E (ar_state a) [] h")
    case (Ok r)
    then obtain st n where next_eq: "state_next E (ar_state a) [] h = Ok (st, n)" by (cases r) auto
    have "state_wf st" using state_next_wf [OF _ next_eq] wf by (simp add: archive_wf_def)
    with wf True next_eq state_next_le [OF next_eq] show ?thesis
      by (simp add: archive_take_marker_def take_marker_def ends_in_def grows_def archive_wf_def
          written_def)
  qed (use wf True in \<open>simp_all add: archive_take_marker_def take_marker_def ends_in_def grows_refl\<close>)
qed (simp add: archive_take_marker_def take_marker_def)

section \<open>The loops\<close>

lemma grows_wf: "grows sent a b \<Longrightarrow> archive_wf b"
  by (simp add: grows_def)

text \<open>A step or a loop continues with an archive whose stream has grown.\<close>

lemma continue_step:
  assumes "grows sent a b" and "archive_wf b \<Longrightarrow> appending sent b m"
  shows "appending sent a m"
  using assms grows_trans grows_wf by (fastforce simp: ends_in_def)

lemma continue_loop:
  assumes "grows sent a b" and "archive_wf b \<Longrightarrow> appending_loop sent b m"
  shows "appending_loop sent a m"
  using assms appending_loop_trans grows_wf by blast

lemma grows_io:
  "grows sent a b \<Longrightarrow> sent io = sent (ar_io b) \<Longrightarrow> grows sent a (b\<lparr>ar_io := io\<rparr>)"
  by (auto simp: grows_def written_def archive_wf_def)

lemma zeros_due_le: "archive_wf a \<Longrightarrow> zeros_due (ar_state a) n \<Longrightarrow> n \<le> 512"
  by (cases "ar_state a") (auto simp: archive_wf_def)

text \<open>The archives over an appending object whose stream has grown are such an invariant.\<close>

definition grown :: "'w writer \<Rightarrow> ('w \<Rightarrow> bytes) \<Rightarrow> 'w archive \<Rightarrow> 'w archive \<Rightarrow> bool" where
  "grown W sent a b \<longleftrightarrow> appends W sent \<and> grows sent a b"

lemma grown_step:
  assumes "grown W sent a b" and "archive_wf b \<Longrightarrow> appends W sent \<Longrightarrow> appending sent b m"
  shows "ends_in (grown W sent a) m"
  using continue_step [of sent a b m] assms by (auto simp: grown_def ends_in_def)

interpretation growing: entry_invariant E W "grown W sent a" hdr for E W sent a hdr
proof (unfold_locales, goal_cases)
  case (1 b)
  then show ?case by (rule grown_step) (rule poll_flush_buffered_appending)
next
  case (2 b)
  then show ?case using appendsD(7) [OF _ prod.collapse [symmetric]] by (auto simp: grown_def intro!: grows_io)
next
  case (3 b)
  then show ?case using appendsD(8) [OF _ prod.collapse [symmetric]] by (auto simp: grown_def intro!: grows_io)
next
  case (4 b)
  then show ?case using grows_wf by (auto simp: grown_def)
next
  case (5 b n h)
  then have "n \<le> 512" using zeros_due_le [OF grows_wf] by (auto simp: grown_def)
  then have "length (take n EMPTY_BLOCK) \<le> usize_max" by (intro block_le_usize_max) simp
  with 5(1) show ?case
    by (rule_tac grown_step) (auto intro: write_data_appending)
next
  case (6 b h)
  then show ?case by (rule_tac grown_step) (auto intro: archive_take_marker_appending)
next
  case (7 b rem bufs)
  then show ?case
    by (rule_tac grown_step) (use unat_le_usize_max [of rem] in \<open>auto intro: write_vectored_appending\<close>)
qed

lemma grown_start: "archive_wf a \<Longrightarrow> appends W sent \<Longrightarrow> grown W sent a a"
  by (simp add: grown_def grows_refl)

lemma poll_write_header_appending:
  assumes wf: "archive_wf a" and sink: "appends W sent" and hdr: "length hdr = 512"
  shows "appending_loop sent a (poll_write_header E W hdr a)"
proof -
  have "archive_wf a \<longrightarrow> appends W sent \<longrightarrow> length hdr = 512 \<longrightarrow> appending sent a y"
    if "poll_write_header E W hdr a = Some y" for y
  proof (rule poll_write_header.raw_induct [OF _ that], intro impI, goal_cases)
    case (1 f E W hdr a y)
    note step = "1"(2) and wf = "1"(3) and sink = "1"(4) and hdr = "1"(5)
    have again: "appending_loop sent a (f E W hdr b)" if "grows sent a b" for b
      by (rule continue_loop [OF that]) (use "1"(1) sink hdr in \<open>auto simp: loop_ends_in_def\<close>)
    have piece: "appending_loop sent a (loop_then (poll_write_data E W buf (Some hdr) a) (\<lambda>n b.
        if n = 0 \<and> c then Some (Err (write_error_into WriteErrorZero), b) else f E W hdr b))"
      if "length buf \<le> 512" for buf c
      by (rule loop_ends_in_then [OF write_data_appending [OF wf sink block_le_usize_max [OF that]]])
        (auto intro: again loop_ends_in_Some ends_in_result)
    note le = state_block_le [OF wf]
    show ?case
    proof (cases "ar_state a")
      case ExpectingHeader
      with step piece [of hdr True, unfolded simp_thms] hdr show ?thesis
        by (simp add: loop_ends_in_def)
    next
      case (ReceivingHeader rem e)
      show ?thesis
      proof (cases e)
        case False
        have "length (drop (512 - rem) hdr) \<le> 512" using hdr by simp
        with step ReceivingHeader False piece [of "drop (512 - rem) hdr" "0 < rem"] le(1) [of rem e] hdr
        show ?thesis by (simp add: loop_ends_in_def usize_sub_def slice_in_range)
      qed (use step ReceivingHeader in auto)
    next
      case ReceivedHeader
      with step archive_take_marker_appending [OF wf, of sent E "Some hdr"] show ?thesis by auto
    qed (use step wf in \<open>auto intro: ends_in_result grows_refl\<close>)
  qed
  with assms show ?thesis by (simp add: loop_ends_in_def)
qed

section \<open>What a client can do\<close>

text \<open>
  Every call a client can make, with the outcome it gets, where the call returns; a call that
  panics ends the run.
\<close>

inductive write_step :: "cfg \<Rightarrow> 'w writer \<Rightarrow> 'w archive \<Rightarrow> 'w archive \<Rightarrow> bool"
  for E :: cfg and W :: "'w writer" where
  add_entry: "length hdr = 512 \<Longrightarrow> add_entry E W hdr a = Some (r, a') \<Longrightarrow> \<not> panicked r \<Longrightarrow>
    write_step E W a a'"
| write_some: "entry_poll_write E W en buf a = Some (r, a') \<Longrightarrow> \<not> panicked r \<Longrightarrow> write_step E W a a'"
| write_slices: "entry_poll_write_vectored E W en bufs a = Some (r, a') \<Longrightarrow> \<not> panicked r \<Longrightarrow>
    write_step E W a a'"
| flush: "entry_poll_flush E W en a = (r, a') \<Longrightarrow> \<not> panicked r \<Longrightarrow> write_step E W a a'"
| finish_entry: "entry_finish E W en a = Some (r, a') \<Longrightarrow> \<not> panicked r \<Longrightarrow> write_step E W a a'"
| finish: "archive_finish E W a = Some (r, a') \<Longrightarrow> \<not> panicked r \<Longrightarrow> write_step E W a a'"

lemma add_entry_appending:
  assumes "archive_wf a" and "appends W sent" and "length hdr = 512"
  shows "appending_loop sent a (add_entry E W hdr a)"
  unfolding add_entry_def
  by (rule loop_ends_in_bind [OF poll_write_header_appending [OF assms]], rule loop_ends_in_then)
    (auto intro: loop_ends_in_Some ends_in_result)

lemma write_step_grows:
  assumes "write_step E W a a'" and sink: "appends W sent" and wf: "archive_wf a"
  shows "grows sent a a'"
proof -
  note start = grown_start [OF wf sink]
  have loop: "grows sent a a'"
    if "loop_ends_in (grown W sent a) m" and "m = Some (r, a')" and "\<not> panicked r"
    for m and r :: "'c outcome"
    using ends_inD [OF loop_ends_inD [OF that(1,2)] refl that(3)] by (simp add: grown_def)
  show ?thesis
    using assms(1)
  proof cases
    case (add_entry hdr r)
    then show ?thesis
      using ends_inD [OF loop_ends_inD [OF add_entry_appending [OF wf sink]]] by blast
  next
    case (write_some en buf r)
    then show ?thesis
      using loop [OF growing.poll_write_entry_keeps [OF start]]
      by (simp add: entry_poll_write_def entry_poll_write_vectored_def)
  next
    case (write_slices en bufs r)
    then show ?thesis
      using loop [OF growing.poll_write_entry_keeps [OF start]]
      by (simp add: entry_poll_write_vectored_def)
  next
    case (flush en r)
    then show ?thesis
      using ends_inD [OF growing.poll_flush_keeps [OF start]] by (simp add: entry_poll_flush_def grown_def)
  next
    case (finish_entry en r)
    then show ?thesis using loop [OF growing.entry_finish_keeps [OF start refl]] by blast
  next
    case (finish r)
    then show ?thesis
      using loop [OF growing.poll_finish_keeps [OF start]] by (simp add: archive_finish_def)
  qed
qed

lemma reachable_grows:
  assumes "(write_step E W)\<^sup>*\<^sup>* a a'" and sink: "appends W sent" and wf: "archive_wf a"
  shows "grows sent a a'"
  using assms(1)
proof (induction rule: rtranclp_induct)
  case base
  then show ?case using wf by (rule grows_refl)
next
  case (step b c)
  have "grows sent b c"
    using write_step_grows [OF step.hyps(2) sink] step.IH by (simp add: grows_def)
  with step.IH show ?case by (rule grows_trans)
qed

section \<open>Properties of a run\<close>

text \<open>
  C10. Writing loses and reorders nothing: after any calls of a client in any order, over an
  object that may be pending, fail or accept only part at any time, the archive is well
  formed, and what was sent followed by what is buffered extends the stream before the run.
\<close>

theorem writing_only_appends:
  assumes "archive_wf a" and "appends W sent" and "(write_step E W)\<^sup>*\<^sup>* a a'"
  shows "archive_wf a' \<and> ar_capacity a' = ar_capacity a \<and>
    (\<exists>accepted. sent (ar_io a') @ ar_bytes a' = sent (ar_io a) @ ar_bytes a @ accepted)"
  using reachable_grows [OF assms(3,2,1)] by (simp add: grows_def written_def)

theorem writing_only_appends_witness:
  "\<exists>a'. add_entry (sample_cfg True) (chunk_writer 5 True) (sample_header 3)
      \<lparr>ar_buf = buf_new 512, ar_state = ExpectingHeader, ar_io = [1]\<rparr> =
        Some (Ok \<lparr>en_header = sample_header 3\<rparr>, a') \<and> archive_wf a' \<and>
    (\<exists>accepted. ar_io a' @ ar_bytes a' = [1] @ accepted)"
proof -
  let ?a = "\<lparr>ar_buf = buf_new 512, ar_state = ExpectingHeader, ar_io = [1] :: bytes\<rparr>"
  have wf: "archive_wf ?a" and empty: "ar_bytes ?a = []"
    by simp_all
  have valid: "valid_header (sample_cfg True) (sample_header 3) 3"
    using valid_sample_header [of True 3] by simp
  obtain a' where "poll_write_header (sample_cfg True) (chunk_writer 5 True) (sample_header 3) ?a =
      Some (Ok (), a')"
    by (rule write_header [OF wf chunk_writer_appends [of 5 True] chunk_writer_willing _ _ _
          valid_headerD(4) [OF valid]]) simp_all
  then have run: "add_entry (sample_cfg True) (chunk_writer 5 True) (sample_header 3) ?a =
      Some (Ok \<lparr>en_header = sample_header 3\<rparr>, a')"
    using valid_headerD(5) [OF valid] by (simp add: add_entry_def)
  then have "(write_step (sample_cfg True) (chunk_writer 5 True))\<^sup>*\<^sup>* ?a a'"
    using write_step.add_entry [OF _ run] by auto
  from writing_only_appends [OF wf chunk_writer_appends [of 5 True] this] run empty show ?thesis
    by auto
qed

end
