(* ===== verification/Writer_Calls.thy ===== *)
theory Writer_Calls
  imports Writer_Limits
begin

text \<open>
  What the result of a writing call tells the client (\<open>src/write/mod.rs\<close>): what a
  successful \<open>add_entry\<close> and a successful \<open>finish\<close> have put into the stream, over any
  object that appends what it accepts, and what a vectored write does on every input.
\<close>

section \<open>A successful call to finish\<close>

text \<open>How many zero bytes are missing at the end of the archive.\<close>

fun eof_left :: "state \<Rightarrow> usize option" where
  "eof_left ExpectingHeader = Some 1024"
| "eof_left (ReceivingHeader rem is_empty) = (if is_empty then Some (rem + 512) else None)"
| "eof_left (ReceivingEof rem) = Some rem"
| "eof_left ReceivedEof = Some 0"
| "eof_left _ = None"

text \<open>How many of them \<open>poll_finish\<close> offers to the object at once.\<close>

fun eof_piece :: "state \<Rightarrow> usize" where
  "eof_piece ExpectingHeader = 512"
| "eof_piece (ReceivingHeader rem _) = rem"
| "eof_piece (ReceivingEof rem) = rem"
| "eof_piece _ = 0"

lemma take_eof_zeros:
  assumes "eof_left s = Some left" and "s \<noteq> ReceivedEof" and "n \<le> eof_piece s"
  obtains s' where "take_until E s slices_stop (replicate n 0) h = Ok (s', n)"
    and "eof_left s' = Some (left - n)" and "n \<le> left"
proof (cases "n = 0")
  case True
  have "\<exists>s'. state_next E s [] h = Ok (s', 0) \<and> eof_left s' = Some left"
    using assms by (cases s) (auto simp: read_run_def advance_def split: if_splits)
  with True that show thesis by (auto simp: take_until_unfold)
next
  case False
  with assms that show thesis
    by (cases s)
      (auto simp: take_first_piece take_header_piece take_eof_piece split: if_splits)
qed

lemma write_zeros:
  assumes wf: "archive_wf a" and sink: "appends W sent"
    and left: "eof_left (ar_state a) = Some left" "ar_state a \<noteq> ReceivedEof"
    and n: "n = eof_piece (ar_state a)"
    and run: "poll_write_data E W (take n EMPTY_BLOCK) None a = (Ok k, a1)"
  shows "archive_wf a1" and "eof_left (ar_state a1) = Some (left - k)"
    and "written sent a1 @ replicate (left - k) 0 = written sent a @ replicate left 0"
proof -
  have "n \<le> 512"
    using wf n by (cases "ar_state a") (auto simp: archive_wf_def)
  then have buf: "take n EMPTY_BLOCK = replicate n 0" and len: "n \<le> usize_max"
    by (simp_all add: take_EMPTY_BLOCK block_le_usize_max)
  obtain st where "take_until E (ar_state a) slices_stop (replicate n 0) None = Ok (st, n)"
    and "n \<le> left"
    by (rule take_eof_zeros [OF left, of n]) (use n in auto)
  then have "write_outcome E sent (replicate n 0) None a (Ok k) a1"
    using write_vectored_spec [OF wf sink, where bufs = "[replicate n 0]" and m = n and h = None]
      run len by (simp add: buf poll_write_data_def take_slices_eq_take_until)
  note out = this [unfolded write_outcome_def take_slices_eq_take_until, simplified]
  then have "k \<le> n" by simp
  with out have k: "k \<le> n" "archive_wf a1" "written sent a1 = written sent a @ replicate k 0"
      "take_until E (ar_state a) slices_stop (replicate k 0) None = Ok (ar_state a1, k)"
    by (simp_all add: min_absorb1 [OF \<open>k \<le> n\<close>])
  show "archive_wf a1" by (rule k(2))
  show "eof_left (ar_state a1) = Some (left - k)"
    by (rule take_eof_zeros [OF left, of k E None]) (use k n in auto)
  show "written sent a1 @ replicate (left - k) 0 = written sent a @ replicate left 0"
    using k(1,3) \<open>n \<le> left\<close> by (simp flip: replicate_add)
qed

lemma poll_finish_Ok:
  assumes wf: "archive_wf a" and sink: "appends W sent"
    and left: "eof_left (ar_state a) = Some left"
    and run: "poll_finish E W a = Some (Ok (), a')"
  shows "archive_wf a' \<and> ar_state a' = ReceivedEof \<and> ar_bytes a' = [] \<and>
    sent (ar_io a') = written sent a @ replicate left 0"
proof -
  have "\<forall>left. archive_wf a \<longrightarrow> appends W sent \<longrightarrow> eof_left (ar_state a) = Some left \<longrightarrow>
      (\<forall>a'. y = (Ok (), a') \<longrightarrow> archive_wf a' \<and> ar_state a' = ReceivedEof \<and> ar_bytes a' = [] \<and>
        sent (ar_io a') = written sent a @ replicate left 0)" if "poll_finish E W a = Some y" for y
  proof (rule poll_finish.raw_induct [OF _ that], intro allI impI, goal_cases)
    case (1 f E W a y left a')
    note step = "1"(2) [unfolded "1"(6)] and wf = "1"(3) and sink = "1"(4) and left = "1"(5)
    have again: ?case
      if buf: "n = eof_piece (ar_state a)" "ar_state a \<noteq> ReceivedEof"
        and run: "loop_then (poll_write_data E W (take n EMPTY_BLOCK) None a) (\<lambda>_ b. f E W b) =
          Some (Ok (), a')" for n
    proof -
      from run obtain k a1 where k: "poll_write_data E W (take n EMPTY_BLOCK) None a = (Ok k, a1)"
        and rest: "f E W a1 = Some (Ok (), a')"
        by (auto simp: loop_then_eq_Ok)
      note a1 = write_zeros [OF wf sink left buf(2,1) k]
      with "1"(1) [OF rest] sink show ?thesis by simp
    qed
    show ?case
    proof (cases "ar_state a")
      case ExpectingHeader
      with step again [of 512] show ?thesis by simp
    next
      case (ReceivingHeader rem e)
      with wf have "rem \<le> 512" by (simp add: archive_wf_def)
      with step again [of rem] ReceivingHeader left show ?thesis
        by (simp add: slice_in_range split: if_splits)
    next
      case (ReceivingEof rem)
      with wf have "rem \<le> 512" by (simp add: archive_wf_def)
      with step again [of rem] ReceivingEof show ?thesis by (simp add: slice_in_range)
    next
      case ReceivedEof
      with step obtain a2 where a2: "poll_flush_buffered E W a = (Ok (), a2)"
        and "(case wr_poll_shutdown W (ar_io a2) of (r, io) \<Rightarrow> Some (r, a2\<lparr>ar_io := io\<rparr>)) =
          Some (Ok (), a')"
        by (auto simp: loop_then_eq_Ok)
      then obtain io where io: "wr_poll_shutdown W (ar_io a2) = (Ok (), io)" "a' = a2\<lparr>ar_io := io\<rparr>"
        by (cases "wr_poll_shutdown W (ar_io a2)") simp
      from flush_spec [OF wf sink a2] appendsD(8) [OF sink io(1)] io(2) ReceivedEof left show ?thesis
        by (auto simp: written_def archive_wf_def)
    qed (use left in simp_all)
  qed
  with assms show ?thesis by blast
qed

section \<open>A successful call to add\_entry\<close>

text \<open>
  The part of a header that is still to be written. The state remembers how much of a
  header was written and not which header it was.
\<close>

fun header_left :: "header \<Rightarrow> state \<Rightarrow> bytes option" where
  "header_left hdr ExpectingHeader = Some hdr"
| "header_left hdr (ReceivingHeader rem is_empty) =
     (if is_empty then None else Some (drop (512 - rem) hdr))"
| "header_left hdr ReceivedHeader = Some []"
| "header_left hdr _ = None"

lemma take_header_bytes:
  assumes "header_left hdr s = Some left" and "s \<noteq> ReceivedHeader"
    and "length hdr = 512" and "state_wf s" and "k \<le> length left" and "0 < k \<or> left = []"
  obtains s' where "take_until E s slices_stop (take k left) h = Ok (s', k)"
    and "\<And>left'. header_left hdr s' = Some left' \<Longrightarrow> take k left @ left' = left"
proof (cases "left = []")
  case True
  with assms have "s = ReceivingHeader 0 False"
    by (cases s) (auto split: if_splits)
  with True that [of ReceivedHeader] assms show thesis
    by (simp add: take_until_unfold read_run_def advance_def)
next
  case False
  with assms have k: "0 < k" by simp
  show thesis
  proof (cases s)
    case ExpectingHeader
    with assms(1,3,5) have left: "left = hdr" "k \<le> 512" by simp_all
    show thesis
      by (rule that) (use ExpectingHeader left k assms(3) in
          \<open>auto simp: take_first_piece min_absorb1 split: if_splits\<close>)
  next
    case (ReceivingHeader rem e)
    with assms have left: "left = drop (512 - rem) hdr" "\<not> e" "rem \<le> 512" "k \<le> rem"
      by (auto split: if_splits)
    have splice: "take k left @ drop (512 - (rem - k)) hdr = left"
    proof -
      have "512 - (rem - k) = k + (512 - rem)" using left(3,4) by simp
      then show ?thesis using left(1) by (simp flip: drop_drop)
    qed
    show thesis
    proof (rule that)
      show "take_until E s slices_stop (take k left) h =
          Ok (if k = rem then ReceivedHeader else ReceivingHeader (rem - k) False, k)"
        using ReceivingHeader left k assms(3) by (simp add: take_header_piece)
      fix left'
      assume "header_left hdr (if k = rem then ReceivedHeader else ReceivingHeader (rem - k) False) =
        Some left'"
      with splice left assms(3) show "take k left @ left' = left"
        by (auto split: if_splits)
    qed
  qed (use assms in simp_all)
qed

lemma write_header_bytes:
  assumes wf: "archive_wf a" and sink: "appends W sent" and hdr: "length hdr = 512"
    and left: "header_left hdr (ar_state a) = Some left" "ar_state a \<noteq> ReceivedHeader"
    and run: "poll_write_data E W left (Some hdr) a = (Ok k, a1)" "0 < k \<or> left = []"
  shows "archive_wf a1"
    and "header_left hdr (ar_state a1) = Some left' \<Longrightarrow>
      written sent a1 @ left' = written sent a @ left"
proof -
  have wf_st: "state_wf (ar_state a)" using wf by (simp add: archive_wf_def)
  have "length left \<le> 512"
    using left hdr by (cases "ar_state a") (auto split: if_splits)
  then have len: "length left \<le> usize_max" by (rule block_le_usize_max)
  obtain st where "take_until E (ar_state a) slices_stop left (Some hdr) = Ok (st, length left)"
    by (rule take_header_bytes [OF left hdr wf_st order_refl, of E "Some hdr"]) (cases left; simp)+
  then have "write_outcome E sent left (Some hdr) a (Ok k) a1"
    using write_vectored_spec [OF wf sink, where bufs = "[left]" and m = "length left" and h = "Some hdr"]
      run(1) len by (simp add: poll_write_data_def take_slices_eq_take_until)
  then have k: "k \<le> length left" "archive_wf a1" "written sent a1 = written sent a @ take k left"
      "take_until E (ar_state a) slices_stop (take k left) (Some hdr) = Ok (ar_state a1, k)"
    by (simp_all add: write_outcome_def take_slices_eq_take_until)
  show "archive_wf a1" by (rule k(2))
  assume left': "header_left hdr (ar_state a1) = Some left'"
  obtain s' where "take_until E (ar_state a) slices_stop (take k left) (Some hdr) = Ok (s', k)"
    and "\<And>l. header_left hdr s' = Some l \<Longrightarrow> take k left @ l = left"
    by (rule take_header_bytes [OF left hdr wf_st k(1) run(2), of E "Some hdr"]) (rule that)
  with k(3,4) left' show "written sent a1 @ left' = written sent a @ left"
    by simp
qed

lemma poll_write_header_Ok:
  assumes wf: "archive_wf a" and sink: "appends W sent" and hdr: "length hdr = 512"
    and run: "poll_write_header E W hdr a = Some (Ok (), a')"
  shows "archive_wf a' \<and> (\<exists>n left. hdr_entry_size E hdr = Inr n \<and> ar_state a' = ReceivingData n \<and>
    header_left hdr (ar_state a) = Some left \<and> written sent a' = written sent a @ left)"
proof -
  have "archive_wf a \<longrightarrow> appends W sent \<longrightarrow> length hdr = 512 \<longrightarrow>
      (\<forall>a'. y = (Ok (), a') \<longrightarrow> archive_wf a' \<and>
        (\<exists>n left. hdr_entry_size E hdr = Inr n \<and> ar_state a' = ReceivingData n \<and>
          header_left hdr (ar_state a) = Some left \<and> written sent a' = written sent a @ left))"
    if "poll_write_header E W hdr a = Some y" for y
  proof (rule poll_write_header.raw_induct [OF _ that], intro allI impI, goal_cases)
    case (1 f E W hdr a y a')
    note step = "1"(2) [unfolded "1"(6)] and wf = "1"(3) and sink = "1"(4) and hdr = "1"(5)
    have again: ?case
      if left: "header_left hdr (ar_state a) = Some left" "ar_state a \<noteq> ReceivedHeader"
        and k: "poll_write_data E W left (Some hdr) a = (Ok k, a1)" "0 < k \<or> left = []"
        and rest: "f E W hdr a1 = Some (Ok (), a')" for left k a1
    proof -
      note a1 = write_header_bytes [OF wf sink hdr left k]
      with "1"(1) [OF rest] sink hdr obtain n left1 where "archive_wf a'"
          "hdr_entry_size E hdr = Inr n" "ar_state a' = ReceivingData n"
          "header_left hdr (ar_state a1) = Some left1" "written sent a' = written sent a1 @ left1"
        by blast
      with a1(2) left(1) show ?thesis by simp
    qed
    show ?case
    proof (cases "ar_state a")
      case ExpectingHeader
      with step obtain k a1 where "poll_write_data E W hdr (Some hdr) a = (Ok k, a1)" "0 < k"
          "f E W hdr a1 = Some (Ok (), a')"
        by (auto simp: loop_then_eq_Ok split: if_splits)
      with again [of hdr k a1] ExpectingHeader show ?thesis by simp
    next
      case (ReceivingHeader rem e)
      with wf have rem: "rem \<le> 512" by (simp add: archive_wf_def)
      show ?thesis
      proof (cases e)
        case False
        with step ReceivingHeader rem hdr obtain k a1
          where k: "poll_write_data E W (drop (512 - rem) hdr) (Some hdr) a = (Ok k, a1)"
            "f E W hdr a1 = Some (Ok (), a')" "\<not> (k = 0 \<and> 0 < rem)"
          by (auto simp: loop_then_eq_Ok usize_sub_def slice_in_range split: if_splits)
        then have "0 < k \<or> drop (512 - rem) hdr = []" using hdr by auto
        with again [of "drop (512 - rem) hdr" k a1] k ReceivingHeader False show ?thesis by simp
      qed (use step ReceivingHeader in auto)
    next
      case ReceivedHeader
      with step obtain n where "hdr_entry_size E hdr = Inr n" "a' = a\<lparr>ar_state := ReceivingData n\<rparr>"
        by (auto simp: archive_take_marker_def take_marker_def entry_size_of_def bind_outcome_eq_Ok
            split: outcome.splits)
      with ReceivedHeader wf show ?thesis by (simp add: archive_wf_def written_def)
    qed (use step in auto)
  qed
  with assms show ?thesis by blast
qed

section \<open>Properties of the calls\<close>

text \<open>
  C15. A successful \<open>add_entry\<close> hands out an entry whose sizes can be read, leaves the
  archive at the start of its data, and has written what was missing of the header. Where a
  previous \<open>add_entry\<close> was left in the middle of its header, only the tail of the new header
  is written: the stream has the front of the one and the tail of the other.
\<close>

theorem add_entry_sound:
  assumes "archive_wf a" and "appends W sent" and "length hdr = 512"
    and "add_entry E W hdr a = Some (Ok en, a')"
  shows "\<exists>n size left. en = \<lparr>en_header = hdr\<rparr> \<and> entry_len E en = Ok n \<and> entry_size E en = Ok size \<and>
    ar_state a' = ReceivingData n \<and> archive_wf a' \<and> written sent a' = written sent a @ left \<and>
    (ar_state a = ExpectingHeader \<and> left = hdr \<or>
     (\<exists>rem. ar_state a = ReceivingHeader rem False \<and> left = drop (512 - rem) hdr) \<or>
     ar_state a = ReceivedHeader \<and> left = [])"
proof -
  from assms(4) have run: "poll_write_header E W hdr a = Some (Ok (), a')"
    and en: "entry_new E hdr = Ok en"
    by (auto simp: add_entry_def loop_then_eq_Ok bind_eq_Some_conv)
  from poll_write_header_Ok [OF assms(1-3) run] obtain n left
    where "hdr_entry_size E hdr = Inr n" "ar_state a' = ReceivingData n" "archive_wf a'"
      and left: "header_left hdr (ar_state a) = Some left" "written sent a' = written sent a @ left"
    by blast
  moreover from left(1) have "ar_state a = ExpectingHeader \<and> left = hdr \<or>
     (\<exists>rem. ar_state a = ReceivingHeader rem False \<and> left = drop (512 - rem) hdr) \<or>
     ar_state a = ReceivedHeader \<and> left = []"
    by (cases "ar_state a") (auto split: if_splits)
  ultimately show ?thesis
    using en by (auto simp: entry_new_Ok entry_len_def entry_size_def)
qed

theorem add_entry_sound_witness:
  "\<exists>a' n size left. add_entry (sample_cfg True) (chunk_writer 5 True) (sample_header 3)
      \<lparr>ar_buf = buf_new 512, ar_state = ReceivingHeader 400 False, ar_io = [1]\<rparr> =
        Some (Ok \<lparr>en_header = sample_header 3\<rparr>, a') \<and>
    entry_len (sample_cfg True) \<lparr>en_header = sample_header 3\<rparr> = Ok n \<and>
    entry_size (sample_cfg True) \<lparr>en_header = sample_header 3\<rparr> = Ok size \<and>
    written (\<lambda>w. w) a' = [1] @ left \<and> left = drop 112 (sample_header 3)"
proof -
  let ?a = "\<lparr>ar_buf = buf_new 512, ar_state = ReceivingHeader 400 False, ar_io = [1]\<rparr>"
  have wf: "archive_wf ?a"
    by simp
  have hdr: "valid_header (sample_cfg True) (sample_header 3) 3"
    using valid_sample_header [of True 3] by simp
  obtain a' where "poll_write_header (sample_cfg True) (chunk_writer 5 True) (sample_header 3) ?a =
      Some (Ok (), a')"
    by (rule write_header_rest [OF wf chunk_writer_appends chunk_writer_willing [of 5 True],
          of "sample_header 3" 400 "sample_cfg True" 3]) (use valid_headerD [OF hdr] in simp_all)
  then have "add_entry (sample_cfg True) (chunk_writer 5 True) (sample_header 3) ?a =
      Some (Ok \<lparr>en_header = sample_header 3\<rparr>, a')"
    using valid_headerD(5) [OF hdr] by (simp add: add_entry_def)
  with add_entry_sound [OF wf chunk_writer_appends _ this] show ?thesis
    by (auto simp: written_def)
qed

text \<open>
  C16. A successful \<open>finish\<close> from between two entries has sent everything: over any object that
  appends what it accepts, what was written before is followed by exactly the 1024 zero
  bytes of the two empty blocks, nothing is left in the buffer, adding an entry to the finished
  archive panics, and finishing it again sends nothing.
\<close>

theorem finish_sound:
  assumes "archive_wf a" and "appends W sent" and "ar_state a = ExpectingHeader"
    and "archive_finish E W a = Some (Ok (), a')"
  shows "sent (into_inner a') = written sent a @ make_eof_data \<and> ar_bytes a' = [] \<and>
    add_entry E W hdr a' = Some (Panic ExplicitPanic, a') \<and>
    (\<exists>r a''. archive_finish E W a' = Some (r, a'') \<and> sent (into_inner a'') = sent (into_inner a'))"
proof -
  have closed: "archive_wf a'" "ar_state a' = ReceivedEof" "ar_bytes a' = []"
      "sent (ar_io a') = written sent a @ make_eof_data"
    using poll_finish_Ok [OF assms(1,2), of 1024] assms(3,4)
    by (auto simp: archive_finish_def make_eof_data_def)
  obtain b where b: "poll_flush_buffered E W a' = (Ok (), a'\<lparr>ar_buf := b\<rparr>)"
    by (rule poll_flush_buffered_empty [OF closed(1,3)])
  obtain r io where io: "wr_poll_shutdown W (ar_io a') = (r, io)"
    by (cases "wr_poll_shutdown W (ar_io a')")
  have "archive_finish E W a' = Some (r, a'\<lparr>ar_buf := b, ar_io := io\<rparr>)"
    using closed(2) b io by (simp add: archive_finish_def poll_finish.simps [of E W a'])
  moreover have "add_entry E W hdr a' = Some (Panic ExplicitPanic, a')"
    using closed(2) by (simp add: add_entry_def poll_write_header.simps [of E W hdr a'])
  ultimately show ?thesis
    using closed(3,4) appendsD(8) [OF assms(2) io] by (simp add: into_inner_def)
qed

theorem finish_sound_witness:
  "\<exists>a'. archive_finish (sample_cfg True) (chunk_writer 5 True)
      \<lparr>ar_buf = buf_new 512, ar_state = ExpectingHeader, ar_io = [1]\<rparr> = Some (Ok (), a') \<and>
    into_inner a' = [1] @ make_eof_data \<and>
    add_entry (sample_cfg True) (chunk_writer 5 True) (sample_header 3) a' =
      Some (Panic ExplicitPanic, a')"
proof -
  let ?a = "\<lparr>ar_buf = buf_new 512, ar_state = ExpectingHeader, ar_io = [1]\<rparr>"
  have wf: "archive_wf ?a"
    by simp
  obtain a' where a': "poll_finish (sample_cfg True) (chunk_writer 5 True) ?a = Some (Ok (), a')"
    by (rule finish_archive [OF wf chunk_writer_appends chunk_writer_willing [of 5]]) simp_all
  then have "archive_finish (sample_cfg True) (chunk_writer 5 True) ?a = Some (Ok (), a')"
    by (simp add: archive_finish_def)
  with finish_sound [OF wf chunk_writer_appends _ this] show ?thesis
    by (auto simp: written_def)
qed

text \<open>
  C19. A vectored write of no more than the missing bytes, over an object that is always ready and
  accepts at least one byte of what it is offered: whatever the slices, a part of
  their concatenation is accepted, at least one byte when there is one; the write that
  accepts the last missing byte completes the entry with its padding, so an entry without
  data is completed by a write without bytes.
\<close>

theorem entry_write_vectored_correct:
  assumes "archive_wf a" and "appends W sent" and "willing W"
    and "ar_state a = ReceivingData rem" and "length (concat bufs) \<le> unat rem"
    and "hdr_entry_size E (en_header en) = Inr n" and "\<not> debug_assertions E \<or> unat n + 511 < 2 ^ 64"
  shows "\<exists>k a'. entry_poll_write_vectored E W en bufs a = Some (Ok k, a') \<and> archive_wf a' \<and>
    k \<le> length (concat bufs) \<and> (concat bufs \<noteq> [] \<longrightarrow> 0 < k) \<and>
    (if k = unat rem
     then ar_state a' = ExpectingHeader \<and>
       written sent a' = written sent a @ concat bufs @ replicate (padding 512 (unat n)) 0
     else ar_state a' = ReceivingData (rem - word_of_nat k) \<and>
       written sent a' = written sent a @ take k (concat bufs))"
proof (rule entry_write_slices [OF assms(1-4,6,7), where bufs = bufs], goal_cases)
  case (1 k a')
  have "bytes_len bufs = length (concat bufs)"
    using assms(5) unat_le_usize_max [of rem] by (simp add: bytes_len_eq)
  moreover have "concat bufs \<noteq> [] \<Longrightarrow> 0 < k"
    using 1(3) assms(5) by (cases "concat bufs") auto
  ultimately show ?thesis
    using 1 assms(5) by (intro exI [of _ k] exI [of _ a']) (auto split: if_splits)
qed

theorem entry_write_vectored_correct_witness:
  "\<exists>k a'. entry_poll_write_vectored (sample_cfg True) (chunk_writer 2 True)
      \<lparr>en_header = sample_header 0\<rparr> [[], []]
      \<lparr>ar_buf = buf_new 512, ar_state = ReceivingData 0, ar_io = [5]\<rparr> = Some (Ok k, a') \<and>
    ar_state a' = ExpectingHeader \<and> written (\<lambda>w. w) a' = [5]"
proof -
  let ?a = "\<lparr>ar_buf = buf_new 512, ar_state = ReceivingData 0, ar_io = [5]\<rparr>"
  have wf: "archive_wf ?a"
    by simp
  from entry_write_vectored_correct [OF wf chunk_writer_appends chunk_writer_willing [of 2 True],
      of 0 "[[], []]" "sample_cfg True" "\<lparr>en_header = sample_header 0\<rparr>" 0]
  show ?thesis
    by (auto simp: written_def padding_def)
qed

text \<open>
  C32. A vectored write of more than the missing bytes, over an object that is always ready and
  accepts at least one byte of what it is offered: without debug assertions it is a short write of
  at most the missing bytes, as \<open>AsyncWrite\<close> has it; with them the same write, once it has
  put the last missing byte into the stream, panics.
\<close>

theorem overlong_write:
  assumes "archive_wf a" and "appends W sent" and "willing W"
    and "ar_state a = ReceivingData rem" and "0 < unat rem" and "unat rem < length (concat bufs)"
    and "length (concat bufs) \<le> usize_max"
    and "hdr_entry_size E (en_header en) = Inr n" and "\<not> debug_assertions E \<or> unat n + 511 < 2 ^ 64"
  shows "\<exists>k a'. 0 < k \<and> k \<le> unat rem \<and>
    entry_poll_write_vectored E W en bufs a =
      Some (if k = unat rem \<and> debug_assertions E then Panic AssertFailed else Ok k, a') \<and>
    written sent a' = written sent a @ take k (concat bufs) @
      (if k = unat rem \<and> \<not> debug_assertions E then replicate (padding 512 (unat n)) 0 else [])"
proof (rule entry_write_slices [OF assms(1-4,8,9), where bufs = bufs], goal_cases)
  case (1 k a')
  have "bytes_len bufs \<noteq> k"
    using 1(1) assms(6,7) by (simp add: bytes_len_eq)
  moreover have "0 < k"
    using 1(3) assms(5,6) by (cases "concat bufs") auto
  ultimately show ?thesis
    using 1 by (intro exI [of _ k] exI [of _ a']) (auto split: if_splits)
qed

theorem overlong_write_witness:
  "\<exists>a'. entry_poll_write_vectored (sample_cfg True) (chunk_writer 2 True)
      \<lparr>en_header = sample_header 1\<rparr> [[7, 8], [9]]
      \<lparr>ar_buf = buf_new 512, ar_state = ReceivingData 1, ar_io = [5]\<rparr> =
        Some (Panic AssertFailed, a') \<and>
    written (\<lambda>w. w) a' = [5, 7]"
proof -
  let ?a = "\<lparr>ar_buf = buf_new 512, ar_state = ReceivingData 1, ar_io = [5]\<rparr>"
  have wf: "archive_wf ?a"
    by simp
  obtain k a' where "0 < k" "k \<le> unat (1 :: u64)"
      "entry_poll_write_vectored (sample_cfg True) (chunk_writer 2 True)
        \<lparr>en_header = sample_header 1\<rparr> [[7, 8], [9]] ?a =
        Some (if k = unat (1 :: u64) \<and> debug_assertions (sample_cfg True)
          then Panic AssertFailed else Ok k, a')"
      "written (\<lambda>w. w) a' = written (\<lambda>w. w) ?a @ take k (concat [[7, 8], [9]]) @
        (if k = unat (1 :: u64) \<and> \<not> debug_assertions (sample_cfg True)
          then replicate (padding 512 (unat (1 :: u64))) 0 else [])"
    using overlong_write [OF wf chunk_writer_appends chunk_writer_willing [of 2 True],
        of 1 "[[7, 8], [9]]" "sample_cfg True" "\<lparr>en_header = sample_header 1\<rparr>" 1]
    by (auto simp: usize_max_def usize_bits_def)
  moreover from this(1,2) have "k = 1" by simp
  ultimately show ?thesis
    by (auto simp: written_def)
qed

end
