(* ===== verification/Writing_Layout.thy ===== *)
theory Writing_Layout
  imports Positions Writing_Safety Writer_Calls
begin

text \<open>
  What writing puts into the stream (\<open>src/write/mod.rs\<close>): whatever a client does with the
  handles it is given, over an object that may be pending, fail or accept only part, the bytes
  sent and buffered are the entries of the client, in the layout of an archive, and the state
  is the position in it.
\<close>

section \<open>One transition for a write\<close>

text \<open>A write never goes beyond what the state stands for.\<close>

fun fits_in :: "state \<Rightarrow> bytes \<Rightarrow> bool" where
  "fits_in ExpectingHeader buf \<longleftrightarrow> length buf \<le> 512"
| "fits_in (ReceivingHeader rem e) buf \<longleftrightarrow> length buf \<le> rem"
| "fits_in (ReceivingData rem) buf \<longleftrightarrow> length buf \<le> unat rem"
| "fits_in (AligningData rem) buf \<longleftrightarrow> length buf \<le> rem"
| "fits_in (ReceivingEof rem) buf \<longleftrightarrow> length buf \<le> rem"
| "fits_in _ buf \<longleftrightarrow> False"

definition entered :: "state \<Rightarrow> state" where
  "entered s = (if s = ExpectingHeader then ReceivingHeader 512 True else s)"

lemma fits_in_take: "fits_in s buf \<Longrightarrow> fits_in s (take n buf)"
  by (cases s) auto

lemma state_next_fits:
  "fits_in s buf \<Longrightarrow> state_next E (entered s) buf h = Ok (s', n) \<Longrightarrow> n = length buf"
  by (cases s) (auto simp: entered_def Let_def read_run_def advance_def next_receiving_data_def
      split: if_splits)

lemma take_until_fits:
  assumes fits: "fits_in s buf"
  shows "take_until E s slices_stop buf h = state_next E (entered s) buf h"
proof -
  have at_once: "take_until E s' slices_stop buf h = state_next E s' buf h"
    if "entered s' = s'" "fits_in s' buf" for s'
    using state_next_fits [OF that(2), of E h] that(1)
    by (cases "state_next E s' buf h") (auto simp: take_until_unfold [of E s'])
  show ?thesis
  proof (cases "s = ExpectingHeader")
    case True
    show ?thesis
    proof (cases "buf = []")
      case False
      with True have "take_until E s slices_stop buf h =
          take_until E (ReceivingHeader 512 True) slices_stop buf h"
        using take_until_skip [of E ExpectingHeader buf h "ReceivingHeader 512 True" 0 slices_stop]
        by (simp add: slices_stop_def)
      with True fits at_once [of "ReceivingHeader 512 True"] show ?thesis
        by (simp add: entered_def)
    qed (use True in \<open>simp add: take_until_unfold [of E ExpectingHeader] entered_def read_run_def\<close>)
  qed (use at_once [of s] fits in \<open>simp add: entered_def\<close>)
qed

section \<open>The invariant\<close>

text \<open>
  The header of an entry may have been written in part, when a call that adds an entry was
  interrupted; \<open>pending\<close> is the header of the last such call.
\<close>

fun header_missing :: "state \<Rightarrow> usize option" where
  "header_missing (ReceivingHeader rem e) = (if e then None else Some rem)"
| "header_missing ReceivedHeader = Some 0"
| "header_missing _ = None"

definition begun :: "header option \<Rightarrow> bytes \<Rightarrow> state \<Rightarrow> bool" where
  "begun pending bs s \<longleftrightarrow> (\<forall>k. header_missing s = Some k \<longrightarrow>
     (\<exists>hdr bs'. pending = Some hdr \<and> length hdr = 512 \<and> bs = bs' @ take (512 - k) hdr))"

text \<open>The stream that the archive has extended stands at a position of the layout.\<close>

definition stands ::
  "cfg \<Rightarrow> ('w \<Rightarrow> bytes) \<Rightarrow> bytes \<Rightarrow> header list \<Rightarrow> header option \<Rightarrow> 'w archive \<Rightarrow> bool" where
  "stands E sent before hs pending a \<longleftrightarrow> archive_wf a \<and>
     (\<exists>bs. written sent a = before @ bs \<and> position E True hs bs (ar_state a) \<and>
       begun pending bs (ar_state a))"

lemma stands_wf: "stands E sent before hs pending a \<Longrightarrow> archive_wf a"
  by (simp add: stands_def)

lemma begun_none: "header_missing s = None \<Longrightarrow> begun pending bs s"
  by (simp add: begun_def)

lemma stands_same:
  assumes "stands E sent before hs pending a" and "archive_wf a'"
    and "written sent a' = written sent a" and "ar_state a' = ar_state a"
  shows "stands E sent before hs pending a'"
  using assms by (simp add: stands_def)

lemma stands_pending:
  "stands E sent before hs pending a \<Longrightarrow> (header_missing (ar_state a) \<noteq> None \<Longrightarrow> pending = pending') \<Longrightarrow>
    stands E sent before hs pending' a"
  by (cases "header_missing (ar_state a)") (auto simp: stands_def begun_none)

section \<open>A write\<close>

lemma no_padding_take: "no_padding s buf \<Longrightarrow> no_padding s (take n buf)"
  by (cases s) (simp_all add: no_padding_def)

lemma write_position:
  assumes wf: "archive_wf a" and pos: "position E True hs bs (ar_state a)"
    and len: "length (take m (concat bufs)) \<le> usize_max" and sink: "appends W sent"
    and fits: "fits_in (ar_state a) (take m (concat bufs))"
    and hdr: "header_fits hs bs (ar_state a) h"
    and zero: "all_zero (take m (concat bufs)) \<or> no_padding (ar_state a) (take m (concat bufs))"
    and run: "poll_write_vectored E W bufs m h a = (r, a')" and ok: "\<not> panicked r"
  obtains n where "archive_wf a'" and "n \<le> length (take m (concat bufs))"
    and "written sent a' = written sent a @ take n (take m (concat bufs))"
    and "position E True hs (bs @ take n (take m (concat bufs))) (ar_state a')"
    and "ar_state a' = ar_state a \<and> n = 0 \<or>
      state_next E (entered (ar_state a)) (take n (take m (concat bufs))) h = Ok (ar_state a', n)"
proof -
  define data where "data = take m (concat bufs)"
  have outcome: "write_outcome E sent data h a r a'"
    unfolding data_def by (rule write_vectored_outcome [OF wf sink len run ok])
  then have wf': "archive_wf a'" by (simp add: write_outcome_def)
  show thesis
  proof (cases "\<exists>n. r = Ok n")
    case False
    then have "written sent a' = written sent a" "ar_state a' = ar_state a"
      using outcome by (auto simp: write_outcome_def split: outcome.splits)
    with that [of 0] wf' pos show thesis by simp
  next
    case True
    then obtain n where Ok: "r = Ok n" ..
    have n: "n \<le> length data" "written sent a' = written sent a @ take n data"
        "take_slices E (ar_state a) [take n data] h = Ok (ar_state a', n)"
      using outcome Ok by (simp_all add: write_outcome_def)
    have "all_zero (take n data) \<or> no_padding (ar_state a) (take n data)"
      using zero [folded data_def] all_zero_take no_padding_take by blast
    then have "bytes_fit True (ar_state a) (concat [take n data])"
      by (simp add: bytes_fit_def)
    from position_take_slices [OF n(3) pos hdr this]
    have "position E True hs (bs @ take n data) (ar_state a')"
      using fits by (cases "ar_state a") (auto simp: headers_after_def)
    moreover have "state_next E (entered (ar_state a)) (take n data) h = Ok (ar_state a', n)"
      using n(3) take_until_fits [OF fits_in_take [OF fits [folded data_def]]]
      by (simp add: take_slices_eq_take_until)
    ultimately show thesis
      using that [of n] n(1,2) wf' unfolding data_def by blast
  qed
qed

text \<open>Data, and the zeros of the padding and of the end of the archive.\<close>

lemma header_missing_next:
  assumes "state_next E (entered s) buf h = Ok (s', n)" and "fits_in s buf"
    and "header_missing s = None"
    and "all_zero buf \<or> (\<exists>rem. s = ReceivingData rem)"
  shows "header_missing s' = None"
  using assms
  by (cases s) (auto simp: entered_def Let_def read_run_def advance_def next_receiving_data_def
      split: if_splits)

lemma write_stands:
  assumes stands: "stands E sent before hs pending a" and sink: "appends W sent"
    and len: "length (take m (concat bufs)) \<le> usize_max"
    and fits: "fits_in (ar_state a) (take m (concat bufs))"
    and hdr: "header_fits hs [] (ar_state a) h"
    and kind: "all_zero (take m (concat bufs)) \<or> (\<exists>rem. ar_state a = ReceivingData rem)"
    and calm: "header_missing (ar_state a) = None"
  shows "ends_in (stands E sent before hs pending) (poll_write_vectored E W bufs m h a)"
proof -
  obtain r a' where run: "poll_write_vectored E W bufs m h a = (r, a')" by fastforce
  obtain bs where bs: "written sent a = before @ bs" "position E True hs bs (ar_state a)"
    using stands by (auto simp: stands_def)
  have hdr': "header_fits hs bs (ar_state a) h"
    using hdr fits by (cases "ar_state a"; cases h) auto
  have zero: "all_zero (take m (concat bufs)) \<or> no_padding (ar_state a) (take m (concat bufs))"
    using kind fits by (auto simp: no_padding_def)
  have "stands E sent before hs pending a'" if ok: "\<not> panicked r"
  proof (rule write_position [OF stands_wf [OF stands] bs(2) len sink fits hdr' zero run ok])
    fix n
    assume n: "written sent a' = written sent a @ take n (take m (concat bufs))"
      "position E True hs (bs @ take n (take m (concat bufs))) (ar_state a')" "archive_wf a'"
      "ar_state a' = ar_state a \<and> n = 0 \<or>
        state_next E (entered (ar_state a)) (take n (take m (concat bufs))) h = Ok (ar_state a', n)"
    have "all_zero (take n (take m (concat bufs))) \<or> (\<exists>rem. ar_state a = ReceivingData rem)"
      using kind all_zero_take by blast
    from n(4) header_missing_next [OF _ fits_in_take [OF fits] calm this]
    have "header_missing (ar_state a') = None" using calm by auto
    then show ?thesis
      using n(1-3) bs(1) unfolding stands_def by (auto intro: begun_none)
  qed
  then show ?thesis using run by (auto simp: ends_in_def)
qed

lemma write_data_stands:
  assumes "stands E sent before hs pending a" and "appends W sent" and "length buf \<le> 512"
    and "fits_in (ar_state a) buf" and "header_fits hs [] (ar_state a) h" and "all_zero buf"
    and "header_missing (ar_state a) = None"
  shows "ends_in (stands E sent before hs pending) (poll_write_data E W buf h a)"
  unfolding poll_write_data_def
  by (rule write_stands [OF assms(1,2)]) (use assms(3-) block_le_usize_max in simp_all)

section \<open>The operations of the archive\<close>

lemma poll_flush_buffered_stands:
  assumes stands: "stands E sent before hs pending a" and sink: "appends W sent"
  shows "ends_in (stands E sent before hs pending) (poll_flush_buffered E W a)"
proof -
  obtain r a' where run: "poll_flush_buffered E W a = (r, a')" by fastforce
  with flush_spec(1-3) [OF stands_wf [OF stands] sink run] stands_same [OF stands] show ?thesis
    by (auto simp: ends_in_def)
qed

lemma stands_io:
  assumes "stands E sent before hs pending a" and "sent io = sent (ar_io a)"
  shows "stands E sent before hs pending (a\<lparr>ar_io := io\<rparr>)"
  by (rule stands_same [OF assms(1)])
    (use assms(2) stands_wf [OF assms(1)] in \<open>simp_all add: archive_wf_def written_def\<close>)

text \<open>A marker takes the archive to the next state, and no bytes.\<close>

lemma take_marker_position:
  assumes run: "archive_take_marker E h a = (r, a')" and ok: "\<not> panicked r"
    and wf: "archive_wf a" and pos: "position E True hs bs (ar_state a)"
    and hdr: "header_fits hs bs (ar_state a) h"
  shows "archive_wf a'" and "written sent a' = written sent a"
    and "if r = Ok () then
        position E True (headers_after hs (ar_state a) h) bs (ar_state a') \<and>
        (\<exists>n. state_next E (ar_state a) [] h = Ok (ar_state a', n))
      else ar_state a' = ar_state a"
proof -
  have marker: "is_marker (ar_state a)"
    using run ok by (cases "is_marker (ar_state a)")
      (auto simp: archive_take_marker_def take_marker_def)
  show "archive_wf a'"
    using archive_take_marker_appending [OF wf, of sent E h] run ok by (simp add: ends_in_def grows_def)
  show "written sent a' = written sent a"
    using run by (auto simp: archive_take_marker_def written_def split: prod.splits)
  show "if r = Ok () then
        position E True (headers_after hs (ar_state a) h) bs (ar_state a') \<and>
        (\<exists>n. state_next E (ar_state a) [] h = Ok (ar_state a', n))
      else ar_state a' = ar_state a"
  proof (cases "state_next E (ar_state a) [] h")
    case (Ok t)
    then obtain st n where st: "state_next E (ar_state a) [] h = Ok (st, n)" by (cases t) auto
    have "padding_fits True (ar_state a) []" by (simp add: padding_fits_def pad_bytes_def)
    from position_step [OF pos st hdr this] state_next_le [OF st] run ok marker st show ?thesis
      by (auto simp: archive_take_marker_def take_marker_def)
  qed (use run marker in \<open>auto simp: archive_take_marker_def take_marker_def\<close>)
qed

lemma take_marker_stands:
  assumes stands: "stands E sent before hs pending a"
    and kind: "ar_state a = ReceivedData \<and> h = Some (last hs) \<or> ar_state a = AlignedData \<and> h = None"
  shows "ends_in (stands E sent before hs pending) (archive_take_marker E h a)"
proof -
  obtain r a' where run: "archive_take_marker E h a = (r, a')" by fastforce
  obtain bs where bs: "written sent a = before @ bs" "position E True hs bs (ar_state a)"
    using stands by (auto simp: stands_def)
  have hdr: "header_fits hs bs (ar_state a) h" using kind by auto
  have "stands E sent before hs pending a'" if "\<not> panicked r"
  proof (cases "r = Ok ()")
    case True
    note after = take_marker_position [OF run that stands_wf [OF stands] bs(2) hdr]
    then have "header_missing (ar_state a') = None"
      using True kind by (auto simp: bind_outcome_eq_Ok) (metis header_missing.simps)+
    moreover have "headers_after hs (ar_state a) h = hs" using kind by (auto simp: headers_after_def)
    ultimately show ?thesis
      using after(1) after(2) [of sent] after(3) True bs(1) unfolding stands_def
      by (auto intro: begun_none)
  next
    case False
    with take_marker_position [OF run that stands_wf [OF stands] bs(2) hdr] stands_same [OF stands]
    show ?thesis by auto
  qed
  then show ?thesis using run by (auto simp: ends_in_def)
qed

section \<open>The loops\<close>

text \<open>Standing at a position of the layout is an invariant of the writer's loops.\<close>

definition standing ::
  "cfg \<Rightarrow> 'w writer \<Rightarrow> ('w \<Rightarrow> bytes) \<Rightarrow> bytes \<Rightarrow> header list \<Rightarrow> header option \<Rightarrow> 'w archive \<Rightarrow> bool"
  where
  "standing E W sent before hs pending a \<longleftrightarrow> appends W sent \<and> stands E sent before hs pending a"

lemma standing_step:
  assumes "standing E W sent before hs pending a"
    and "stands E sent before hs pending a \<Longrightarrow> appends W sent \<Longrightarrow>
      ends_in (stands E sent before hs pending) m"
  shows "ends_in (standing E W sent before hs pending) m"
  using assms by (auto simp: standing_def ends_in_def)

lemma zeros_due_fits:
  "zeros_due s n \<Longrightarrow> n \<le> 512 \<Longrightarrow>
    fits_in s (take n EMPTY_BLOCK) \<and> header_fits hs [] s h \<and> header_missing s = None"
  by (cases s) (auto simp: take_EMPTY_BLOCK)

interpretation standing: entry_invariant E W "standing E W sent before hs pending" "last hs"
  for E W sent before hs pending
proof (unfold_locales, goal_cases)
  case (1 a)
  then show ?case by (rule standing_step) (rule poll_flush_buffered_stands)
next
  case (2 a)
  then show ?case
    using appendsD(7) [OF _ prod.collapse [symmetric]] by (auto simp: standing_def intro!: stands_io)
next
  case (3 a)
  then show ?case
    using appendsD(8) [OF _ prod.collapse [symmetric]] by (auto simp: standing_def intro!: stands_io)
next
  case (4 a)
  then show ?case using stands_wf by (auto simp: standing_def)
next
  case (5 a n h)
  then have "n \<le> 512" using zeros_due_le [OF stands_wf] by (auto simp: standing_def)
  note zeros_due_fits [OF 5(2) this, of hs h]
  with 5(1) show ?case
    by (rule_tac standing_step) (auto intro!: write_data_stands simp: take_EMPTY_BLOCK)
next
  case (6 a h)
  then show ?case by (rule_tac standing_step) (auto intro: take_marker_stands)
next
  case (7 a rem bufs)
  then show ?case
    by (rule_tac standing_step)
      (use unat_le_usize_max [of rem] in \<open>auto intro!: write_stands\<close>)
qed

section \<open>Writing a header\<close>

lemma header_missing_piece:
  assumes "s = ExpectingHeader \<and> rem = 512 \<or> s = ReceivingHeader rem False"
    and "state_next E (entered s) buf h = Ok (s', n)" and "length buf = n" and "n \<le> rem"
    and "rem \<le> 512" and "header_missing s' = Some k"
  shows "512 - k = 512 - rem + n"
  using assms by (auto simp: entered_def Let_def read_run_def advance_def split: if_splits)

text \<open>A piece of the header: it continues what has been written of the header.\<close>

lemma write_header_stands:
  assumes stands: "stands E sent before hs (Some hdr) a" and sink: "appends W sent"
    and len: "length hdr = 512"
    and state: "ar_state a = ExpectingHeader \<and> rem = 512 \<or> ar_state a = ReceivingHeader rem False"
  shows "ends_in (stands E sent before hs (Some hdr))
    (poll_write_data E W (drop (512 - rem) hdr) (Some hdr) a)"
proof -
  let ?data = "drop (512 - rem) hdr"
  obtain r a' where run: "poll_write_data E W ?data (Some hdr) a = (r, a')" by fastforce
  obtain bs where bs: "written sent a = before @ bs" "position E True hs bs (ar_state a)"
      "begun (Some hdr) bs (ar_state a)"
    using stands by (auto simp: stands_def)
  have rem: "rem \<le> 512" using state state_block_le(1) [OF stands_wf [OF stands]] by auto
  obtain bs' where bs': "bs = bs' @ take (512 - rem) hdr"
    using bs(3) state by (auto simp: begun_def)
  have whole: "take (length ?data) (concat [?data]) = ?data" by simp
  have "stands E sent before hs (Some hdr) a'" if ok: "\<not> panicked r"
  proof (rule write_position [OF stands_wf [OF stands] bs(2) _ sink _ _ _
        run [unfolded poll_write_data_def] ok, unfolded whole])
    show "length ?data \<le> usize_max" using len by (intro block_le_usize_max) simp
    show "fits_in (ar_state a) ?data" using state len by auto
    show "header_fits hs bs (ar_state a) (Some hdr)" using state by auto
    show "all_zero ?data \<or> no_padding (ar_state a) ?data" using state by (auto simp: no_padding_def)
    fix n
    assume n: "archive_wf a'" "n \<le> length ?data" "written sent a' = written sent a @ take n ?data"
      "position E True hs (bs @ take n ?data) (ar_state a')"
      "ar_state a' = ar_state a \<and> n = 0 \<or>
        state_next E (entered (ar_state a)) (take n ?data) (Some hdr) = Ok (ar_state a', n)"
    have "bs @ take n ?data = bs' @ take (512 - rem + n) hdr"
      using bs' by (simp add: take_add)
    moreover have "512 - k = 512 - rem + n" if missing: "header_missing (ar_state a') = Some k" for k
      using n(5)
    proof
      assume "ar_state a' = ar_state a \<and> n = 0"
      then show ?thesis using state missing by auto
    next
      assume "state_next E (entered (ar_state a)) (take n ?data) (Some hdr) = Ok (ar_state a', n)"
      from header_missing_piece [OF state this _ _ rem missing] show ?thesis
        using n(2) len rem by simp
    qed
    ultimately have "begun (Some hdr) (bs @ take n ?data) (ar_state a')"
      using len by (auto simp: begun_def)
    then show ?thesis using n(1,3,4) bs(1) by (auto simp: stands_def)
  qed
  then show ?thesis using run by (auto simp: ends_in_def)
qed

lemma state_after_header:
  "archive_take_marker E (Some hdr) a = (Ok (), a') \<Longrightarrow> ar_state a = ReceivedHeader \<Longrightarrow>
    \<exists>rem. ar_state a' = ReceivingData rem"
  by (auto simp: archive_take_marker_def take_marker_def entry_size_of_def bind_outcome_eq_Ok
      split: prod.splits outcome.splits option.splits sum.splits if_splits)

lemma poll_write_header_stands:
  assumes "stands E sent before hs (Some hdr) a" and "appends W sent" and "length hdr = 512"
    and "poll_write_header E W hdr a = Some (r, a')" and "\<not> panicked r"
  shows "if r = Ok () then stands E sent before (hs @ [hdr]) (Some hdr) a' \<and>
      (\<exists>rem. ar_state a' = ReceivingData rem)
    else stands E sent before hs (Some hdr) a'"
proof -
  have "stands E sent before hs (Some hdr) a \<longrightarrow> appends W sent \<longrightarrow> length hdr = 512 \<longrightarrow>
      \<not> panicked (fst y) \<longrightarrow>
      (if fst y = Ok () then stands E sent before (hs @ [hdr]) (Some hdr) (snd y) \<and>
          (\<exists>rem. ar_state (snd y) = ReceivingData rem)
        else stands E sent before hs (Some hdr) (snd y))"
    if "poll_write_header E W hdr a = Some y" for y
  proof (rule poll_write_header.raw_induct [OF _ that], intro impI, goal_cases)
    case (1 f E W hdr a y)
    note step = "1"(2) and stands = "1"(3) and sink = "1"(4) and len = "1"(5) and ok = "1"(6)
    let ?goal = "if fst y = Ok () then stands E sent before (hs @ [hdr]) (Some hdr) (snd y) \<and>
          (\<exists>rem. ar_state (snd y) = ReceivingData rem)
        else stands E sent before hs (Some hdr) (snd y)"
    have piece: ?goal
      if state: "ar_state a = ExpectingHeader \<and> rem = 512 \<or> ar_state a = ReceivingHeader rem False"
        and run: "loop_then (poll_write_data E W (drop (512 - rem) hdr) (Some hdr) a) (\<lambda>n b.
          if n = 0 \<and> c then Some (Err (write_error_into WriteErrorZero), b) else f E W hdr b) = Some y"
      for rem c
    proof -
      obtain r1 a1 where r1: "poll_write_data E W (drop (512 - rem) hdr) (Some hdr) a = (r1, a1)"
        by fastforce
      have "\<not> panicked r1" using run r1 ok by (cases r1) auto
      from ends_inD [OF write_header_stands [OF stands sink len state] r1 this]
      have after: "stands E sent before hs (Some hdr) a1" .
      moreover have ?goal if "f E W hdr a1 = Some y"
        using "1"(1) [OF that] after sink len ok by blast
      ultimately show ?thesis
        using run r1 by (cases r1) (auto split: if_splits)
    qed
    show ?case
    proof (cases "ar_state a")
      case ExpectingHeader
      with step piece [of 512 True, unfolded simp_thms] show ?thesis by simp
    next
      case (ReceivingHeader rem e)
      show ?thesis
      proof (cases e)
        case False
        with step ReceivingHeader piece [of rem "0 < rem"] state_block_le(1) [OF stands_wf [OF stands]]
          len show ?thesis by (simp add: usize_sub_def slice_in_range)
      qed (use step ReceivingHeader ok in auto)
    next
      case ReceivedHeader
      obtain bs bs' where bs: "written sent a = before @ bs" "position E True hs bs (ar_state a)"
          "bs = bs' @ hdr"
        using stands ReceivedHeader len by (auto simp: stands_def begun_def)
      have fits: "header_fits hs bs (ar_state a) (Some hdr)" using ReceivedHeader bs(3) len by simp
      have run: "archive_take_marker E (Some hdr) a = (fst y, snd y)"
        using step ReceivedHeader by auto
      note after = take_marker_position [OF run ok stands_wf [OF stands] bs(2) fits]
      show ?thesis
      proof (cases "fst y = Ok ()")
        case True
        with state_after_header [of E hdr a "snd y"] run ReceivedHeader
        obtain rem where "ar_state (snd y) = ReceivingData rem" by auto
        with True after(1,3) after(2) [of sent] bs(1) ReceivedHeader show ?thesis
          by (auto simp: stands_def headers_after_def intro: begun_none)
      next
        case False
        with after stands_same [OF stands] show ?thesis by auto
      qed
    qed (use step stands in auto)
  qed
  from this [OF assms(4)] assms show ?thesis by (cases "r = Ok ()") simp_all
qed

section \<open>Runs of a client\<close>

text \<open>
  A client owns the archive and at most one handle to an entry, as the borrow checker
  demands: adding an entry and finishing the archive give up the handle. A call that adds an
  entry and is interrupted in the header is made again with the same header, as the future
  that is polled again does. A run has the headers of the entries handed out so far, says
  whether the client holds the handle of the last of them, and has the header of the last
  call that added an entry.
\<close>

inductive writing_run ::
  "cfg \<Rightarrow> 'w writer \<Rightarrow> 'w archive \<Rightarrow> header list \<Rightarrow> bool \<Rightarrow> header option \<Rightarrow> 'w archive \<Rightarrow> bool"
  for E :: cfg and W :: "'w writer" and a :: "'w archive" where
  start: "writing_run E W a [] False None a"
| entry_added: "writing_run E W a hs held pending b \<Longrightarrow> length hdr = 512 \<Longrightarrow>
    (header_missing (ar_state b) \<noteq> None \<Longrightarrow> pending = Some hdr) \<Longrightarrow>
    add_entry E W hdr b = Some (Ok en, c) \<Longrightarrow> writing_run E W a (hs @ [hdr]) True (Some hdr) c"
| entry_interrupted: "writing_run E W a hs held pending b \<Longrightarrow> length hdr = 512 \<Longrightarrow>
    (header_missing (ar_state b) \<noteq> None \<Longrightarrow> pending = Some hdr) \<Longrightarrow>
    add_entry E W hdr b = Some (r, c) \<Longrightarrow> \<not> panicked r \<Longrightarrow> (\<And>en. r \<noteq> Ok en) \<Longrightarrow>
    writing_run E W a hs False (Some hdr) c"
| writes: "writing_run E W a hs True pending b \<Longrightarrow> en_header en = last hs \<Longrightarrow>
    entry_poll_write E W en buf b = Some (r, c) \<Longrightarrow> \<not> panicked r \<Longrightarrow>
    writing_run E W a hs True pending c"
| writes_slices: "writing_run E W a hs True pending b \<Longrightarrow> en_header en = last hs \<Longrightarrow>
    entry_poll_write_vectored E W en bufs b = Some (r, c) \<Longrightarrow> \<not> panicked r \<Longrightarrow>
    writing_run E W a hs True pending c"
| flushes: "writing_run E W a hs True pending b \<Longrightarrow> en_header en = last hs \<Longrightarrow>
    entry_poll_flush E W en b = (r, c) \<Longrightarrow> \<not> panicked r \<Longrightarrow> writing_run E W a hs True pending c"
| finishes_entry: "writing_run E W a hs True pending b \<Longrightarrow> en_header en = last hs \<Longrightarrow>
    entry_finish E W en b = Some (r, c) \<Longrightarrow> \<not> panicked r \<Longrightarrow> writing_run E W a hs True pending c"
| finishes: "writing_run E W a hs held pending b \<Longrightarrow> archive_finish E W b = Some (r, c) \<Longrightarrow>
    \<not> panicked r \<Longrightarrow> writing_run E W a hs False pending c"

text \<open>
  A header whose checksum or size cannot be read is refused only once it has been written:
  then the archive is left in the data of an entry nobody has a handle of, and can only
  refuse further entries.
\<close>

definition run_stands ::
  "cfg \<Rightarrow> ('w \<Rightarrow> bytes) \<Rightarrow> bytes \<Rightarrow> header list \<Rightarrow> bool \<Rightarrow> header option \<Rightarrow> 'w archive \<Rightarrow> bool" where
  "run_stands E sent before hs held pending a \<longleftrightarrow>
     (if held then stands E sent before hs pending a
      else stands E sent before hs pending a \<or>
        (\<exists>rem. ar_state a = ReceivingData rem) \<and> (\<exists>hdr. stands E sent before (hs @ [hdr]) pending a))"

lemma add_entry_in_data:
  assumes "ar_state a = ReceivingData rem"
  shows "add_entry E W hdr a = Some (Err (write_error_into OverlappingEntry), a)"
  using assms by (simp add: add_entry_def poll_write_header.simps [of E W hdr a])

lemma add_entry_stands:
  assumes stands: "stands E sent before hs pending a" and sink: "appends W sent"
    and len: "length hdr = 512" and again: "header_missing (ar_state a) \<noteq> None \<Longrightarrow> pending = Some hdr"
    and run: "add_entry E W hdr a = Some (r, a')" and ok: "\<not> panicked r"
  shows "if \<exists>en. r = Ok en then stands E sent before (hs @ [hdr]) (Some hdr) a'
    else run_stands E sent before hs False (Some hdr) a'"
proof -
  from run obtain r1 a1 where r1: "poll_write_header E W hdr a = Some (r1, a1)"
    and loop: "loop_then (r1, a1) (\<lambda>_ a. Some (entry_new E hdr, a)) = Some (r, a')"
    by (auto simp: add_entry_def bind_eq_Some_conv)
  have "\<not> panicked r1" using loop ok by (cases r1) auto
  note after = poll_write_header_stands [OF stands_pending [OF stands again] sink len r1 this]
  show ?thesis
  proof (cases "r1 = Ok ()")
    case True
    with loop have "a' = a1" by auto
    with after True show ?thesis by (auto simp: run_stands_def)
  next
    case False
    with loop have "\<nexists>en. r = Ok en" "a' = a1" by (cases r1; auto)+
    with after False show ?thesis by (simp add: run_stands_def)
  qed
qed

lemma add_entry_run_stands:
  assumes "run_stands E sent before hs held pending a" and sink: "appends W sent"
    and len: "length hdr = 512" and again: "header_missing (ar_state a) \<noteq> None \<Longrightarrow> pending = Some hdr"
    and run: "add_entry E W hdr a = Some (r, a')" and ok: "\<not> panicked r"
  shows "if \<exists>en. r = Ok en then stands E sent before (hs @ [hdr]) (Some hdr) a'
    else run_stands E sent before hs False (Some hdr) a'"
proof (cases "stands E sent before hs pending a")
  case True
  from add_entry_stands [OF this sink len again run ok] show ?thesis .
next
  case False
  with assms(1) obtain rem hdr' where "ar_state a = ReceivingData rem"
      "stands E sent before (hs @ [hdr']) pending a"
    by (auto simp: run_stands_def split: if_splits)
  with run stands_pending [OF this(2), of "Some hdr"] show ?thesis
    by (auto simp: add_entry_in_data run_stands_def)
qed

lemma finish_in_data:
  "ar_state a = ReceivingData rem \<Longrightarrow> archive_finish E W a = Some (Panic ExplicitPanic, a)"
  by (simp add: archive_finish_def poll_finish.simps [of E W a])

lemma standingD: "ends_in (standing E W sent before hs pending) (r, a') \<Longrightarrow> \<not> panicked r \<Longrightarrow>
    stands E sent before hs pending a'"
  by (simp add: ends_in_def standing_def)

lemma finish_run_stands:
  assumes "run_stands E sent before hs held pending a" and sink: "appends W sent"
    and run: "archive_finish E W a = Some (r, a')" and ok: "\<not> panicked r"
  shows "stands E sent before hs pending a" and "stands E sent before hs pending a'"
proof -
  show stands: "stands E sent before hs pending a"
    using assms(1) run ok finish_in_data [of a _ E W] by (auto simp: run_stands_def split: if_splits)
  then have "standing E W sent before hs pending a" using sink by (simp add: standing_def)
  from loop_ends_inD [OF standing.poll_finish_keeps [OF this] run [unfolded archive_finish_def]] ok
  show "stands E sent before hs pending a'" by (rule standingD)
qed

lemma run_stands_held [simp]:
  "run_stands E sent before hs True pending a \<longleftrightarrow> stands E sent before hs pending a"
  by (simp add: run_stands_def)

lemma writing_run_stands:
  assumes "writing_run E W a hs held pending a'" and sink: "appends W sent"
    and start: "stands E sent before [] None a"
  shows "run_stands E sent before hs held pending a'"
  using assms(1)
proof (induction rule: writing_run.induct)
  case start
  then show ?case using assms(3) by (simp add: run_stands_def)
next
  case (entry_added hs held pending b hdr en c)
  from add_entry_run_stands [OF entry_added.IH sink entry_added.hyps(2,3,4)] show ?case by simp
next
  case (entry_interrupted hs held pending b hdr r c)
  from add_entry_run_stands [OF entry_interrupted.IH sink entry_interrupted.hyps(2,3,4,5)]
    entry_interrupted.hyps(6) show ?case by simp
next
  case (writes hs pending b en buf r c)
  then have "standing E W sent before hs pending b" using sink by (simp add: standing_def)
  from loop_ends_inD [OF standing.poll_write_entry_keeps [OF this]] writes.hyps(2-4) standingD
  show ?case by (fastforce simp: entry_poll_write_def entry_poll_write_vectored_def)
next
  case (writes_slices hs pending b en bufs r c)
  then have "standing E W sent before hs pending b" using sink by (simp add: standing_def)
  from loop_ends_inD [OF standing.poll_write_entry_keeps [OF this]] writes_slices.hyps(2-4) standingD
  show ?case by (fastforce simp: entry_poll_write_vectored_def)
next
  case (flushes hs pending b en r c)
  then have "standing E W sent before hs pending b" using sink by (simp add: standing_def)
  from standing.poll_flush_keeps [OF this] flushes.hyps(3,4) standingD show ?case
    by (fastforce simp: entry_poll_flush_def)
next
  case (finishes_entry hs pending b en r c)
  then have "standing E W sent before hs pending b" using sink by (simp add: standing_def)
  from loop_ends_inD [OF standing.entry_finish_keeps [OF this finishes_entry.hyps(2)]
      finishes_entry.hyps(3)] finishes_entry.hyps(4) standingD show ?case
    by fastforce
next
  case (finishes hs held pending b r c)
  from finish_run_stands(2) [OF finishes.IH sink finishes.hyps(2,3)] show ?case
    by (simp add: run_stands_def)
qed

text \<open>Writing all of a buffer is such a run.\<close>

lemma entry_write_all_run:
  assumes "entry_write_all E W en buf a' = Some (Ok (), b)" and "en_header en = last hs"
    and "writing_run E W a hs True pending a'"
  shows "writing_run E W a hs True pending b"
proof -
  have "\<forall>b. y = (Ok (), b) \<longrightarrow> en_header en = last hs \<longrightarrow> writing_run E W a hs True pending a' \<longrightarrow>
      writing_run E W a hs True pending b" if "entry_write_all E W en buf a' = Some y" for y
  proof (rule entry_write_all.raw_induct [OF _ that], intro allI impI, goal_cases)
    case (1 f E W en buf a' y b)
    note step = "1"(2) [unfolded "1"(3)]
    show ?case
    proof (cases "buf = []")
      case True
      with step "1"(5) show ?thesis by simp
    next
      case False
      with step obtain r1 a1 where r1: "entry_poll_write E W en buf a' = Some (r1, a1)"
        and loop: "loop_then (r1, a1) (\<lambda>n a. if n = 0
            then Some (Err (IoError WriteZero ''write zero byte into writer''), a)
            else f E W en (drop n buf) a) = Some (Ok (), b)"
        by (auto simp: bind_eq_Some_conv)
      obtain n where n: "r1 = Ok n" "f E W en (drop n buf) a1 = Some (Ok (), b)"
        using loop by (cases r1) (auto split: if_splits)
      with writes [OF "1"(5,4) r1] have "writing_run E W a hs True pending a1" by simp
      with "1"(1) [OF n(2)] "1"(4) show ?thesis by blast
    qed
  qed
  with assms show ?thesis by blast
qed

section \<open>Every run\<close>

lemma start_stands:
  assumes "archive_with_capacity io capacity = Ok a" and "0 < capacity"
  shows "stands E sent (sent io) [] None a"
  using archive_with_capacity_start [OF assms] expecting_header [OF none [of E True]]
  by (auto simp: stands_def written_def intro: begun_none)

text \<open>C7. Over any object that appends what it accepts, pending and failing as it likes, and for
  any calls of a client that do not panic and that make an \<open>add_entry\<close> interrupted within its
  header again with the same header: what was sent and what is buffered are complete
  entries in the layout of an archive, padded with zeros, whose headers are those of the
  entries handed out, followed by the part of an entry, or of the end of the archive, that
  the state of the archive stands for. Only where the client has no handle there may be one
  more header, which was written and then refused.\<close>

theorem writing_follows_layout:
  assumes "archive_with_capacity io capacity = Ok a" and "0 < capacity"
    and "appends W sent" and "writing_run E W a hs held pending a'"
  shows "\<exists>bs entries. sent (ar_io a') @ ar_bytes a' = sent io @ bs \<and>
    position E True entries bs (ar_state a') \<and>
    (if held then entries = hs else entries = hs \<or> (\<exists>hdr. entries = hs @ [hdr]))"
proof -
  have position: "\<exists>bs. sent (ar_io a') @ ar_bytes a' = sent io @ bs \<and> position E True entries bs (ar_state a')"
    if "stands E sent (sent io) entries pending a'" for entries
    using that by (auto simp: stands_def written_def)
  from writing_run_stands [OF assms(4,3) start_stands [OF assms(1,2)]]
  have run: "run_stands E sent (sent io) hs held pending a'" .
  show ?thesis
  proof (cases "stands E sent (sent io) hs pending a'")
    case True
    from position [OF this] show ?thesis by auto
  next
    case False
    with run obtain hdr where "\<not> held" "stands E sent (sent io) (hs @ [hdr]) pending a'"
      by (auto simp: run_stands_def split: if_splits)
    with position [OF this(2)] show ?thesis by auto
  qed
qed

lemma sample_header_added:
  obtains a a' where "archive_with_capacity [7] 1 = Ok a"
    and "add_entry (sample_cfg True) (chunk_writer 100 True) (sample_header 3) a =
      Some (Ok \<lparr>en_header = sample_header 3\<rparr>, a')"
    and "archive_wf a'" and "ar_state a' = ReceivingData 3"
    and "writing_run (sample_cfg True) (chunk_writer 100 True) a [sample_header 3] True
      (Some (sample_header 3)) a'"
proof -
  obtain a :: "bytes archive" where a: "archive_with_capacity [7] 1 = Ok a" "archive_wf a"
      "ar_state a = ExpectingHeader"
    by (rule archive_with_capacity_Ok [of 1]) (simp_all add: usize_max_def usize_bits_def)
  have valid: "valid_header (sample_cfg True) (sample_header 3) 3"
    using valid_sample_header [of True 3] by simp
  obtain a' where a': "poll_write_header (sample_cfg True) (chunk_writer 100 True) (sample_header 3) a =
      Some (Ok (), a')" "archive_wf a'" "ar_state a' = ReceivingData 3"
    by (rule write_header [OF a(2) chunk_writer_appends [of 100 True] chunk_writer_willing a(3) _ _
          valid_headerD(4) [OF valid]]) simp_all
  then have run: "add_entry (sample_cfg True) (chunk_writer 100 True) (sample_header 3) a =
      Some (Ok \<lparr>en_header = sample_header 3\<rparr>, a')"
    using valid_headerD(5) [OF valid] by (simp add: add_entry_def)
  from entry_added [OF start _ _ this] a(3)
  have "writing_run (sample_cfg True) (chunk_writer 100 True) a [sample_header 3] True
      (Some (sample_header 3)) a'" by simp
  from that [OF a(1) run a'(2,3) this] show thesis .
qed

theorem writing_follows_layout_witness:
  "\<exists>a a' bs. archive_with_capacity [7] 1 = Ok a \<and>
    add_entry (sample_cfg True) (chunk_writer 100 True) (sample_header 3) a =
      Some (Ok \<lparr>en_header = sample_header 3\<rparr>, a') \<and>
    ar_io a' @ ar_bytes a' = [7] @ bs \<and>
    position (sample_cfg True) True [sample_header 3] bs (ReceivingData 3)"
proof (rule sample_header_added)
  fix a a'
  assume a: "archive_with_capacity [7] 1 = Ok a" "ar_state a' = ReceivingData 3"
    "add_entry (sample_cfg True) (chunk_writer 100 True) (sample_header 3) a =
      Some (Ok \<lparr>en_header = sample_header 3\<rparr>, a')"
    "writing_run (sample_cfg True) (chunk_writer 100 True) a [sample_header 3] True
      (Some (sample_header 3)) a'"
  from writing_follows_layout [OF a(1) _ chunk_writer_appends [of 100 True] a(4)] a(2)
  obtain bs where "ar_io a' @ ar_bytes a' = [7] @ bs"
      "position (sample_cfg True) True [sample_header 3] bs (ReceivingData 3)"
    by auto
  with a show ?thesis by blast
qed

section \<open>A finished archive\<close>

lemma finish_Ok_eof_left:
  assumes "archive_finish E W a = Some (Ok (), a')"
  obtains left where "eof_left (ar_state a) = Some left"
  using assms that
  by (cases "ar_state a") (auto simp: archive_finish_def poll_finish.simps [of E W a] split: if_splits)

text \<open>C5. Over any object that appends what it accepts, and after any calls of a client that did not
  panic and that made an \<open>add_entry\<close> interrupted within its header again with the same
  header: when the archive is finished without an error, the object has been sent an
  archive, complete and well formed, and its entries are exactly those handed out to the
  client, each with as much data as its header says. (With another header the two are spliced:
  \<open>add_entry_sound\<close>.)\<close>

theorem finished_archive_encodes:
  assumes "archive_with_capacity io capacity = Ok a" and "0 < capacity"
    and "appends W sent" and "writing_run E W a hs held pending b"
    and "archive_finish E W b = Some (Ok (), c)"
  shows "\<exists>es. map fst es = hs \<and> sent (ar_io c) = sent io @ archive_bytes es \<and> ar_bytes c = [] \<and>
    list_all (\<lambda>e. \<exists>n. hdr_entry_size E (fst e) = Inr n \<and> length (snd e) = unat n) es"
proof -
  note run = writing_run_stands [OF assms(4,3) start_stands [OF assms(1,2)]]
  have stands: "stands E sent (sent io) hs pending b" "stands E sent (sent io) hs pending c"
    using finish_run_stands [OF run assms(3,5)] by simp_all
  obtain left where "eof_left (ar_state b) = Some left" by (rule finish_Ok_eof_left [OF assms(5)])
  from poll_finish_Ok [OF stands_wf [OF stands(1)] assms(3) this] assms(5)
  have c: "ar_state c = ReceivedEof" "ar_bytes c = []" by (auto simp: archive_finish_def)
  then obtain bs where bs: "sent (ar_io c) = sent io @ bs @ make_eof_data" "whole_entries E True hs bs"
    using stands(2) by (auto simp: stands_def written_def elim: position_received_eof)
  from whole_entries_archive [OF bs(2)] c(2) bs(1) show ?thesis
    by (auto simp: archive_bytes_def)
qed

theorem finished_archive_encodes_witness:
  "\<exists>(a :: bytes archive) (c :: bytes archive) es. archive_with_capacity [7] 1 = Ok a \<and> map fst es = [sample_header 3] \<and>
    ar_io c = [7] @ archive_bytes es \<and> length (snd (hd es)) = 3"
proof (rule sample_header_added)
  let ?W = "chunk_writer 100 True" and ?E = "sample_cfg True" and ?en = "\<lparr>en_header = sample_header 3\<rparr>"
  fix a a'
  assume a: "archive_with_capacity [7] 1 = Ok a" "archive_wf a'" "ar_state a' = ReceivingData 3"
    "writing_run ?E ?W a [sample_header 3] True (Some (sample_header 3)) a'"
  have size: "hdr_entry_size ?E (en_header ?en) = Inr 3"
    using valid_headerD(4) [OF valid_sample_header [of True 3]] by simp
  have "\<not> debug_assertions ?E \<or> unat (3 :: u64) + 511 < 2 ^ 64" by simp
  from entry_write_all_entry [OF a(2) chunk_writer_appends [of 100 True] chunk_writer_willing a(3) _ _ size this,
      of "[1, 2, 3]"]
  obtain b where written: "entry_write_all ?E ?W ?en [1, 2, 3] a' = Some (Ok (), b)"
    and b: "archive_wf b" "ar_state b = ExpectingHeader"
    by auto
  have run: "writing_run ?E ?W a [sample_header 3] True (Some (sample_header 3)) b"
    by (rule entry_write_all_run [OF written _ a(4)]) simp
  obtain c where c: "archive_finish ?E ?W b = Some (Ok (), c)"
    by (rule finish_archive [OF b(1) chunk_writer_appends [of 100 True] chunk_writer_willing b(2)])
      (simp_all add: archive_finish_def)
  from finished_archive_encodes [OF a(1) zero_less_one chunk_writer_appends [of 100 True] run c]
  obtain es where es: "map fst es = [sample_header 3]" "ar_io c = [7] @ archive_bytes es"
      "list_all (\<lambda>e. \<exists>n. hdr_entry_size ?E (fst e) = Inr n \<and> length (snd e) = unat n) es"
    by (elim exE conjE)
  from es(1,3) size have "length (snd (hd es)) = 3" by (auto simp: Cons_eq_map_conv)
  with a(1) es(1,2) show ?thesis by (intro exI conjI)
qed

end
