(* ===== verification/Delays.thy ===== *)
theory Delays
  imports Archives
begin

text \<open>
  Waiting for an I/O object that is not ready: the poll functions return \<open>Pending\<close> in the
  middle of their work, and the executor polls them again later. This theory holds what both
  directions share: archives over an object with a schedule of delays, polling until there
  is an answer, and the relations between a call over the delayed object and the call over
  the prompt one.
\<close>

section \<open>The schedule\<close>

text \<open>The archive over the same object without its delays.\<close>

definition on_time :: "('r \<times> bool list) archive \<Rightarrow> 'r archive" where
  "on_time a = \<lparr>ar_buf = ar_buf a, ar_state = ar_state a, ar_io = fst (ar_io a)\<rparr>"

abbreviation delays_left :: "('r \<times> bool list) archive \<Rightarrow> usize" where
  "delays_left a \<equiv> length (snd (ar_io a))"

text \<open>Polling until there is an answer.\<close>

partial_function (option) await ::
  "('s \<Rightarrow> 'b outcome \<times> 's) \<Rightarrow> 's \<Rightarrow> ('b outcome \<times> 's) option" where
  "await f a = (case f a of (r, a') \<Rightarrow> if r = Pending then await f a' else Some (r, a'))"

declare await.simps [simp del]

lemma on_time_simps [simp]:
  "ar_buf (on_time a) = ar_buf a"
  "ar_state (on_time a) = ar_state a"
  "ar_io (on_time a) = fst (ar_io a)"
  "on_time (a\<lparr>ar_buf := b\<rparr>) = (on_time a)\<lparr>ar_buf := b\<rparr>"
  "on_time (a\<lparr>ar_state := s\<rparr>) = (on_time a)\<lparr>ar_state := s\<rparr>"
  "on_time (a\<lparr>ar_io := io\<rparr>) = (on_time a)\<lparr>ar_io := fst io\<rparr>"
  by (simp_all add: on_time_def)

lemma on_time_same_io [simp]: "(on_time a)\<lparr>ar_io := fst (ar_io a)\<rparr> = on_time a"
  by (simp add: on_time_def)

lemma on_time_state: "on_time b = on_time a \<Longrightarrow> ar_state b = ar_state a"
  by (simp add: on_time_def)

section \<open>Resuming\<close>

text \<open>
  A call over the delayed source either does what the call over the prompt source does, or it
  is pending after at least one delay, and the prompt call gives the same result from where
  it stopped as from where it started; nor does it stop at the end of the archive.
\<close>

definition resumes ::
  "('r archive \<Rightarrow> 'b outcome \<times> 'r archive) \<Rightarrow> ('r \<times> bool list) archive \<Rightarrow>
    'b outcome \<times> ('r \<times> bool list) archive \<Rightarrow> bool" where
  "resumes g a m \<longleftrightarrow>
     g (on_time a) = map_prod id on_time m \<and> delays_left (snd m) \<le> delays_left a \<or>
     fst m = Pending \<and> g (on_time (snd m)) = g (on_time a) \<and> delays_left (snd m) < delays_left a \<and>
     (is_terminal (ar_state (snd m)) \<longrightarrow> is_terminal (ar_state a))"

text \<open>A computation that does not touch the source.\<close>

definition keeps_io ::
  "('a \<Rightarrow> 'r archive \<Rightarrow> 'b outcome \<times> 'r archive) \<Rightarrow>
    ('a \<Rightarrow> ('r \<times> bool list) archive \<Rightarrow> 'b outcome \<times> ('r \<times> bool list) archive) \<Rightarrow> bool" where
  "keeps_io g f \<longleftrightarrow>
     (\<forall>x a. g x (on_time a) = map_prod id on_time (f x a) \<and> ar_io (snd (f x a)) = ar_io a)"

lemma keeps_io_result:
  assumes "\<And>x a. on_time (u x a) = v x (on_time a)" and "\<And>x a. ar_io (u x a) = ar_io a"
    and "\<And>x a. q x (on_time a) = p x a"
  shows "keeps_io (\<lambda>x a. (q x a, v x a)) (\<lambda>x a. (p x a, u x a))"
  using assms by (simp add: keeps_io_def)

lemma keeps_io_and_then:
  assumes "keeps_io m' m" and "\<And>x. keeps_io (g x) (f x)"
  shows "keeps_io (\<lambda>x a. and_then (m' x a) (g x)) (\<lambda>x a. and_then (m x a) (f x))"
  unfolding keeps_io_def
proof (intro allI)
  fix x a
  obtain r b where m: "m x a = (r, b)" by (cases "m x a")
  with assms(1) have m': "m' x (on_time a) = (r, on_time b)" "ar_io b = ar_io a"
    by (auto simp: keeps_io_def) (metis snd_conv)
  show "and_then (m' x (on_time a)) (g x) = map_prod id on_time (and_then (m x a) (f x)) \<and>
      ar_io (snd (and_then (m x a) (f x))) = ar_io a"
    using assms(2) [of x] m m' by (cases r) (auto simp: keeps_io_def)
qed

text \<open>A single call of the source: when it is not ready, nothing else has happened.\<close>

definition stalls ::
  "('r \<times> bool list) archive \<Rightarrow> 'b outcome \<times> 'r archive \<Rightarrow>
    'b outcome \<times> ('r \<times> bool list) archive \<Rightarrow> bool" where
  "stalls a n m \<longleftrightarrow>
     n = map_prod id on_time m \<and> delays_left (snd m) \<le> delays_left a \<or>
     fst m = Pending \<and> on_time (snd m) = on_time a \<and> delays_left (snd m) < delays_left a"

lemma stalls_and_then:
  assumes "stalls a n m" and "keeps_io k' k"
  shows "stalls a (and_then n k') (and_then m k)"
proof -
  obtain r b where m: "m = (r, b)" by (cases m)
  with assms(1) consider "n = (r, on_time b)" "delays_left b \<le> delays_left a"
    | "r = Pending" "on_time b = on_time a" "delays_left b < delays_left a"
    by (auto simp: stalls_def)
  then show ?thesis
  proof cases
    case 1
    then show ?thesis
      using assms(2) m by (cases r) (auto simp: stalls_def keeps_io_def)
  next
    case 2
    then show ?thesis using m by (simp add: stalls_def)
  qed
qed

lemma stalls_now: "n = (r, on_time a) \<Longrightarrow> m = (r, a) \<Longrightarrow> stalls a n m"
  by (simp add: stalls_def)

lemma stallsE:
  assumes "stalls a n m"
  obtains r b where "m = (r, b)" and "n = (r, on_time b)" and "delays_left b \<le> delays_left a"
  | b where "m = (Pending, b)" and "on_time b = on_time a" and "delays_left b < delays_left a"
  using assms by (cases m) (auto simp: stalls_def)

lemma resumes_and_then:
  assumes "resumes g a m" and "keeps_io k' k"
  shows "resumes (\<lambda>a. and_then (g a) k') a (and_then m k)"
proof -
  obtain r b where m: "m = (r, b)" by (cases m)
  with assms(1) consider "g (on_time a) = (r, on_time b)" "delays_left b \<le> delays_left a"
    | "r = Pending" "g (on_time b) = g (on_time a)" "delays_left b < delays_left a"
      "is_terminal (ar_state b) \<longrightarrow> is_terminal (ar_state a)"
    by (auto simp: resumes_def)
  then show ?thesis
  proof cases
    case 1
    then show ?thesis
      using assms(2) m by (cases r) (auto simp: resumes_def keeps_io_def)
  next
    case 2
    then show ?thesis using m by (simp add: resumes_def)
  qed
qed

lemma resumes_await:
  assumes "\<And>a. resumes g a (f a)" and "g (on_time a) = (r, b)" and "r \<noteq> Pending"
  shows "\<exists>a'. await f a = Some (r, a') \<and> on_time a' = b"
  using assms(2)
proof (induction "delays_left a" arbitrary: a rule: less_induct)
  case less
  obtain q a1 where f: "f a = (q, a1)" by (cases "f a")
  with assms(1) [of a] less.prems consider "q = r" "on_time a1 = b"
    | "q = Pending" "g (on_time a1) = (r, b)" "delays_left a1 < delays_left a"
    by (auto simp: resumes_def)
  then show ?case
  proof cases
    case 1
    with f assms(3) show ?thesis by (simp add: await.simps [of f a])
  next
    case 2
    with less.hyps [of a1] f show ?thesis by (simp add: await.simps [of f a])
  qed
qed

named_theorems io_rules \<open>computations that leave the source alone\<close>

lemma keeps_io_prod [io_rules]:
  assumes "\<And>x. keeps_io (g x) (f x)"
  shows "keeps_io (case_prod g) (case_prod f)"
  using assms by (auto simp: keeps_io_def)

declare keeps_io_and_then [io_rules] keeps_io_result [io_rules]

lemma keeps_ioD:
  assumes "keeps_io g f"
  shows "g x (on_time a) = map_prod id on_time (f x a)" and "ar_io (snd (f x a)) = ar_io a"
  using assms by (simp_all add: keeps_io_def)

text \<open>
  The relation for a call that keeps the position when it is pending. It lies between the
  other two: a stalled call pauses, and a call that pauses resumes.
\<close>

definition pauses ::
  "('r archive \<Rightarrow> 'b outcome \<times> 'r archive) \<Rightarrow> ('r \<times> bool list) archive \<Rightarrow>
    'b outcome \<times> ('r \<times> bool list) archive \<Rightarrow> bool" where
  "pauses g a m \<longleftrightarrow>
     g (on_time a) = map_prod id on_time m \<and> delays_left (snd m) \<le> delays_left a \<or>
     fst m = Pending \<and> g (on_time (snd m)) = g (on_time a) \<and> delays_left (snd m) < delays_left a \<and>
     ar_state (snd m) = ar_state a"

lemma stalls_pauses: "stalls a (g (on_time a)) m \<Longrightarrow> pauses g a m"
  using on_time_state [of "snd m" a] by (auto simp: stalls_def pauses_def)

lemma pauses_resumes: "pauses g a m \<Longrightarrow> resumes g a m"
  by (auto simp: pauses_def resumes_def)

lemma pauses_result:
  "g (on_time a) = map_prod id on_time m \<Longrightarrow> delays_left (snd m) \<le> delays_left a \<Longrightarrow> pauses g a m"
  by (simp add: pauses_def)

lemma pausesE:
  assumes "pauses g a m"
  obtains r b where "m = (r, b)" and "g (on_time a) = (r, on_time b)" and "delays_left b \<le> delays_left a"
  | b where "m = (Pending, b)" and "g (on_time b) = g (on_time a)"
    and "delays_left b < delays_left a" and "ar_state b = ar_state a"
  using assms by (cases m) (auto simp: pauses_def)

section \<open>Loops over a delayed object\<close>

text \<open>
  A loop that may not end catches up with the prompt one: where the prompt loop has the result
  \<open>y\<close>, it ends with the same result, or it is pending, and the prompt loop has the result \<open>y\<close>
  from there too.
\<close>

definition catches_up ::
  "('r archive \<Rightarrow> ('b outcome \<times> 'r archive) option) \<Rightarrow> 'b outcome \<times> 'r archive \<Rightarrow>
    ('r \<times> bool list) archive \<Rightarrow> ('b outcome \<times> ('r \<times> bool list) archive) option \<Rightarrow> bool" where
  "catches_up L y a m \<longleftrightarrow>
     (\<exists>r b. m = Some (r, b) \<and>
       (y = (r, on_time b) \<and> delays_left b \<le> delays_left a \<or>
        r = Pending \<and> L (on_time b) = Some y \<and> delays_left b < delays_left a))"

lemma catches_up_result:
  "y = (r, on_time b) \<Longrightarrow> delays_left b \<le> delays_left a \<Longrightarrow> catches_up L y a (Some (r, b))"
  by (simp add: catches_up_def)

lemma catches_up_trans:
  "catches_up L y b m \<Longrightarrow> delays_left b \<le> delays_left a \<Longrightarrow> catches_up L y a m"
  by (auto simp: catches_up_def)

text \<open>An iteration: a call that pauses, then the rest of the loop.\<close>

lemma catches_up_step:
  assumes "pauses g a m" and "loop_then (g (on_time a)) k = Some y"
    and "\<And>b. ar_state b = ar_state a \<Longrightarrow> g (on_time b) = g (on_time a) \<Longrightarrow> L (on_time b) = Some y"
    and "\<And>x b. g (on_time a) = (Ok x, on_time b) \<Longrightarrow> k x (on_time b) = Some y \<Longrightarrow>
      catches_up L y b (k' x b)"
  shows "catches_up L y a (loop_then m k')"
  using assms(1)
proof (cases rule: pausesE)
  case (1 r b)
  show ?thesis
  proof (cases r)
    case (Ok x)
    with 1 assms(2,4) show ?thesis by (auto intro: catches_up_trans)
  qed (use 1 assms(2) in \<open>auto intro: catches_up_result\<close>)
next
  case (2 b)
  with assms(3) [of b] show ?thesis by (simp add: catches_up_def)
qed

text \<open>
  One unfolding of two such loops: from the loop body \<open>f\<close> of a fixpoint induction to both of
  them.
\<close>

lemma catches_up_iterate:
  fixes b :: "'r archive"
  assumes pause: "\<And>a. pauses g a (g' a)" and step: "loop_then (g b) f = Some y"
    and IH: "\<And>x c. g b = (Ok x, c) \<Longrightarrow> f x c = Some y \<Longrightarrow>
      k x c = Some y \<and> (\<forall>a. on_time a = c \<longrightarrow> catches_up L y a (k' x a))"
    and unfold: "\<And>c. ar_state c = ar_state b \<Longrightarrow> L c = loop_then (g c) k"
    and unfold': "\<And>a. on_time a = b \<Longrightarrow> L' a = loop_then (g' a) k'"
  shows "L b = Some y \<and> (\<forall>a. on_time a = b \<longrightarrow> catches_up L y a (L' a))"
proof (intro conjI allI impI)
  obtain r c where "g b = (r, c)" by fastforce
  then have both: "loop_then (g b) k = Some y"
    using step IH by (cases r) auto
  then show "L b = Some y" using unfold [of b] by simp
  fix a :: "('r \<times> bool list) archive"
  assume a: "on_time a = b"
  have "catches_up L y a (loop_then (g' a) k')"
  proof (rule catches_up_step [OF pause])
    show "loop_then (g (on_time a)) f = Some y" using step a by simp
    show "L (on_time c) = Some y" if "ar_state c = ar_state a" "g (on_time c) = g (on_time a)" for c
      using unfold [of "on_time c"] that both a by auto
    show "catches_up L y c (k' x c)"
      if "g (on_time a) = (Ok x, on_time c)" "f x (on_time c) = Some y" for x c
      using IH [of x "on_time c"] that a by auto
  qed
  then show "catches_up L y a (L' a)" using unfold' [OF a] by simp
qed

text \<open>An unfolding that returns at once.\<close>

lemma catches_up_return:
  fixes b :: "'r archive"
  assumes "Some (q b) = Some y" and "L b = Some (q b)"
    and "\<And>a. on_time a = b \<Longrightarrow> L' a = Some (q' a) \<and> q b = map_prod id on_time (q' a) \<and>
      delays_left (snd (q' a)) \<le> delays_left a"
  shows "L b = Some y \<and> (\<forall>a. on_time a = b \<longrightarrow> catches_up L y a (L' a))"
proof (intro conjI allI impI)
  show "L b = Some y" using assms(1,2) by simp
  fix a :: "('r \<times> bool list) archive"
  assume "on_time a = b"
  from assms(3) [OF this] assms(1) show "catches_up L y a (L' a)"
    by (cases "q' a") (auto intro: catches_up_result)
qed

text \<open>A loop, then something else.\<close>

lemma catches_up_bind:
  assumes "catches_up L1 y1 a m" and "loop_then y1 k = Some y"
    and unfold: "\<And>c. L c = Option.bind (L1 c) (\<lambda>r. loop_then r k)"
    and rest: "\<And>x b. y1 = (Ok x, on_time b) \<Longrightarrow> k x (on_time b) = Some y \<Longrightarrow> catches_up L y b (k' x b)"
  shows "catches_up L y a (Option.bind m (\<lambda>r. loop_then r k'))"
proof -
  from assms(1) obtain r b where m: "m = Some (r, b)"
    and "y1 = (r, on_time b) \<and> delays_left b \<le> delays_left a \<or>
      r = Pending \<and> L1 (on_time b) = Some y1 \<and> delays_left b < delays_left a"
    by (auto simp: catches_up_def)
  then consider "y1 = (r, on_time b)" "delays_left b \<le> delays_left a"
    | "r = Pending" "L1 (on_time b) = Some y1" "delays_left b < delays_left a" by blast
  then show ?thesis
  proof cases
    case 1
    show ?thesis
    proof (cases r)
      case (Ok x)
      with 1 m assms(2) rest [of x b] show ?thesis by (auto intro: catches_up_trans)
    qed (use 1 m assms(2) in \<open>auto intro: catches_up_result\<close>)
  next
    case 2
    with m assms(2) show ?thesis by (simp add: catches_up_def unfold)
  qed
qed

text \<open>Polling such a loop until it has an answer.\<close>

partial_function (option) await_loop ::
  "('s \<Rightarrow> ('b outcome \<times> 's) option) \<Rightarrow> 's \<Rightarrow> ('b outcome \<times> 's) option" where
  "await_loop f a =
     Option.bind (f a) (\<lambda>(r, a'). if r = Pending then await_loop f a' else Some (r, a'))"

declare await_loop.simps [simp del]

lemma catches_up_await:
  assumes "\<And>a. L (on_time a) = Some (r, b) \<Longrightarrow> catches_up L (r, b) a (f a)"
    and "L (on_time a) = Some (r, b)" and "r \<noteq> Pending"
  shows "\<exists>a'. await_loop f a = Some (r, a') \<and> on_time a' = b"
  using assms(2)
proof (induction "delays_left a" arbitrary: a rule: less_induct)
  case less
  from assms(1) [OF less.prems] obtain q a1 where f: "f a = Some (q, a1)"
    and "q = r \<and> on_time a1 = b \<or>
      q = Pending \<and> L (on_time a1) = Some (r, b) \<and> delays_left a1 < delays_left a"
    by (auto simp: catches_up_def)
  then consider "q = r" "on_time a1 = b"
    | "q = Pending" "L (on_time a1) = Some (r, b)" "delays_left a1 < delays_left a"
    by blast
  then show ?case
  proof cases
    case 1
    with f assms(3) show ?thesis by (simp add: await_loop.simps [of f a])
  next
    case 2
    with less.hyps [of a1] f show ?thesis by (simp add: await_loop.simps [of f a])
  qed
qed

end
