(* ===== verification/Writer_Waiting.thy ===== *)
theory Writer_Waiting
  imports Writer_Calls Delays
begin

text \<open>
  Waiting for the underlying object when writing (\<open>src/write/mod.rs\<close>): adding an entry,
  finishing an entry or the archive, flushing, and writing data that does not complete an
  entry can be polled again when they are pending, and give the result of a single call over
  the object without its delays. (The write that completes an entry cannot, see
  \<open>Writer_Limits\<close>.)
\<close>

section \<open>Delayed sinks\<close>

text \<open>
  A call over an object with a schedule: \<open>True\<close> means that the next call finds it not ready,
  \<open>False\<close> that it answers; an empty schedule means that it always answers from then on.
\<close>

definition delayed_call ::
  "('w \<Rightarrow> 'b outcome \<times> 'w) \<Rightarrow> 'w \<times> bool list \<Rightarrow> 'b outcome \<times> ('w \<times> bool list)" where
  "delayed_call f wd =
     (case snd wd of
        True # ds \<Rightarrow> (Pending, (fst wd, ds))
      | _ \<Rightarrow> (case f (fst wd) of (r, w') \<Rightarrow> (r, (w', tl (snd wd)))))"

definition delayed_writer :: "'w writer \<Rightarrow> ('w \<times> bool list) writer" where
  "delayed_writer W =
     \<lparr>wr_poll_write = (\<lambda>wd bs. delayed_call (\<lambda>w. wr_poll_write W w bs) wd),
      wr_poll_write_vectored = (\<lambda>wd bufs. delayed_call (\<lambda>w. wr_poll_write_vectored W w bufs) wd),
      wr_is_write_vectored = (\<lambda>wd. wr_is_write_vectored W (fst wd)),
      wr_poll_flush = delayed_call (wr_poll_flush W),
      wr_poll_shutdown = delayed_call (wr_poll_shutdown W)\<rparr>"

text \<open>
  The documented behaviour that matters here: whether vectored writes are efficient is a
  property of the object and not of the moment, and an empty write does nothing.
\<close>

definition steady :: "'w writer \<Rightarrow> bool" where
  "steady W \<longleftrightarrow>
     (\<forall>w w'. wr_is_write_vectored W w = wr_is_write_vectored W w') \<and>
     (\<forall>w. wr_poll_write W w [] = (Ok 0, w))"

lemma delayed_callE:
  obtains ds where "snd wd = True # ds" and "delayed_call f wd = (Pending, (fst wd, ds))"
  | r w' where "f (fst wd) = (r, w')" and "delayed_call f wd = (r, (w', tl (snd wd)))"
  by (cases "f (fst wd)"; cases "snd wd"; cases "hd (snd wd)") (auto simp: delayed_call_def)

lemma delayed_writer_simps [simp]:
  "wr_poll_write (delayed_writer W) wd bs = delayed_call (\<lambda>w. wr_poll_write W w bs) wd"
  "wr_poll_write_vectored (delayed_writer W) wd bufs =
     delayed_call (\<lambda>w. wr_poll_write_vectored W w bufs) wd"
  "wr_is_write_vectored (delayed_writer W) wd = wr_is_write_vectored W (fst wd)"
  "wr_poll_flush (delayed_writer W) wd = delayed_call (wr_poll_flush W) wd"
  "wr_poll_shutdown (delayed_writer W) wd = delayed_call (wr_poll_shutdown W) wd"
  by (simp_all add: delayed_writer_def)

section \<open>Sending the buffer\<close>

lemma flush_loop_delayed:
  assumes "flush_loop checks (delayed_writer W) buf io = (r, buf', io')"
  shows "flush_loop checks W buf (fst io) = (r, buf', fst io') \<and> length (snd io') \<le> length (snd io) \<or>
    r = Pending \<and> flush_loop checks W buf' (fst io') = flush_loop checks W buf (fst io) \<and>
      rg_buf buf' = rg_buf buf \<and> length (snd io') < length (snd io)"
  using assms
proof (induction checks "delayed_writer W" buf io rule: flush_loop.induct)
  case (1 checks buf io)
  note unfold = flush_loop.simps [of checks "delayed_writer W" buf io]
    flush_loop.simps [of checks W buf "fst io"]
  show ?case
  proof (cases "rg_is_empty checks buf")
    case (Ok e)
    show ?thesis
    proof (cases "e \<or> (\<forall>bs. rg_bytes buf \<noteq> Ok bs)")
      case True
      with "1.prems" Ok show ?thesis
        by (cases "rg_bytes buf") (auto simp: unfold flush_loop.simps [of checks W buf'])
    next
      case False
      then obtain bs where bs: "rg_bytes buf = Ok bs" "\<not> e" by auto
      show ?thesis
      proof (rule delayed_callE [of io "\<lambda>w. wr_poll_write W w bs"])
        fix ds
        assume "snd io = True # ds"
          and "delayed_call (\<lambda>w. wr_poll_write W w bs) io = (Pending, (fst io, ds))"
        with "1.prems" Ok bs show ?thesis by (auto simp: unfold(1))
      next
        fix q w'
        assume call: "wr_poll_write W (fst io) bs = (q, w')"
          "delayed_call (\<lambda>w. wr_poll_write W w bs) io = (q, (w', tl (snd io)))"
        show ?thesis
        proof (cases "\<exists>n buf1. q = Ok n \<and> n \<noteq> 0 \<and> rg_commit buf n = Ok buf1")
          case True
          then obtain n buf1 where q: "q = Ok n" "n \<noteq> 0" and commit: "rg_commit buf n = Ok buf1"
            by blast
          have late: "flush_loop checks (delayed_writer W) buf1 (w', tl (snd io)) = (r, buf', io')"
            and prompt: "flush_loop checks W buf (fst io) = flush_loop checks W buf1 w'"
            using "1.prems" Ok bs call q commit by (simp_all add: unfold)
          have "rg_buf buf1 = rg_buf buf"
            using commit by (auto simp: rg_commit_def region_commit_def bind_outcome_eq_Ok rg_set_position_def)
          moreover have "length (tl (snd io)) \<le> length (snd io)" by simp
          moreover note "1.hyps" [of e "(buf, io)" bs "(buf, io)" q "(w', tl (snd io))" n
              "(buf, (w', tl (snd io)))" buf1 "(buf, (w', tl (snd io)))"]
          ultimately show ?thesis
            using Ok bs call q commit late prompt by auto
        next
          case False
          then consider n where "q = Ok n" "n \<noteq> 0" "\<And>b. rg_commit buf n \<noteq> Ok b"
            | "\<And>n. q = Ok n \<Longrightarrow> n = 0" by blast
          then have "flush_loop checks W buf (fst io) =
              map_prod id (map_prod id fst) (flush_loop checks (delayed_writer W) buf io) \<and>
            length (snd (snd (snd (flush_loop checks (delayed_writer W) buf io)))) \<le> length (snd io)"
          proof cases
            case (1 n)
            with Ok bs call show ?thesis by (cases "rg_commit buf n") (auto simp: unfold)
          next
            case 2
            with Ok bs call show ?thesis by (cases q) (simp_all add: unfold)
          qed
          with "1.prems" show ?thesis by simp
        qed
      qed
    qed
  qed (use "1.prems" in \<open>auto simp: unfold flush_loop.simps [of checks W buf']\<close>)
qed

lemma and_then_unit: "r \<noteq> Ok () \<Longrightarrow> and_then (r, s) f = (r, s)"
  by (cases r) simp_all

text \<open>The buffer after an interrupted flush, and after a complete one.\<close>

lemma put_buffered_twice [simp]: "put_buffered (put_buffered b r) r' = put_buffered b r'"
  by (simp add: put_buffered_def)

lemma poll_flush_buffered_cleared:
  "ar_buf a = buf_clear b \<Longrightarrow> poll_flush_buffered E W a = (Ok (), a)"
  by (simp add: poll_flush_buffered_def buffered_def buf_clear_def slice_in_range flush_loop.simps
      rg_is_empty_def rg_len_def region_remaining_def usize_sub_def region_capacity_def
      put_buffered_def)

lemma poll_flush_buffered_delayed:
  obtains r b where "poll_flush_buffered E (delayed_writer W) a = (r, b)"
    and "poll_flush_buffered E W (on_time a) = (r, on_time b)" and "delays_left b \<le> delays_left a"
    and "ar_state b = ar_state a" and "ar_capacity b = ar_capacity a"
    and "r = Ok () \<Longrightarrow> \<exists>c. ar_buf b = buf_clear c"
  | reg b where "poll_flush_buffered E (delayed_writer W) a = (Pending, b)"
    and "poll_flush_buffered E W (on_time b) = poll_flush_buffered E W (on_time a)"
    and "delays_left b < delays_left a" and "ar_state b = ar_state a"
    and "ar_buf b = put_buffered (ar_buf a) reg"
proof (cases "buffered (ar_buf a)")
  case (Ok reg)
  obtain r reg' io' where late: "flush_loop (debug_assertions E) (delayed_writer W) reg (ar_io a) = (r, reg', io')"
    by (metis prod_cases3)
  let ?b = "a\<lparr>ar_buf := put_buffered (ar_buf a) reg', ar_io := io'\<rparr>"
  let ?c = "?b\<lparr>ar_buf := buf_clear (ar_buf ?b)\<rparr>"
  from flush_loop_delayed [OF late] show thesis
  proof (elim disjE conjE)
    assume prompt: "flush_loop (debug_assertions E) W reg (fst (ar_io a)) = (r, reg', fst io')"
      and left: "length (snd io') \<le> length (snd (ar_io a))"
    show thesis
    proof (cases "r = Ok ()")
      case True
      show thesis
      proof (rule that(1) [of "Ok ()" ?c])
        show "\<exists>c. ar_buf ?c = buf_clear c" by (rule exI) simp
      qed (use Ok late prompt left True in \<open>simp_all add: poll_flush_buffered_def put_buffered_def
            buf_capacity_def buf_clear_def\<close>)
    next
      case False
      show thesis
        by (rule that(1) [of r ?b])
          (use Ok late prompt left False in \<open>simp_all add: poll_flush_buffered_def and_then_unit
            put_buffered_def buf_capacity_def\<close>)
    qed
  next
    assume r: "r = Pending" and reg: "rg_buf reg' = rg_buf reg"
      and prompt: "flush_loop (debug_assertions E) W reg' (fst io') =
        flush_loop (debug_assertions E) W reg (fst (ar_io a))"
      and left: "length (snd io') < length (snd (ar_io a))"
    have "buffered (put_buffered (ar_buf a) reg') = Ok reg'"
      using Ok reg by (auto simp: buffered_def put_buffered_def bind_outcome_eq_Ok)
    then have "poll_flush_buffered E W (on_time ?b) = poll_flush_buffered E W (on_time a)"
      using Ok prompt by (simp add: poll_flush_buffered_def on_time_def)
    then show thesis
      using Ok late r left by (intro that(2) [of ?b reg']) (simp_all add: poll_flush_buffered_def)
  qed
next
  case (Err e)
  show thesis by (rule that(1) [of "Err e" a]) (simp_all add: poll_flush_buffered_def Err)
next
  case Pending
  show thesis by (rule that(1) [of Pending a]) (simp_all add: poll_flush_buffered_def Pending)
next
  case (Panic p)
  show thesis by (rule that(1) [of "Panic p" a]) (simp_all add: poll_flush_buffered_def Panic)
qed

section \<open>The vectored write\<close>

text \<open>The part of the vectored write before the bytes are accepted, and the rest.\<close>

definition free_room ::
  "cfg \<Rightarrow> 'w writer \<Rightarrow> bool \<Rightarrow> usize \<Rightarrow> 'w archive \<Rightarrow> unit outcome \<times> 'w archive" where
  "free_room E W pass len a =
     (if pass then poll_flush_buffered E W a
      else
        and_then (buf_remaining (debug_assertions E) (ar_buf a), a) (\<lambda>remaining a.
          if remaining < len then poll_flush_buffered E W a else (Ok (), a)))"

definition send_prefix ::
  "cfg \<Rightarrow> 'w writer \<Rightarrow> bool \<Rightarrow> prefix \<Rightarrow> usize \<Rightarrow> header option \<Rightarrow> state \<Rightarrow> 'w archive \<Rightarrow>
    usize outcome \<times> 'w archive" where
  "send_prefix E W pass p len h st a =
     and_then (if pass then pass_through E W p len a else fill_buffer E p a) (\<lambda>n a.
     and_then (if n = len then Ok st else state_after E (ar_state a) p h n, a) (\<lambda>st a.
     (Ok n, a\<lparr>ar_state := st\<rparr>)))"

lemma poll_write_vectored_parts:
  assumes "array_take_prefix bufs m = Ok p"
    and "take_slices E (ar_state a) (prefix_iter_buffers p) h = Ok (st, prefix_bytes_len p)"
  shows "poll_write_vectored E W bufs m h a =
    (let len = prefix_bytes_len p;
         pass = ar_capacity a \<le> len \<and> wr_is_write_vectored W (ar_io a)
     in and_then (free_room E W pass len a) (\<lambda>_. send_prefix E W pass p len h st))"
  using assms
  by (simp add: poll_write_vectored_def free_room_def send_prefix_def [abs_def] Let_def
      cong del: and_then_weak_cong cong: if_cong)

lemma pass_through_stalls:
  assumes "steady W" and "prefix_remainder p = []" and "len \<le> usize_max"
  shows "stalls a (pass_through E W p len (on_time a)) (pass_through E (delayed_writer W) p len a)"
proof (rule delayed_callE [of "ar_io a" "\<lambda>w. wr_poll_write_vectored W w (prefix_slices p)"])
  fix ds
  assume "snd (ar_io a) = True # ds"
    and "delayed_call (\<lambda>w. wr_poll_write_vectored W w (prefix_slices p)) (ar_io a) =
      (Pending, (fst (ar_io a), ds))"
  then show ?thesis
    using assms(2) by (simp add: pass_through_def usize_sub_def stalls_def on_time_def)
next
  fix r w'
  assume call: "wr_poll_write_vectored W (fst (ar_io a)) (prefix_slices p) = (r, w')"
    "delayed_call (\<lambda>w. wr_poll_write_vectored W w (prefix_slices p)) (ar_io a) =
      (r, (w', tl (snd (ar_io a))))"
  show ?thesis
  proof (cases "r = Ok len")
    case True
    have none: "wr_poll_write W w' [] = (Ok 0, w')"
      using assms(1) by (simp add: steady_def)
    have left: "length ds \<le> delays_left a" if "tl (snd (ar_io a)) = True # ds" for ds
      using that by (cases "snd (ar_io a)") auto
    show ?thesis
      by (rule delayed_callE [of "(w', tl (snd (ar_io a)))" "\<lambda>w. wr_poll_write W w []"])
        (use assms(2,3) call True none left in
          \<open>auto simp: pass_through_def usize_sub_def usize_add_def stalls_def\<close>)
  next
    case False
    with call assms(2) show ?thesis
      by (cases r) (auto simp: pass_through_def usize_sub_def stalls_def)
  qed
qed

lemma send_prefix_stalls:
  assumes "steady W" and "prefix_remainder p = []" and "len \<le> usize_max"
  shows "stalls a (send_prefix E W pass p len h st (on_time a))
    (send_prefix E (delayed_writer W) pass p len h st a)"
proof -
  have fill: "keeps_io (\<lambda>p. fill_buffer E p) (\<lambda>p. fill_buffer E p)"
    unfolding fill_buffer_def by (intro io_rules) simp_all
  have "stalls a (if pass then pass_through E W p len (on_time a) else fill_buffer E p (on_time a))
    (if pass then pass_through E (delayed_writer W) p len a else fill_buffer E p a)"
    using pass_through_stalls [OF assms] keeps_ioD [OF fill, of p a] by (simp add: stalls_def)
  then show ?thesis
    unfolding send_prefix_def by (rule stalls_and_then) (intro io_rules; simp)
qed

lemma free_room_delayed:
  obtains r b where "free_room E (delayed_writer W) pass len a = (r, b)"
    and "free_room E W pass len (on_time a) = (r, on_time b)" and "delays_left b \<le> delays_left a"
    and "ar_state b = ar_state a" and "ar_capacity b = ar_capacity a"
    and "r = Ok () \<Longrightarrow> free_room E W pass len (on_time b) = (Ok (), on_time b)"
  | b where "free_room E (delayed_writer W) pass len a = (Pending, b)"
    and "free_room E W pass len (on_time b) = free_room E W pass len (on_time a)"
    and "delays_left b < delays_left a" and "ar_state b = ar_state a"
    and "ar_capacity b = ar_capacity a"
proof -
  consider (flush) "pass \<or> (\<exists>n < len. buf_remaining (debug_assertions E) (ar_buf a) = Ok n)"
    | (room) n where "\<not> pass" "len \<le> n" "buf_remaining (debug_assertions E) (ar_buf a) = Ok n"
    | (fails) "\<not> pass" "\<And>n. buf_remaining (debug_assertions E) (ar_buf a) \<noteq> Ok n"
    by (meson not_less)
  then show thesis
  proof cases
    case flush
    show thesis
    proof (rule poll_flush_buffered_delayed [of E W a])
      fix r b
      assume run: "poll_flush_buffered E (delayed_writer W) a = (r, b)"
        "poll_flush_buffered E W (on_time a) = (r, on_time b)" "delays_left b \<le> delays_left a"
        "ar_state b = ar_state a" "ar_capacity b = ar_capacity a"
        and cleared: "r = Ok () \<Longrightarrow> \<exists>c. ar_buf b = buf_clear c"
      have again: "free_room E W pass len (on_time b) = (Ok (), on_time b)" if "r = Ok ()"
      proof -
        from cleared [OF that] obtain c where c: "ar_buf (on_time b) = buf_clear c" by auto
        from poll_flush_buffered_cleared [OF c] c show ?thesis
          by (simp add: free_room_def buf_remaining_def rm_remaining_def available_def buf_clear_def
              region_remaining_def usize_sub_def)
      qed
      show thesis
        by (rule that(1) [of r b]) (use flush run again in \<open>auto simp: free_room_def\<close>)
    next
      fix reg b
      assume run: "poll_flush_buffered E (delayed_writer W) a = (Pending, b)"
        "poll_flush_buffered E W (on_time b) = poll_flush_buffered E W (on_time a)"
        "delays_left b < delays_left a" "ar_state b = ar_state a"
        and buf: "ar_buf b = put_buffered (ar_buf a) reg"
      have "buf_remaining (debug_assertions E) (ar_buf b) = buf_remaining (debug_assertions E) (ar_buf a)"
        "ar_capacity b = ar_capacity a"
        by (simp_all add: buf buf_remaining_def available_def put_buffered_def buf_capacity_def)
      with flush run show thesis
        by (intro that(2) [of b]) (auto simp: free_room_def)
    qed
  next
    case room
    show thesis
      by (rule that(1) [of "Ok ()" a]) (use room in \<open>simp_all add: free_room_def\<close>)
  next
    case fails
    show thesis
    proof (cases "buf_remaining (debug_assertions E) (ar_buf a)")
      case (Err e)
      show thesis by (rule that(1) [of "Err e" a]) (use fails Err in \<open>simp_all add: free_room_def\<close>)
    next
      case Pending
      show thesis by (rule that(1) [of Pending a]) (use fails Pending in \<open>simp_all add: free_room_def\<close>)
    next
      case (Panic q)
      show thesis by (rule that(1) [of "Panic q" a]) (use fails Panic in \<open>simp_all add: free_room_def\<close>)
    qed (use fails in simp)
  qed
qed

text \<open>
  The vectored write pauses when its bytes are whole slices, so nothing is left for a second
  call whose delay would be swallowed.
\<close>

lemma poll_write_vectored_pauses:
  assumes W: "steady W" and p: "array_take_prefix bufs m = Ok p" "prefix_remainder p = []"
  shows "pauses (poll_write_vectored E W bufs m h) a
    (poll_write_vectored E (delayed_writer W) bufs m h a)"
proof (cases "\<exists>st. take_slices E (ar_state a) (prefix_iter_buffers p) h = Ok (st, prefix_bytes_len p)")
  case True
  then obtain st where st: "take_slices E (ar_state a) (prefix_iter_buffers p) h =
      Ok (st, prefix_bytes_len p)" ..
  define len where "len = prefix_bytes_len p"
  define pass where "pass \<longleftrightarrow> ar_capacity a \<le> len \<and> wr_is_write_vectored W (fst (ar_io a))"
  have len: "len \<le> usize_max" by (simp add: len_def prefix_bytes_len_eq)
  have vec: "wr_is_write_vectored W w \<longleftrightarrow> wr_is_write_vectored W (fst (ar_io a))" for w
    using W unfolding steady_def by blast
  have prompt: "poll_write_vectored E W bufs m h (on_time b) =
      and_then (free_room E W pass len (on_time b)) (\<lambda>_. send_prefix E W pass p len h st)"
    if "ar_state b = ar_state a" "ar_capacity b = ar_capacity a" for b
    using poll_write_vectored_parts [OF p(1), of E "on_time b" h st W] st that
      vec [of "fst (ar_io b)"]
    unfolding len_def pass_def by (simp add: Let_def)
  have late: "poll_write_vectored E (delayed_writer W) bufs m h a =
      and_then (free_room E (delayed_writer W) pass len a)
        (\<lambda>_. send_prefix E (delayed_writer W) pass p len h st)"
    using poll_write_vectored_parts [OF p(1) st, of "delayed_writer W"]
    unfolding len_def pass_def by (simp add: Let_def)
  show ?thesis
  proof (rule free_room_delayed [of E W pass len a])
    fix r b
    assume room: "free_room E (delayed_writer W) pass len a = (r, b)"
      "free_room E W pass len (on_time a) = (r, on_time b)" "delays_left b \<le> delays_left a"
      "ar_state b = ar_state a" "ar_capacity b = ar_capacity a"
      and again: "r = Ok () \<Longrightarrow> free_room E W pass len (on_time b) = (Ok (), on_time b)"
    show ?thesis
    proof (cases "r = Ok ()")
      case True
      from send_prefix_stalls [OF W p(2) len, of b E pass h st] show ?thesis
      proof (cases rule: stallsE)
        case (1 q c)
        with room prompt [of a] late True show ?thesis by (intro pauses_result) simp_all
      next
        case (2 c)
        from on_time_state [OF 2(2)] 2(2) have "ar_state c = ar_state a" "ar_capacity c = ar_capacity a"
          using room(4,5) by (simp_all add: on_time_def)
        with 2 room prompt [of a] prompt [of c] late again True show ?thesis
          by (simp add: pauses_def)
      qed
    next
      case False
      with room prompt [of a] late show ?thesis
        by (cases r) (simp_all add: pauses_result)
    qed
  next
    fix b
    assume "free_room E (delayed_writer W) pass len a = (Pending, b)"
      "free_room E W pass len (on_time b) = free_room E W pass len (on_time a)"
      "delays_left b < delays_left a" "ar_state b = ar_state a" "ar_capacity b = ar_capacity a"
    then show ?thesis
      using prompt [of a] prompt [of b] late by (simp add: pauses_def)
  qed
next
  case False
  then have "take_slices E (ar_state a) (prefix_iter_buffers p) h = Ok r \<Longrightarrow>
      snd r \<noteq> prefix_bytes_len p" for r
    by (cases r) auto
  then show ?thesis
    using p(1)
    by (intro pauses_result; cases "take_slices E (ar_state a) (prefix_iter_buffers p) h")
      (simp_all add: poll_write_vectored_def Let_def)
qed

lemma poll_write_data_pauses:
  "steady W \<Longrightarrow> pauses (poll_write_data E W buf h) a (poll_write_data E (delayed_writer W) buf h a)"
  using poll_write_vectored_pauses [OF _ array_take_prefix_all [of "[buf]" "length buf"], of W E h a]
  by (simp add: poll_write_data_def pauses_def slices_simps)

section \<open>Flushing\<close>

lemma poll_flush_pauses: "pauses (poll_flush E W) a (poll_flush E (delayed_writer W) a)"
proof (rule poll_flush_buffered_delayed [of E W a])
  fix r b
  assume run: "poll_flush_buffered E (delayed_writer W) a = (r, b)"
    "poll_flush_buffered E W (on_time a) = (r, on_time b)" "delays_left b \<le> delays_left a"
    "ar_state b = ar_state a" and cleared: "r = Ok () \<Longrightarrow> \<exists>c. ar_buf b = buf_clear c"
  show ?thesis
  proof (cases "r = Ok ()")
    case True
    with cleared obtain c where c: "ar_buf b = buf_clear c" by blast
    show ?thesis
    proof (rule delayed_callE [of "ar_io b" "wr_poll_flush W"])
      fix ds
      assume ds: "snd (ar_io b) = True # ds"
        "delayed_call (wr_poll_flush W) (ar_io b) = (Pending, (fst (ar_io b), ds))"
      let ?b = "b\<lparr>ar_io := (fst (ar_io b), ds)\<rparr>"
      have "on_time ?b = on_time b" by (simp add: on_time_def)
      moreover have "poll_flush_buffered E W (on_time b) = (Ok (), on_time b)"
        by (rule poll_flush_buffered_cleared) (simp add: c)
      ultimately have "poll_flush E W (on_time ?b) = poll_flush E W (on_time a)"
        using run True by (simp add: poll_flush_def)
      then show ?thesis
        using run True ds by (simp add: pauses_def poll_flush_def)
    next
      fix q w'
      assume "wr_poll_flush W (fst (ar_io b)) = (q, w')"
        "delayed_call (wr_poll_flush W) (ar_io b) = (q, (w', tl (snd (ar_io b))))"
      then show ?thesis
        using run True by (intro pauses_result) (simp_all add: poll_flush_def)
    qed
  next
    case False
    with run show ?thesis by (intro pauses_result) (simp_all add: poll_flush_def and_then_unit)
  qed
next
  fix reg b
  assume "poll_flush_buffered E (delayed_writer W) a = (Pending, b)"
    "poll_flush_buffered E W (on_time b) = poll_flush_buffered E W (on_time a)"
    "delays_left b < delays_left a" "ar_state b = ar_state a"
  then show ?thesis by (simp add: pauses_def poll_flush_def)
qed

lemma poll_flush_buffered_pauses:
  "pauses (poll_flush_buffered E W) a (poll_flush_buffered E (delayed_writer W) a)"
  by (rule poll_flush_buffered_delayed [of E W a]) (simp_all add: pauses_def)

lemma poll_flush_buffered_Ok:
  assumes "poll_flush_buffered E W a = (Ok (), b)"
  shows "ar_state b = ar_state a" and "poll_flush_buffered E W b = (Ok (), b)"
proof -
  obtain reg r reg' io where "buffered (ar_buf a) = Ok reg"
    "flush_loop (debug_assertions E) W reg (ar_io a) = (r, reg', io)"
    using assms by (auto simp: poll_flush_buffered_def and_then_eq_Ok) (metis prod_cases3)
  then have b: "b = a\<lparr>ar_buf := buf_clear (put_buffered (ar_buf a) reg'), ar_io := io\<rparr>"
    using assms by (cases r) (auto simp: poll_flush_buffered_def)
  then show "ar_state b = ar_state a" by simp
  show "poll_flush_buffered E W b = (Ok (), b)"
    by (rule poll_flush_buffered_cleared) (simp add: b)
qed

section \<open>The loops\<close>

lemma archive_take_marker_pauses:
  "pauses (archive_take_marker E h) a (archive_take_marker E h a)"
  by (rule pauses_result) (simp_all add: archive_take_marker_def split: prod.splits)

lemma poll_finish_catches_up:
  assumes "steady W" and "poll_finish E W (on_time a) = Some y"
  shows "catches_up (poll_finish E W) y a (poll_finish E (delayed_writer W) a)"
proof -
  have "steady W \<longrightarrow> poll_finish E W b = Some y \<and>
      (\<forall>a. on_time a = b \<longrightarrow> catches_up (poll_finish E W) y a (poll_finish E (delayed_writer W) a))"
    if "poll_finish E W b = Some y" for b
  proof (rule poll_finish.raw_induct [OF _ that], intro impI, goal_cases)
    case (1 f E W b y)
    note IH = "1"(1) and step = "1"(2) and steady = "1"(3)
    have piece: ?case
      if "loop_then (poll_write_data E W buf None b) (\<lambda>_. f E W) = Some y"
        and "\<And>c. ar_state c = ar_state b \<Longrightarrow>
          poll_finish E W c = loop_then (poll_write_data E W buf None c) (\<lambda>_. poll_finish E W)"
        and "\<And>a. on_time a = b \<Longrightarrow> poll_finish E (delayed_writer W) a =
          loop_then (poll_write_data E (delayed_writer W) buf None a)
            (\<lambda>_. poll_finish E (delayed_writer W))" for buf
      by (rule catches_up_iterate [OF poll_write_data_pauses [OF steady] that(1) _ that(2,3)])
        (use IH steady in auto)
    have panic: ?case
      if "y = (Panic p, b)" and "poll_finish E W b = Some (Panic p, b)"
        and "\<And>a. on_time a = b \<Longrightarrow> poll_finish E (delayed_writer W) a = Some (Panic p, a)" for p
      by (rule catches_up_return [where q = "\<lambda>b. (Panic p, b)" and q' = "\<lambda>a. (Panic p, a)"])
        (use that in auto)
    have slice: ?case if "ar_state b = ReceivingHeader rem True \<or> ar_state b = ReceivingEof rem" for rem
    proof (cases "rem \<le> 512")
      case True
      from that show ?thesis
        by (intro piece [of "take rem EMPTY_BLOCK"])
          (use step True in \<open>auto simp: poll_finish.simps slice_in_range\<close>)
    next
      case False
      with that show ?thesis
        by (intro panic [of IndexOutOfRange]) (use step in \<open>auto simp: poll_finish.simps slice_to_def\<close>)
    qed
    show ?case
    proof (cases "ar_state b")
      case ExpectingHeader
      with step show ?thesis
        by (intro piece [of EMPTY_BLOCK]) (auto simp: poll_finish.simps)
    next
      case (ReceivingHeader rem e)
      show ?thesis
      proof (cases e)
        case True
        with ReceivingHeader slice show ?thesis by simp
      next
        case False
        with ReceivingHeader step show ?thesis
          by (intro panic [of ExplicitPanic]) (auto simp: poll_finish.simps)
      qed
    next
      case (ReceivingEof rem)
      with slice show ?thesis by simp
    next
      case ReceivedEof
      let ?k = "\<lambda>(_ :: unit) a. case wr_poll_shutdown W (ar_io a) of (r, io) \<Rightarrow> Some (r, a\<lparr>ar_io := io\<rparr>)"
      let ?k' = "\<lambda>(_ :: unit) a. case wr_poll_shutdown (delayed_writer W) (ar_io a) of
        (r, io) \<Rightarrow> Some (r, a\<lparr>ar_io := io\<rparr>)"
      show ?thesis
      proof (rule catches_up_iterate [OF poll_flush_buffered_pauses, where f = ?k and k = ?k and k' = ?k'])
        show "loop_then (poll_flush_buffered E W b) ?k = Some y"
          using step ReceivedEof by simp
        show "poll_finish E W c = loop_then (poll_flush_buffered E W c) ?k" if "ar_state c = ar_state b" for c
          using that ReceivedEof by (simp add: poll_finish.simps)
        show "poll_finish E (delayed_writer W) a =
            loop_then (poll_flush_buffered E (delayed_writer W) a) ?k'" if "on_time a = b" for a
          using that ReceivedEof by (auto simp: poll_finish.simps)
        fix x c
        assume flushed: "poll_flush_buffered E W b = (Ok x, c)" and last: "?k x c = Some y"
        have again: "poll_finish E W c = Some y"
          using poll_flush_buffered_Ok [of E W b c] flushed last ReceivedEof by (simp add: poll_finish.simps)
        have "catches_up (poll_finish E W) y a (?k' x a)" if "on_time a = c" for a
        proof (rule delayed_callE [of "ar_io a" "wr_poll_shutdown W"])
          fix ds
          assume ds: "snd (ar_io a) = True # ds"
            "delayed_call (wr_poll_shutdown W) (ar_io a) = (Pending, (fst (ar_io a), ds))"
          have "c\<lparr>ar_io := fst (ar_io a)\<rparr> = c" using that by auto
          with ds again that show ?thesis by (simp add: catches_up_def)
        next
          fix r w'
          assume "wr_poll_shutdown W (fst (ar_io a)) = (r, w')"
            "delayed_call (wr_poll_shutdown W) (ar_io a) = (r, (w', tl (snd (ar_io a))))"
          with that last show ?thesis by (auto intro: catches_up_result)
        qed
        with last show "?k x c = Some y \<and>
            (\<forall>a. on_time a = c \<longrightarrow> catches_up (poll_finish E W) y a (?k' x a))" by blast
      qed
    qed (rule panic [of ExplicitPanic]; use step in \<open>auto simp: poll_finish.simps\<close>)+
  qed
  with assms show ?thesis by blast
qed

lemma poll_write_header_catches_up:
  assumes "steady W" and "poll_write_header E W hdr (on_time a) = Some y"
  shows "catches_up (poll_write_header E W hdr) y a (poll_write_header E (delayed_writer W) hdr a)"
proof -
  have "steady W \<longrightarrow> poll_write_header E W hdr b = Some y \<and> (\<forall>a. on_time a = b \<longrightarrow>
      catches_up (poll_write_header E W hdr) y a (poll_write_header E (delayed_writer W) hdr a))"
    if "poll_write_header E W hdr b = Some y" for b
  proof (rule poll_write_header.raw_induct [OF _ that], intro impI, goal_cases)
    case (1 f E W hdr b y)
    note IH = "1"(1) and step = "1"(2) and steady = "1"(3)
    have piece: ?case
      if "loop_then (poll_write_data E W buf (Some hdr) b) (\<lambda>n a.
          if n = 0 \<and> z then Some (Err (write_error_into WriteErrorZero), a) else f E W hdr a) = Some y"
        and "\<And>c. ar_state c = ar_state b \<Longrightarrow> poll_write_header E W hdr c =
          loop_then (poll_write_data E W buf (Some hdr) c) (\<lambda>n a.
            if n = 0 \<and> z then Some (Err (write_error_into WriteErrorZero), a)
            else poll_write_header E W hdr a)"
        and "\<And>a. on_time a = b \<Longrightarrow> poll_write_header E (delayed_writer W) hdr a =
          loop_then (poll_write_data E (delayed_writer W) buf (Some hdr) a) (\<lambda>n a.
            if n = 0 \<and> z then Some (Err (write_error_into WriteErrorZero), a)
            else poll_write_header E (delayed_writer W) hdr a)" for buf z
      by (rule catches_up_iterate [OF poll_write_data_pauses [OF steady] that(1) _ that(2,3)])
        (use IH steady in \<open>auto intro: catches_up_result split: if_splits\<close>)
    have return: ?case
      if "y = (r, b)" and "poll_write_header E W hdr b = Some (r, b)"
        and "\<And>a. on_time a = b \<Longrightarrow> poll_write_header E (delayed_writer W) hdr a = Some (r, a)" for r
      by (rule catches_up_return [where q = "\<lambda>b. (r, b)" and q' = "\<lambda>a. (r, a)"])
        (use that in auto)
    show ?case
    proof (cases "ar_state b")
      case ExpectingHeader
      with step show ?thesis
        by (intro piece [of hdr True, unfolded simp_thms]) (auto simp: poll_write_header.simps)
    next
      case (ReceivingHeader rem e)
      consider "e" | buf where "\<not> e" "bind_outcome (usize_sub (debug_assertions E) 512 rem) (slice_from hdr) = Ok buf"
        | "\<not> e" "\<And>buf. bind_outcome (usize_sub (debug_assertions E) 512 rem) (slice_from hdr) \<noteq> Ok buf"
        by blast
      then show ?thesis
      proof cases
        case 1
        with ReceivingHeader step show ?thesis
          by (intro return [of "Panic ExplicitPanic"]) (auto simp: poll_write_header.simps)
      next
        case (2 buf)
        with ReceivingHeader step show ?thesis
          by (intro piece [of buf "0 < rem"]) (auto simp: poll_write_header.simps bind_outcome_eq_Ok slice_in_range)
      next
        case 3
        define q where "q = bind_outcome (bind_outcome (usize_sub (debug_assertions E) 512 rem)
          (slice_from hdr)) (\<lambda>_. Ok () :: unit outcome)"
        show ?thesis
          by (rule return [of q])
            (use 3 ReceivingHeader step in \<open>auto simp: poll_write_header.simps q_def usize_sub_def
              slice_from_def split: if_splits\<close>)
      qed
    next
      case ReceivedHeader
      let ?q = "\<lambda>a. archive_take_marker E (Some hdr) a"
      show ?thesis
        by (rule catches_up_return [where q = ?q and q' = "archive_take_marker E (Some hdr)"])
          (use step ReceivedHeader in \<open>auto simp: poll_write_header.simps archive_take_marker_def
            split: prod.splits\<close>)
    qed (rule return [of "Panic ExplicitPanic"] return [of "Err (write_error_into OverlappingEntry)"];
        use step in \<open>auto simp: poll_write_header.simps\<close>)+
  qed
  with assms show ?thesis by blast
qed

lemma poll_finish_entry_catches_up:
  assumes "steady W" and "poll_finish_entry E W hdr (on_time a) = Some y"
  shows "catches_up (poll_finish_entry E W hdr) y a (poll_finish_entry E (delayed_writer W) hdr a)"
proof -
  have "steady W \<longrightarrow> poll_finish_entry E W hdr b = Some y \<and> (\<forall>a. on_time a = b \<longrightarrow>
      catches_up (poll_finish_entry E W hdr) y a (poll_finish_entry E (delayed_writer W) hdr a))"
    if "poll_finish_entry E W hdr b = Some y" for b
  proof (rule poll_finish_entry.raw_induct [OF _ that], intro impI, goal_cases)
    case (1 f E W hdr b y)
    note IH = "1"(1) and step = "1"(2) and steady = "1"(3)
    show ?case
    proof (cases "ar_state b")
      case ReceivedData
      show ?thesis
        by (rule catches_up_iterate [OF archive_take_marker_pauses [of E "Some hdr"],
              where f = "\<lambda>_. f E W hdr" and k = "\<lambda>_. poll_finish_entry E W hdr"
              and k' = "\<lambda>_. poll_finish_entry E (delayed_writer W) hdr"])
          (use IH steady step ReceivedData in \<open>auto simp: poll_finish_entry.simps\<close>)
    next
      case (AligningData rem)
      show ?thesis
      proof (cases "rem \<le> 512")
        case True
        show ?thesis
          by (rule catches_up_iterate [OF poll_write_data_pauses [OF steady, of E "take rem EMPTY_BLOCK" "Some hdr"],
                where f = "\<lambda>_. f E W hdr" and k = "\<lambda>_. poll_finish_entry E W hdr"
                and k' = "\<lambda>_. poll_finish_entry E (delayed_writer W) hdr"])
            (use IH steady step AligningData True in \<open>auto simp: poll_finish_entry.simps slice_in_range\<close>)
      next
        case False
        show ?thesis
          by (rule catches_up_return [where q = "\<lambda>b. (Panic IndexOutOfRange, b)"
                and q' = "\<lambda>a. (Panic IndexOutOfRange, a)"])
            (use step AligningData False in \<open>auto simp: poll_finish_entry.simps slice_to_def\<close>)
      qed
    next
      case AlignedData
      show ?thesis
        by (rule catches_up_return [where q = "archive_take_marker E None"
              and q' = "archive_take_marker E None"])
          (use step AlignedData in \<open>auto simp: poll_finish_entry.simps archive_take_marker_def
            split: prod.splits\<close>)
    next
      case ExpectingHeader
      show ?thesis
        by (rule catches_up_return [where q = "\<lambda>b. (Ok (), b)" and q' = "\<lambda>a. (Ok (), a)"])
          (use step ExpectingHeader in \<open>auto simp: poll_finish_entry.simps\<close>)
    qed (rule catches_up_return [where q = "\<lambda>b. (Panic ExplicitPanic, b)"
          and q' = "\<lambda>a. (Panic ExplicitPanic, a)"]; use step in \<open>auto simp: poll_finish_entry.simps\<close>)+
  qed
  with assms show ?thesis by blast
qed

section \<open>The operations\<close>

lemma add_entry_catches_up:
  assumes "steady W" and "add_entry E W hdr (on_time a) = Some y"
  shows "catches_up (add_entry E W hdr) y a (add_entry E (delayed_writer W) hdr a)"
proof -
  obtain y1 where y1: "poll_write_header E W hdr (on_time a) = Some y1"
      "loop_then y1 (\<lambda>_ a. Some (entry_new E hdr, a)) = Some y"
    using assms(2) by (auto simp: add_entry_def bind_eq_Some_conv)
  show ?thesis
    unfolding add_entry_def [of E "delayed_writer W"]
    by (rule catches_up_bind [OF poll_write_header_catches_up [OF assms(1) y1(1)] y1(2)])
      (auto simp: add_entry_def intro: catches_up_result)
qed

lemma poll_finish_entry_state:
  "poll_finish_entry E W hdr a = Some (Ok (), b) \<Longrightarrow> ar_state b = ExpectingHeader"
proof -
  assume "poll_finish_entry E W hdr a = Some (Ok (), b)"
  moreover have "fst y = Ok () \<longrightarrow> ar_state (snd y) = ExpectingHeader"
    if "poll_finish_entry E W hdr a = Some y" for y
  proof (rule poll_finish_entry.raw_induct [OF _ that], goal_cases)
    case (1 f E W hdr a y)
    have "ar_state b = ExpectingHeader" if "y = (Ok (), b)" for b
      using 1 that
      by (cases "ar_state a") (fastforce simp: loop_then_eq_Ok archive_take_marker_def take_marker_def)+
    then show ?case by (cases y) auto
  qed
  ultimately show ?thesis by fastforce
qed

lemma entry_poll_shutdown_catches_up:
  assumes "steady W" and "entry_poll_shutdown E W en (on_time a) = Some y"
  shows "catches_up (entry_poll_shutdown E W en) y a (entry_poll_shutdown E (delayed_writer W) en a)"
proof -
  let ?hdr = "en_header en"
  obtain y1 where y1: "poll_finish_entry E W ?hdr (on_time a) = Some y1"
      "loop_then y1 (\<lambda>_ a. Some (poll_flush E W a)) = Some y"
    using assms(2) by (auto simp: entry_poll_shutdown_def bind_eq_Some_conv)
  show ?thesis
    unfolding entry_poll_shutdown_def [of E "delayed_writer W"]
  proof (rule catches_up_bind [OF poll_finish_entry_catches_up [OF assms(1) y1(1)] y1(2)])
    fix x b
    assume finished: "y1 = (Ok x, on_time b)" and flush: "Some (poll_flush E W (on_time b)) = Some y"
    have b: "ar_state b = ExpectingHeader"
      using poll_finish_entry_state [of E W ?hdr "on_time a" "on_time b"] y1(1) finished by simp
    show "catches_up (entry_poll_shutdown E W en) y b (Some (poll_flush E (delayed_writer W) b))"
    proof (rule pausesE [OF poll_flush_pauses [of E W b]])
      fix r c
      assume "poll_flush E (delayed_writer W) b = (r, c)" "poll_flush E W (on_time b) = (r, on_time c)"
        "delays_left c \<le> delays_left b"
      with flush show ?thesis by (auto intro: catches_up_result)
    next
      fix c
      assume c: "poll_flush E (delayed_writer W) b = (Pending, c)"
        "poll_flush E W (on_time c) = poll_flush E W (on_time b)" "delays_left c < delays_left b"
        "ar_state c = ar_state b"
      then have "entry_poll_shutdown E W en (on_time c) = Some y"
        using flush b by (simp add: entry_poll_shutdown_def poll_finish_entry.simps)
      with c show ?thesis by (simp add: catches_up_def)
    qed
  qed (simp add: entry_poll_shutdown_def)
qed

text \<open>A write of one slice that leaves data to come: what follows the vectored write.\<close>

definition after_write ::
  "cfg \<Rightarrow> 'w writer \<Rightarrow> header \<Rightarrow> u64 \<Rightarrow> io_slice list \<Rightarrow> usize \<Rightarrow> 'w archive \<Rightarrow>
    (usize outcome \<times> 'w archive) option" where
  "after_write E W hdr rem bufs n a =
     (if word_of_nat n = rem then
        loop_then (assert_that (\<not> debug_assertions E \<or> bytes_len bufs = n), a) (\<lambda>_ a.
        loop_then
          (assert_that (\<not> debug_assertions E \<or> ar_state a = ReceivedData), a) (\<lambda>_ a.
        Option.bind (poll_finish_entry E W hdr a) (\<lambda>res.
          case res of
            (Ok _, a) \<Rightarrow> Some (Ok n, a)
          | (Err e, a) \<Rightarrow> Some (if debug_assertions E then Panic AssertFailed else Ok n, a)
          | (Pending, a) \<Rightarrow> Some (Pending, a)
          | (Panic p, a) \<Rightarrow> Some (Panic p, a))))
      else Some (Ok n, a))"

lemma poll_write_entry_eq:
  "ar_state a = ReceivingData rem \<Longrightarrow> poll_write_entry E W bufs hdr a =
    loop_then (poll_write_vectored E W bufs (unat rem) (Some hdr) a) (after_write E W hdr rem bufs)"
  by (simp add: poll_write_entry_def after_write_def [abs_def] cong del: loop_then_weak_cong)

lemma after_write_Ok:
  "after_write E W hdr rem bufs m a = Some (Ok n, b) \<Longrightarrow> m = n"
proof -
  assume run: "after_write E W hdr rem bufs m a = Some (Ok n, b)"
  show "m = n"
  proof (cases "word_of_nat m = rem")
    case True
    with run obtain r c where "(case (r :: unit outcome, c) of
          (Ok _, a) \<Rightarrow> Some (Ok m, a)
        | (Err e, a) \<Rightarrow> Some (if debug_assertions E then Panic AssertFailed else Ok m, a)
        | (Pending, a) \<Rightarrow> Some (Pending, a)
        | (Panic p, a) \<Rightarrow> Some (Panic p, a)) = Some (Ok n, b)"
      by (auto simp: after_write_def loop_then_eq_Ok bind_eq_Some_conv)
    then show ?thesis by (cases r) (auto split: if_splits)
  next
    case False
    with run show ?thesis by (simp add: after_write_def)
  qed
qed

definition write_at ::
  "u64 \<Rightarrow> cfg \<Rightarrow> 'w writer \<Rightarrow> entry \<Rightarrow> bytes \<Rightarrow> 'w archive \<Rightarrow> (usize outcome \<times> 'w archive) option"
  where
  "write_at rem E W en buf a =
     (if ar_state a = ReceivingData rem then entry_poll_write E W en buf a else None)"

lemma entry_poll_write_catches_up:
  assumes W: "steady W" and len: "length buf \<le> unat rem"
    and run: "write_at rem E W en buf (on_time a) = Some (Ok n, b)" and part: "word_of_nat n \<noteq> rem"
  shows "catches_up (write_at rem E W en buf) (Ok n, b) a (entry_poll_write E (delayed_writer W) en buf a)"
proof -
  let ?hdr = "en_header en"
  have st: "ar_state a = ReceivingData rem"
    using run by (auto simp: write_at_def split: if_splits)
  have prompt: "write_at rem E W en buf (on_time c) =
      loop_then (poll_write_vectored E W [buf] (unat rem) (Some ?hdr) (on_time c))
        (after_write E W ?hdr rem [buf])" if "ar_state c = ReceivingData rem" for c
    using that poll_write_entry_eq [of "on_time c" rem]
    by (simp add: write_at_def entry_poll_write_def entry_poll_write_vectored_def)
  have late: "entry_poll_write E (delayed_writer W) en buf a =
      loop_then (poll_write_vectored E (delayed_writer W) [buf] (unat rem) (Some ?hdr) a)
        (after_write E (delayed_writer W) ?hdr rem [buf])"
    using st by (simp add: entry_poll_write_def entry_poll_write_vectored_def poll_write_entry_eq)
  have pause: "pauses (poll_write_vectored E W [buf] (unat rem) (Some ?hdr)) a
      (poll_write_vectored E (delayed_writer W) [buf] (unat rem) (Some ?hdr) a)"
    using poll_write_vectored_pauses [OF W array_take_prefix_all [of "[buf]" "unat rem"]] len
    by (simp add: slices_simps)
  show ?thesis
    unfolding late
  proof (rule catches_up_step [OF pause])
    show "loop_then (poll_write_vectored E W [buf] (unat rem) (Some ?hdr) (on_time a))
        (after_write E W ?hdr rem [buf]) = Some (Ok n, b)"
      using prompt [OF st] run by simp
    show "write_at rem E W en buf (on_time c) = Some (Ok n, b)"
      if "ar_state c = ar_state a" "poll_write_vectored E W [buf] (unat rem) (Some ?hdr) (on_time c) =
        poll_write_vectored E W [buf] (unat rem) (Some ?hdr) (on_time a)" for c
      using prompt [of c] prompt [OF st] run that st by simp
    fix m c
    assume "after_write E W ?hdr rem [buf] m (on_time c) = Some (Ok n, b)"
    with after_write_Ok [OF this] part show "catches_up (write_at rem E W en buf) (Ok n, b) c
        (after_write E (delayed_writer W) ?hdr rem [buf] m c)"
      by (auto simp: after_write_def intro: catches_up_result)
  qed
qed

section \<open>The property of waiting for a sink\<close>

text \<open>
  C12. Waiting for the sink changes nothing: with an object that is not ready any number of times
  at any points, but otherwise steady (it prefers vectored writes always or never, and a write of
  nothing changes nothing), polling until there is an answer ends, and gives the result and the archive
  of a single call over the object without the delays, where that call ends with an answer. This
  holds for adding an entry, for finishing an entry or the archive, for flushing, and for a
  successful write of one slice of at most the missing bytes that does not complete the
  entry. (\<open>pending_after_accepting\<close> and \<open>write_error_swallowed\<close> say why not for other writes.)
\<close>

theorem writer_delays_do_not_matter:
  assumes "steady W"
  shows "(add_entry E W hdr (on_time a) = Some (r1, b1) \<and> r1 \<noteq> Pending \<longrightarrow>
      (\<exists>a1. await_loop (add_entry E (delayed_writer W) hdr) a = Some (r1, a1) \<and> on_time a1 = b1)) \<and>
    (entry_finish E W en (on_time a) = Some (r2, b2) \<and> r2 \<noteq> Pending \<longrightarrow>
      (\<exists>a2. await_loop (entry_finish E (delayed_writer W) en) a = Some (r2, a2) \<and> on_time a2 = b2)) \<and>
    (archive_finish E W (on_time a) = Some (r3, b3) \<and> r3 \<noteq> Pending \<longrightarrow>
      (\<exists>a3. await_loop (archive_finish E (delayed_writer W)) a = Some (r3, a3) \<and> on_time a3 = b3)) \<and>
    (entry_poll_flush E W en (on_time a) = (r4, b4) \<and> r4 \<noteq> Pending \<longrightarrow>
      (\<exists>a4. await (entry_poll_flush E (delayed_writer W) en) a = Some (r4, a4) \<and> on_time a4 = b4)) \<and>
    (ar_state a = ReceivingData rem \<and> length buf \<le> unat rem \<and>
      entry_poll_write E W en buf (on_time a) = Some (Ok n, b5) \<and> word_of_nat n \<noteq> rem \<longrightarrow>
      (\<exists>a5. await_loop (entry_poll_write E (delayed_writer W) en buf) a = Some (Ok n, a5) \<and>
        on_time a5 = b5))"
proof (intro conjI impI; elim conjE)
  assume "add_entry E W hdr (on_time a) = Some (r1, b1)" "r1 \<noteq> Pending"
  with catches_up_await [of "add_entry E W hdr" r1 b1] add_entry_catches_up [OF assms]
  show "\<exists>a1. await_loop (add_entry E (delayed_writer W) hdr) a = Some (r1, a1) \<and> on_time a1 = b1"
    by blast
next
  assume "entry_finish E W en (on_time a) = Some (r2, b2)" "r2 \<noteq> Pending"
  with catches_up_await [of "entry_poll_shutdown E W en" r2 b2]
    entry_poll_shutdown_catches_up [OF assms]
  show "\<exists>a2. await_loop (entry_finish E (delayed_writer W) en) a = Some (r2, a2) \<and> on_time a2 = b2"
    unfolding entry_finish_def [abs_def] by blast
next
  assume "archive_finish E W (on_time a) = Some (r3, b3)" "r3 \<noteq> Pending"
  with catches_up_await [of "poll_finish E W" r3 b3] poll_finish_catches_up [OF assms]
  show "\<exists>a3. await_loop (archive_finish E (delayed_writer W)) a = Some (r3, a3) \<and> on_time a3 = b3"
    unfolding archive_finish_def [abs_def] by blast
next
  assume "entry_poll_flush E W en (on_time a) = (r4, b4)" "r4 \<noteq> Pending"
  with resumes_await [OF pauses_resumes [OF poll_flush_pauses], of E W a r4 b4]
  show "\<exists>a4. await (entry_poll_flush E (delayed_writer W) en) a = Some (r4, a4) \<and> on_time a4 = b4"
    unfolding entry_poll_flush_def [abs_def] by blast
next
  assume "ar_state a = ReceivingData rem" "length buf \<le> unat rem"
    "entry_poll_write E W en buf (on_time a) = Some (Ok n, b5)" "word_of_nat n \<noteq> rem"
  moreover from this have "write_at rem E W en buf (on_time a) = Some (Ok n, b5)"
    by (simp add: write_at_def)
  ultimately show "\<exists>a5. await_loop (entry_poll_write E (delayed_writer W) en buf) a = Some (Ok n, a5) \<and>
      on_time a5 = b5"
    using catches_up_await [of "write_at rem E W en buf" "Ok n" b5]
      entry_poll_write_catches_up [OF assms] by blast
qed

lemma chunk_writer_steady: "steady (chunk_writer k v)"
  by (simp add: steady_def chunk_writer_def)

theorem writer_delays_do_not_matter_witness:
  "(\<exists>a1. await_loop (add_entry (sample_cfg True) (delayed_writer (chunk_writer 100 True)) (sample_header 3))
        \<lparr>ar_buf = buf_new 512, ar_state = ExpectingHeader, ar_io = ([], [True, False, True, True])\<rparr> =
      Some (Ok \<lparr>en_header = sample_header 3\<rparr>, a1) \<and>
    written (\<lambda>w. w) (on_time a1) = sample_header 3) \<and>
   (\<exists>a3. await_loop (archive_finish (sample_cfg True) (delayed_writer (chunk_writer 100 True)))
        \<lparr>ar_buf = buf_new 512, ar_state = ExpectingHeader, ar_io = ([], [True, True, False, True])\<rparr> =
      Some (Ok (), a3) \<and> fst (ar_io a3) = replicate 1024 0) \<and>
   (\<exists>n a5. await_loop (entry_poll_write (sample_cfg True) (delayed_writer (chunk_writer 100 True))
        \<lparr>en_header = sample_header 3\<rparr> [1, 2])
        \<lparr>ar_buf = buf_new 512, ar_state = ReceivingData 3, ar_io = ([], [True])\<rparr> =
      Some (Ok n, a5) \<and> 0 < n \<and> n \<le> 2 \<and> written (\<lambda>w. w) (on_time a5) = take n [1, 2])"
proof (intro conjI)
  let ?E = "sample_cfg True" and ?W = "chunk_writer 100 True"
  note sink = chunk_writer_appends [of 100 True] chunk_writer_willing [of 100 True, simplified]
  note wait = writer_delays_do_not_matter [OF chunk_writer_steady [of 100 True], of ?E]
  let ?a = "\<lparr>ar_buf = buf_new 512, ar_state = ExpectingHeader, ar_io = ([], [True, False, True, True])\<rparr>
    :: (bytes \<times> bool list) archive"
  have a: "archive_wf (on_time ?a)" "ar_state (on_time ?a) = ExpectingHeader"
      "written (\<lambda>w. w) (on_time ?a) = []"
    by (simp_all add: on_time_def written_def)
  obtain b1 where b1: "poll_write_header ?E ?W (sample_header 3) (on_time ?a) = Some (Ok (), b1)"
      "written (\<lambda>w. w) b1 = sample_header 3"
    by (rule write_header [OF a(1) sink a(2), of "sample_header 3" ?E 3]) (simp_all add: a(3))
  have "add_entry ?E ?W (sample_header 3) (on_time ?a) = Some (Ok \<lparr>en_header = sample_header 3\<rparr>, b1)"
    using b1(1) valid_headerD(5) [OF valid_sample_header [of True 3]] by (simp add: add_entry_def)
  with wait [THEN conjunct1, of "sample_header 3" ?a] b1(2)
  show "\<exists>a1. await_loop (add_entry ?E (delayed_writer ?W) (sample_header 3)) ?a =
      Some (Ok \<lparr>en_header = sample_header 3\<rparr>, a1) \<and> written (\<lambda>w. w) (on_time a1) = sample_header 3"
    by blast
  let ?b = "\<lparr>ar_buf = buf_new 512, ar_state = ExpectingHeader, ar_io = ([], [True, True, False, True])\<rparr>
    :: (bytes \<times> bool list) archive"
  have b: "archive_wf (on_time ?b)" "ar_state (on_time ?b) = ExpectingHeader"
      "written (\<lambda>w. w) (on_time ?b) = []"
    by (simp_all add: on_time_def written_def)
  obtain b3 where b3: "poll_finish ?E ?W (on_time ?b) = Some (Ok (), b3)" "ar_io b3 = replicate 1024 0"
    by (rule finish_archive [OF b(1) sink b(2), of ?E]) (simp add: b(3) make_eof_data_def)
  with wait [THEN conjunct2, THEN conjunct2, THEN conjunct1, of ?b "Ok ()" b3]
  obtain a3 where "await_loop (archive_finish ?E (delayed_writer ?W)) ?b = Some (Ok (), a3)"
      "on_time a3 = b3"
    by (auto simp: archive_finish_def [abs_def])
  with b3(2) show "\<exists>a3. await_loop (archive_finish ?E (delayed_writer ?W)) ?b = Some (Ok (), a3) \<and>
      fst (ar_io a3) = replicate 1024 0"
    by (metis on_time_simps(3))
  let ?c = "\<lparr>ar_buf = buf_new 512, ar_state = ReceivingData 3, ar_io = ([], [True])\<rparr>
    :: (bytes \<times> bool list) archive"
  have c: "archive_wf (on_time ?c)" "ar_state (on_time ?c) = ReceivingData 3"
      "written (\<lambda>w. w) (on_time ?c) = []"
    by (simp_all add: on_time_def written_def)
  obtain n b5 where n: "entry_poll_write ?E ?W \<lparr>en_header = sample_header 3\<rparr> [1, 2] (on_time ?c) =
        Some (Ok n, b5)" "0 < n" "n \<le> 2" "n \<noteq> 3 \<Longrightarrow> written (\<lambda>w. w) b5 = take n [1, 2]"
    by (rule entry_write [OF c(1) sink c(2), of "[1, 2]" ?E "\<lparr>en_header = sample_header 3\<rparr>" 3])
      (auto simp: c(3) split: if_splits)
  have "word_of_nat n \<noteq> (3 :: u64)"
  proof -
    have "n = 1 \<or> n = 2" using n(2,3) by auto
    then show ?thesis by auto
  qed
  with wait [THEN conjunct2, THEN conjunct2, THEN conjunct2, THEN conjunct2, of ?c 3 "[1, 2]"
      "\<lparr>en_header = sample_header 3\<rparr>" n b5] n c(2)
  show "\<exists>n a5. await_loop (entry_poll_write ?E (delayed_writer ?W) \<lparr>en_header = sample_header 3\<rparr> [1, 2]) ?c =
      Some (Ok n, a5) \<and> 0 < n \<and> n \<le> 2 \<and> written (\<lambda>w. w) (on_time a5) = take n [1, 2]"
    by fastforce
qed

end
