(* ===== verification/Waiting.thy ===== *)
theory Waiting
  imports Reader_Calls Delays
begin

text \<open>
  Waiting for the source (\<open>src/read/mod.rs\<close>): a source that is not ready makes the poll
  functions return \<open>Pending\<close> in the middle of their work; the executor polls them again
  later, and they start over from the state they left. The result does not depend on how
  often and where that happens.
\<close>

section \<open>Delayed sources\<close>

text \<open>
  A source with a schedule: \<open>True\<close> means that the next call finds it not ready, \<open>False\<close>
  that it answers; an empty schedule means that it always answers from then on.
\<close>

definition delayed :: "'r reader \<Rightarrow> ('r \<times> bool list) reader" where
  "delayed read = (\<lambda>(r, delays) room.
     case delays of
       True # ds \<Rightarrow> (Pending, (r, ds))
     | _ \<Rightarrow> (case read r room of (res, r') \<Rightarrow> (res, (r', tl delays))))"

section \<open>Filling the buffer\<close>

lemma poll_read_io_stalls:
  "stalls a (poll_read_io read room (on_time a)) (poll_read_io (delayed read) room a)"
proof -
  obtain r ds where io: "ar_io a = (r, ds)" by (cases "ar_io a")
  show ?thesis
  proof (cases "\<exists>ds'. ds = True # ds'")
    case True
    then obtain ds' where ds: "ds = True # ds'" ..
    have "poll_read_io (delayed read) room a = (Pending, a\<lparr>ar_io := (r, ds')\<rparr>)"
      using io ds by (simp add: poll_read_io_def delayed_def)
    then show ?thesis
      using io ds by (auto simp: stalls_def on_time_def)
  next
    case False
    then have "delayed read (r, ds) room = (case read r room of (res, r') \<Rightarrow> (res, (r', tl ds)))"
      by (auto simp: delayed_def split: list.splits bool.splits)
    with io show ?thesis
      by (auto simp: stalls_def poll_read_io_def split: prod.splits outcome.splits)
  qed
qed

lemma poll_fill_buf_stalls:
  "stalls a (poll_fill_buf read (on_time a)) (poll_fill_buf (delayed read) a)"
proof (cases "buffered_bytes (ar_buf a) = Ok [] \<and> (\<exists>dst. available_bytes_mut (ar_buf a) = Ok dst)")
  case True
  then obtain dst where "buffered_bytes (ar_buf a) = Ok []" "available_bytes_mut (ar_buf a) = Ok dst"
    by blast
  then show ?thesis
    unfolding poll_fill_buf_def
    by (simp, intro stalls_and_then [OF poll_read_io_stalls] io_rules) simp_all
next
  case False
  then show ?thesis
    by (cases "buffered_bytes (ar_buf a)"; cases "available_bytes_mut (ar_buf a)")
      (auto simp: poll_fill_buf_def intro!: stalls_now)
qed

lemma poll_next_state_stalls:
  "stalls a (poll_next_state E read h (on_time a)) (poll_next_state E (delayed read) h a)"
  unfolding poll_next_state_def
  by (intro stalls_and_then [OF poll_fill_buf_stalls] io_rules) simp_all

lemma archive_consume_keeps_io [io_rules]:
  "keeps_io (\<lambda>x. archive_consume E (amt x) (h x)) (\<lambda>x. archive_consume E (amt x) (h x))"
  unfolding archive_consume_def
  by (intro io_rules) simp_all

section \<open>The operations resume\<close>

lemma resumes_from:
  assumes "resumes g b m" and "g (on_time a) = g (on_time b)" and "delays_left b \<le> delays_left a"
    and "\<not> is_terminal (ar_state b)"
  shows "resumes g a m"
  using assms by (auto simp: resumes_def)

lemma resumes_pending:
  assumes "on_time b = on_time a" and "delays_left b < delays_left a"
  shows "resumes g a (Pending, b)"
  using assms on_time_simps(2) [of a] on_time_simps(2) [of b] by (simp add: resumes_def)

lemma resumes_result:
  "g (on_time a) = map_prod id on_time m \<Longrightarrow> delays_left (snd m) \<le> delays_left a \<Longrightarrow> resumes g a m"
  by (simp add: resumes_def)

lemma consume_on_time:
  assumes "archive_consume E amt h a = (r, b)"
  shows "archive_consume E amt h (on_time a) = (r, on_time b)" and "ar_io b = ar_io a"
  using keeps_ioD [OF archive_consume_keeps_io [of E "\<lambda>_. amt" "\<lambda>_. h"], of a] assms by simp_all

text \<open>Consuming and going on with a loop.\<close>

lemma resumes_consume_loop:
  assumes "g (on_time a) = and_then (archive_consume E amt h (on_time b)) (\<lambda>_. g)"
    and "delays_left b \<le> delays_left a"
    and "\<And>c. archive_consume E amt h b = (Ok (), c) \<Longrightarrow>
      resumes g c (f c) \<and> \<not> is_terminal (ar_state c)"
  shows "resumes g a (and_then (archive_consume E amt h b) (\<lambda>_. f))"
proof -
  obtain r c where c: "archive_consume E amt h b = (r, c)" by (cases "archive_consume E amt h b")
  note base = consume_on_time [OF c]
  show ?thesis
  proof (cases r)
    case (Ok x)
    then show ?thesis
      using assms c base by (auto intro!: resumes_from [of g c])
  qed (use assms(1,2) c base in \<open>auto intro!: resumes_result\<close>)
qed

text \<open>The loops go on only where the archive has not ended.\<close>

lemma state_next_eof: "state_next E s buf h = Ok (st, n) \<Longrightarrow> st \<noteq> ReceivingEof 0"
  by (cases s) (auto simp: Let_def next_receiving_data_def bind_outcome_eq_Ok split: if_splits prod.splits)

lemma settle_not_terminal:
  assumes "settle E None st = Ok s"
    and "(\<exists>rem e. st = ReceivingHeader rem e) \<or> (\<exists>rem. st = ReceivingEof rem) \<or>
      (\<exists>rem. st = AligningData rem) \<or> st = AlignedData"
    and "st \<noteq> ReceivingEof 0"
  shows "\<not> is_terminal s"
  using assms
  by (cases st) (auto simp: settle_def read_run_def advance_def split: if_splits)

lemma loop_not_terminal:
  assumes next_eq: "poll_next_state E read h a = (Ok (st, amt), b)"
    and consume: "archive_consume E amt None b = (Ok (), c)"
    and st: "(\<exists>rem e. st = ReceivingHeader rem e) \<or> (\<exists>rem. st = ReceivingEof rem) \<or>
      (\<exists>rem. st = AligningData rem) \<or> st = AlignedData"
  shows "\<not> is_terminal (ar_state c)"
proof -
  obtain buf where buf: "ar_state b = ar_state a" "state_next E (ar_state a) buf h = Ok (st, amt)"
    using poll_next_state_OkD [OF next_eq] by metis
  have "settle E None st = Ok (ar_state c)"
    using consume_reported [OF next_eq consume] consume_without_header [OF consume] buf(1) by simp
  from settle_not_terminal [OF this st state_next_eof [OF buf(2)]] show ?thesis .
qed

lemma next_entry_loop_resumes:
  "resumes (next_entry_loop E read) a (next_entry_loop E (delayed read) a)"
proof (induction E "delayed read" a rule: next_entry_loop.induct)
  case (1 E a)
  note unfold = next_entry_loop.simps [of E "delayed read" a] next_entry_loop.simps [of E read "on_time a"]
  show ?case
  proof (rule stallsE [OF poll_next_state_stalls [of a E read None]])
    fix b
    assume "poll_next_state E (delayed read) None a = (Pending, b)" "on_time b = on_time a"
      "delays_left b < delays_left a"
    then show ?thesis by (simp add: unfold resumes_pending)
  next
    fix r b
    assume late: "poll_next_state E (delayed read) None a = (r, b)"
      and prompt: "poll_next_state E read None (on_time a) = (r, on_time b)"
      and left: "delays_left b \<le> delays_left a"
    show ?thesis
    proof (cases r)
      case (Ok x)
      obtain st amt where x: "x = (st, amt)" by (cases x)
      have loop: "resumes (next_entry_loop E read) a
          (and_then (archive_consume E amt None b) (\<lambda>_. next_entry_loop E (delayed read)))"
        if "next_entry_loop E read (on_time a) =
          and_then (archive_consume E amt None (on_time b)) (\<lambda>_. next_entry_loop E read)"
          "\<And>c. archive_consume E amt None b = (Ok (), c) \<Longrightarrow>
            resumes (next_entry_loop E read) c (next_entry_loop E (delayed read) c)"
          "(\<exists>rem e. st = ReceivingHeader rem e) \<or> (\<exists>rem. st = ReceivingEof rem) \<or>
            (\<exists>rem. st = AligningData rem) \<or> st = AlignedData"
        by (rule resumes_consume_loop [OF that(1) left conjI [OF that(2)]])
          (use loop_not_terminal [OF late [unfolded Ok x] _ that(3)] in auto)
      show ?thesis
      proof (cases st)
        case (ReceivingHeader rem e)
        with loop "1.hyps" late prompt Ok x show ?thesis by (simp add: unfold)
      next
        case (ReceivingEof rem)
        with loop "1.hyps" late prompt Ok x show ?thesis by (simp add: unfold)
      next
        case (AligningData rem)
        with loop "1.hyps" late prompt Ok x show ?thesis by (simp add: unfold)
      next
        case AlignedData
        with loop "1.hyps" late prompt Ok x show ?thesis by (simp add: unfold)
      next
        case ReceivedHeader
        have "keeps_io
          (\<lambda>(_ :: unit) a.
            and_then (buffered_bytes (ar_buf a), a) (\<lambda>buf a.
            and_then (slice_to buf BLOCK_SIZE, a) (\<lambda>block a.
            and_then (from_bytes block, a) (\<lambda>block a.
            and_then (as_header E block, a) (\<lambda>header a.
            and_then (archive_consume E amt (Some header) a) (\<lambda>_ a.
            and_then (entry_new E header, a) (\<lambda>entry a. (Ok (Some entry), a))))))))
          (\<lambda>_ a.
            and_then (buffered_bytes (ar_buf a), a) (\<lambda>buf a.
            and_then (slice_to buf BLOCK_SIZE, a) (\<lambda>block a.
            and_then (from_bytes block, a) (\<lambda>block a.
            and_then (as_header E block, a) (\<lambda>header a.
            and_then (archive_consume E amt (Some header) a) (\<lambda>_ a.
            and_then (entry_new E header, a) (\<lambda>entry a. (Ok (Some entry), a))))))))"
          by (intro io_rules) simp_all
        from keeps_ioD [OF this, of b] ReceivedHeader late prompt Ok x left show ?thesis
          by (simp add: unfold resumes_def)
      next
        case ReceivedEof
        have "keeps_io (\<lambda>(_ :: unit) a. and_then (archive_consume E amt None a) (\<lambda>_ a. (Ok None, a)))
          (\<lambda>_ a. and_then (archive_consume E amt None a) (\<lambda>_ a. (Ok (None :: entry option), a)))"
          by (intro io_rules) simp_all
        from keeps_ioD [OF this, of b] ReceivedEof late prompt Ok x left show ?thesis
          by (simp add: unfold resumes_def)
      qed (use late prompt Ok x left in \<open>simp_all add: unfold resumes_def\<close>)
    qed (use late prompt left in \<open>simp_all add: unfold resumes_def\<close>)
  qed
qed

lemma next_entry_poll_resumes:
  "resumes (next_entry_poll E read) a (next_entry_poll E (delayed read) a)"
proof -
  have eq: "next_entry_poll E read b =
      (if is_terminal (ar_state b) then (Ok None, b) else next_entry_loop E read b)"
    for read :: "'c reader" and b
    by (cases "poll_next_entry E read b"; cases "fst (poll_next_entry E read b)")
      (auto simp: next_entry_poll_def poll_next_entry_def split: option.splits)
  show ?thesis
  proof (cases "is_terminal (ar_state a)")
    case True
    then show ?thesis by (simp add: resumes_def eq)
  next
    case False
    have "resumes (next_entry_loop E read) a (next_entry_loop E (delayed read) a)"
      by (rule next_entry_loop_resumes)
    with False show ?thesis
      unfolding resumes_def eq by auto
  qed
qed

lemma poll_read_entry_resumes:
  "resumes (poll_read_entry E read hdr) a (poll_read_entry E (delayed read) hdr a)"
proof (induction E "delayed read" hdr a rule: poll_read_entry.induct)
  case (1 E hdr a)
  note unfold = poll_read_entry.simps [of E "delayed read" hdr a]
    poll_read_entry.simps [of E read hdr "on_time a"]
  have data: "keeps_io
      (\<lambda>amt a. and_then (buffered_bytes (ar_buf a), a) (\<lambda>buf a. (slice_to buf amt, a)))
      (\<lambda>amt a. and_then (buffered_bytes (ar_buf a), a) (\<lambda>buf a. (slice_to buf amt, a)))"
    by (intro io_rules) simp_all
  have last: "keeps_io
      (\<lambda>amt a. and_then (archive_consume E amt (Some hdr) a) (\<lambda>_ a. (Ok [], a)))
      (\<lambda>amt a. and_then (archive_consume E amt (Some hdr) a) (\<lambda>_ a. (Ok ([] :: bytes), a)))"
    by (intro io_rules) simp_all
  show ?case
  proof (rule stallsE [OF poll_next_state_stalls [of a E read "Some hdr"]])
    fix b
    assume "poll_next_state E (delayed read) (Some hdr) a = (Pending, b)" "on_time b = on_time a"
      "delays_left b < delays_left a"
    then show ?thesis by (simp add: unfold resumes_pending)
  next
    fix r b
    assume late: "poll_next_state E (delayed read) (Some hdr) a = (r, b)"
      and prompt: "poll_next_state E read (Some hdr) (on_time a) = (r, on_time b)"
      and left: "delays_left b \<le> delays_left a"
    show ?thesis
    proof (cases r)
      case (Ok x)
      obtain st amt where x: "x = (st, amt)" by (cases x)
      show ?thesis
      proof (cases st)
        case (AligningData rem)
        with late prompt Ok x show ?thesis
          using resumes_consume_loop [of "poll_read_entry E read hdr" a E amt None b
              "poll_read_entry E (delayed read) hdr"] left "1.hyps"
            loop_not_terminal [of E "delayed read" "Some hdr" a st amt b]
          by (simp add: unfold)
      next
        case AlignedData
        with keeps_ioD [OF last, where x = amt and a = b] late prompt Ok x left show ?thesis
          by (simp add: unfold resumes_def)
      next
        case (ReceivingData rem)
        with keeps_ioD [OF data, where x = amt and a = b] late prompt Ok x left show ?thesis
          by (simp add: unfold resumes_def)
      next
        case ReceivedData
        with keeps_ioD [OF data, where x = amt and a = b] late prompt Ok x left show ?thesis
          by (simp add: unfold resumes_def)
      qed (use late prompt Ok x left in \<open>simp_all add: unfold resumes_def\<close>)
    qed (use late prompt left in \<open>simp_all add: unfold resumes_def\<close>)
  qed
qed

lemma poll_skip_entry_resumes:
  "resumes (poll_skip_entry E read hdr) a (poll_skip_entry E (delayed read) hdr a)"
proof (induction E "delayed read" hdr a rule: poll_skip_entry.induct)
  case (1 E hdr a)
  note unfold = poll_skip_entry.simps [of E "delayed read" hdr]
    poll_skip_entry.simps [of E read hdr]
  obtain r b where late: "poll_read_entry E (delayed read) hdr a = (r, b)"
    by (cases "poll_read_entry E (delayed read) hdr a")
  with poll_read_entry_resumes [of E read hdr a] consider
      "poll_read_entry E read hdr (on_time a) = (r, on_time b)" "delays_left b \<le> delays_left a"
    | "r = Pending" "poll_read_entry E read hdr (on_time b) = poll_read_entry E read hdr (on_time a)"
      "delays_left b < delays_left a" "is_terminal (ar_state b) \<longrightarrow> is_terminal (ar_state a)"
    by (auto simp: resumes_def)
  then show ?case
  proof cases
    case 1
    show ?thesis
    proof (cases r)
      case (Ok bs)
      show ?thesis
      proof (cases "bs = []")
        case False
        have "resumes (poll_skip_entry E read hdr) a
            (and_then (archive_consume E (length bs) (Some hdr) b)
              (\<lambda>_. poll_skip_entry E (delayed read) hdr))"
        proof (rule resumes_consume_loop [OF _ 1(2)])
          show "poll_skip_entry E read hdr (on_time a) =
              and_then (archive_consume E (length bs) (Some hdr) (on_time b))
                (\<lambda>_. poll_skip_entry E read hdr)"
            using 1 Ok False by (subst poll_skip_entry.simps) simp
          fix c
          assume c: "archive_consume E (length bs) (Some hdr) b = (Ok (), c)"
          have "\<not> is_terminal (ar_state c)"
            by (rule skip_entry_state [OF late [unfolded Ok] False c]) simp_all
          with "1.hyps" late Ok False c show "resumes (poll_skip_entry E read hdr) c
              (poll_skip_entry E (delayed read) hdr c) \<and> \<not> is_terminal (ar_state c)"
            by simp
        qed
        with Ok False late show ?thesis by (simp add: unfold(1) [of a])
      qed (use 1 Ok late in \<open>simp add: unfold(1) [of a] unfold(2) [of "on_time a"] resumes_def\<close>)
    qed (use 1 late in \<open>simp_all add: unfold(1) [of a] unfold(2) [of "on_time a"] resumes_def\<close>)
  next
    case 2
    then show ?thesis
      using late by (simp add: unfold(1) [of a] unfold(2) [of "on_time a"] unfold(2) [of "on_time b"]
          resumes_def)
  qed
qed

lemma entry_poll_read_resumes:
  "resumes (entry_poll_read E read en room) a (entry_poll_read E (delayed read) en room a)"
proof (cases "room = 0")
  case True
  then show ?thesis by (simp add: entry_poll_read_def resumes_def)
next
  case False
  have rest: "keeps_io
     (\<lambda>bytes a.
        let len = min (length bytes) room in
        and_then (slice_to bytes len, a) (\<lambda>put a.
        and_then (entry_consume E en len a) (\<lambda>_ a. (Ok put, a))))
     (\<lambda>bytes a.
        let len = min (length bytes) room in
        and_then (slice_to bytes len, a) (\<lambda>put a.
        and_then (entry_consume E en len a) (\<lambda>_ a. (Ok put, a))))"
    unfolding Let_def entry_consume_def by (intro io_rules) simp_all
  from resumes_and_then [OF poll_read_entry_resumes rest, of E read "en_header en" a] False
  show ?thesis
    by (simp add: entry_poll_read_def entry_poll_fill_buf_def resumes_def)
qed

section \<open>The property of waiting\<close>

text \<open>
  C11. Waiting changes nothing: over a source that is not ready any number of times at any
  points, also in the middle of a call, polling \<open>next_entry\<close>, a read or a skip until it
  answers ends, and gives the result and the archive of a single call over the same source
  without the delays.
\<close>

theorem delays_do_not_matter:
  "(next_entry_poll E read (on_time a) = (r1, b1) \<and> r1 \<noteq> Pending \<longrightarrow>
      (\<exists>a1. await (next_entry_poll E (delayed read)) a = Some (r1, a1) \<and> on_time a1 = b1)) \<and>
    (entry_poll_read E read en room (on_time a) = (r2, b2) \<and> r2 \<noteq> Pending \<longrightarrow>
      (\<exists>a2. await (entry_poll_read E (delayed read) en room) a = Some (r2, a2) \<and> on_time a2 = b2)) \<and>
    (entry_poll_skip E read en (on_time a) = (r3, b3) \<and> r3 \<noteq> Pending \<longrightarrow>
      (\<exists>a3. await (entry_poll_skip E (delayed read) en) a = Some (r3, a3) \<and> on_time a3 = b3))"
proof -
  have "resumes (entry_poll_skip E read en) b (entry_poll_skip E (delayed read) en b)" for b
    using poll_skip_entry_resumes by (simp add: resumes_def entry_poll_skip_def)
  from resumes_await [OF next_entry_poll_resumes] resumes_await [OF entry_poll_read_resumes]
    resumes_await [OF this]
  show ?thesis by blast
qed

theorem delays_do_not_matter_witness:
  "(\<exists>a1 b1. await (next_entry_poll (sample_cfg True) (delayed cursor_read))
        \<lparr>ar_buf = buf_new 512, ar_state = ExpectingHeader,
          ar_io = (archive_bytes [(sample_header 3, [7, 8, 9])], [True, False, True])\<rparr> =
      Some (Ok (Some \<lparr>en_header = sample_header 3\<rparr>), a1) \<and>
    on_time a1 = b1 \<and> unread (\<lambda>r. r) b1 = [7, 8, 9] @ replicate 509 0 @ archive_bytes []) \<and>
   (\<exists>a2 m. await (entry_poll_read (sample_cfg True) (delayed cursor_read) \<lparr>en_header = sample_header 3\<rparr> 2)
        \<lparr>ar_buf = buf_new 512, ar_state = ReceivingData 3, ar_io = ([7, 8, 9], [True, True])\<rparr> =
      Some (Ok (take m [7, 8, 9]), a2) \<and> 0 < m) \<and>
   (\<exists>a3. await (entry_poll_skip (sample_cfg True) (delayed cursor_read) \<lparr>en_header = sample_header 3\<rparr>)
        \<lparr>ar_buf = buf_new 512, ar_state = ReceivingData 3,
          ar_io = ([7, 8, 9] @ replicate 509 0 @ [1], [True, True])\<rparr> =
      Some (Ok (), a3) \<and> ar_state (on_time a3) = ExpectingHeader)"
proof (intro conjI)
  have seq: "sequential cursor_read (\<lambda>r. r)"
    using cursor_block_source by (simp add: block_source_def)
  have hdr: "valid_header (sample_cfg True) (sample_header 3) 3"
    using valid_sample_header [of True 3] by simp
  have pad: "padding 512 3 = 509" by (simp add: padding_def)
  let ?a1 = "\<lparr>ar_buf = buf_new 512, ar_state = ExpectingHeader,
    ar_io = (archive_bytes [(sample_header 3, [7, 8, 9])], [True, False, True])\<rparr>"
  have start: "archive_with_capacity (archive_bytes [(sample_header 3, [7, 8, 9])]) 1 = Ok (on_time ?a1)"
    by (simp add: archive_with_capacity_def checked_mul_def usize_max_def usize_bits_def
        state_default_def on_time_def)
  have stream: "archive_bytes [(sample_header 3, [7, 8, 9])] =
      sample_header 3 @ [7, 8, 9] @ replicate 509 0 @ archive_bytes []"
    by (simp add: archive_bytes_def entry_bytes_def padding_def)
  obtain b1 where "next_entry_poll (sample_cfg True) cursor_read (on_time ?a1) =
        (Ok (Some \<lparr>en_header = sample_header 3\<rparr>), b1)"
      "unread (\<lambda>r. r) b1 = [7, 8, 9] @ replicate 509 0 @ archive_bytes []"
    by (rule first_entry [OF cursor_block_source _ start hdr stream]) (simp, rule that)
  then show "\<exists>a1 b1. await (next_entry_poll (sample_cfg True) (delayed cursor_read)) ?a1 =
      Some (Ok (Some \<lparr>en_header = sample_header 3\<rparr>), a1) \<and>
    on_time a1 = b1 \<and> unread (\<lambda>r. r) b1 = [7, 8, 9] @ replicate 509 0 @ archive_bytes []"
    using delays_do_not_matter [where E = "sample_cfg True" and read = cursor_read and a = ?a1] by blast
  let ?a2 = "\<lparr>ar_buf = buf_new 512, ar_state = ReceivingData 3, ar_io = ([7, 8, 9], [True, True])\<rparr>"
  have two: "archive_wf (on_time ?a2)" "unread (\<lambda>r. r) (on_time ?a2) = [7, 8, 9]"
      "ar_state (on_time ?a2) = ReceivingData 3"
    by (simp_all add: on_time_def unread_def)
  obtain m b2 where "entry_poll_read (sample_cfg True) cursor_read \<lparr>en_header = sample_header 3\<rparr> 2
      (on_time ?a2) = (Ok (take m [7, 8, 9]), b2)" "0 < m"
    by (rule entry_read_data [OF two(1) seq _ two(3), of 2 "sample_cfg True"
          "\<lparr>en_header = sample_header 3\<rparr>" 3]) (simp_all add: two(2))
  then show "\<exists>a2 m. await (entry_poll_read (sample_cfg True) (delayed cursor_read)
      \<lparr>en_header = sample_header 3\<rparr> 2) ?a2 = Some (Ok (take m [7, 8, 9]), a2) \<and> 0 < m"
    using delays_do_not_matter [where E = "sample_cfg True" and read = cursor_read and a = ?a2] by blast
  let ?a3 = "\<lparr>ar_buf = buf_new 512, ar_state = ReceivingData 3,
    ar_io = ([7, 8, 9] @ replicate 509 0 @ [1], [True, True])\<rparr>"
  have three: "archive_wf (on_time ?a3)" "ar_state (on_time ?a3) = ReceivingData 3"
      "unread (\<lambda>r. r) (on_time ?a3) = [7, 8, 9] @ replicate 509 0 @ [1]"
    by (simp_all add: on_time_def unread_def)
  obtain b3 where "poll_skip_entry (sample_cfg True) cursor_read (sample_header 3) (on_time ?a3) =
      (Ok (), b3)" and b3: "ar_state b3 = ExpectingHeader"
    by (rule skip_entry_rest [OF three(1) seq _ three(3), of 3 3 "sample_cfg True" "sample_header 3"])
      (simp_all add: three(2) pad)
  then have "entry_poll_skip (sample_cfg True) cursor_read \<lparr>en_header = sample_header 3\<rparr> (on_time ?a3) =
      (Ok (), b3)"
    by (simp add: entry_poll_skip_def)
  with b3 show "\<exists>a3. await (entry_poll_skip (sample_cfg True) (delayed cursor_read)
      \<lparr>en_header = sample_header 3\<rparr>) ?a3 = Some (Ok (), a3) \<and>
      ar_state (on_time a3) = ExpectingHeader"
    using delays_do_not_matter [where E = "sample_cfg True" and read = cursor_read and a = ?a3
        and en = "\<lparr>en_header = sample_header 3\<rparr>"] by blast
qed

end
