(* ===== verification/Waiting_Client.thy ===== *)
theory Waiting_Client
  imports Waiting
begin

text \<open>
  A whole client over a source that is not always ready: the loops of \<open>read_archive\<close> in
  \<open>src/read/tests.rs\<close> with every \<open>.await\<close> written out as polling until there is an answer.
\<close>

section \<open>The client\<close>

partial_function (option) read_entry_all_waiting ::
  "cfg \<Rightarrow> 'r reader \<Rightarrow> entry \<Rightarrow> usize \<Rightarrow> bytes \<Rightarrow> 'r archive \<Rightarrow>
    (bytes outcome \<times> 'r archive) option" where
  "read_entry_all_waiting E read en room acc a =
     Option.bind (await (entry_poll_read E read en room) a) (\<lambda>r.
       loop_then r (\<lambda>bs a.
         if bs = [] then Some (Ok acc, a)
         else read_entry_all_waiting E read en room (acc @ bs) a))"

partial_function (option) read_archive_waiting ::
  "cfg \<Rightarrow> 'r reader \<Rightarrow> usize \<Rightarrow> (entry \<times> bytes) list \<Rightarrow> 'r archive \<Rightarrow>
    ((entry \<times> bytes) list outcome \<times> 'r archive) option" where
  "read_archive_waiting E read room acc a =
     Option.bind (await (next_entry_poll E read) a) (\<lambda>r.
       loop_then r (\<lambda>e a. case e of
           Some en \<Rightarrow>
             Option.bind (read_entry_all_waiting E read en room [] a) (\<lambda>r.
               loop_then r (\<lambda>bs a. read_archive_waiting E read room (acc @ [(en, bs)]) a))
         | None \<Rightarrow>
             Option.bind (await (next_entry_poll E read) a) (\<lambda>r. case r of (r, a) \<Rightarrow>
               loop_then (expect_ok r, a) (\<lambda>e a.
                 loop_then (assert_that (e = None), a) (\<lambda>_ a. Some (Ok acc, a))))))"

declare read_entry_all_waiting.simps [simp del] read_archive_waiting.simps [simp del]

section \<open>It reads what the client without delays reads\<close>

text \<open>A computation of the client over the delayed source has the result of the prompt one.\<close>

definition waits_for ::
  "'b outcome \<times> 'r archive \<Rightarrow> ('b outcome \<times> ('r \<times> bool list) archive) option \<Rightarrow> bool" where
  "waits_for y m \<longleftrightarrow> fst y \<noteq> Pending \<longrightarrow> (\<exists>a. m = Some (fst y, a) \<and> on_time a = snd y)"

lemma waits_for_result: "on_time a = b \<Longrightarrow> waits_for (r, b) (Some (r, a))"
  by (simp add: waits_for_def)

text \<open>One call that is awaited, then the rest.\<close>

lemma waits_for_bind:
  assumes "waits_for y m" and "loop_then y k = Some z"
    and "\<And>x a. y = (Ok x, on_time a) \<Longrightarrow> k x (on_time a) = Some z \<Longrightarrow> waits_for z (k' x a)"
  shows "waits_for z (Option.bind m (\<lambda>r. loop_then r k'))"
proof (cases "fst y = Pending")
  case True
  with assms(2) have "fst z = Pending" by (cases y) auto
  then show ?thesis by (simp add: waits_for_def)
next
  case False
  with assms(1) obtain a where m: "m = Some (fst y, a)" "on_time a = snd y"
    by (auto simp: waits_for_def)
  show ?thesis
  proof (cases "fst y")
    case (Ok x)
    with m assms(2) assms(3) [of x a] show ?thesis by (cases y) auto
  qed (use m assms(2) in \<open>cases y; auto intro: waits_for_result\<close>)+
qed

lemma await_waits_for:
  assumes "\<And>a. resumes g a (f a)"
  shows "waits_for (g (on_time a)) (await f a)"
  using resumes_await [OF assms, of a "fst (g (on_time a))" "snd (g (on_time a))"]
  by (auto simp: waits_for_def)

lemma read_entry_all_waits:
  assumes "read_entry_all E read en room acc (on_time a) = Some y"
  shows "waits_for y (read_entry_all_waiting E (delayed read) en room acc a)"
proof -
  have "\<forall>a. on_time a = b \<longrightarrow> waits_for y (read_entry_all_waiting E (delayed read) en room acc a)"
    if "read_entry_all E read en room acc b = Some y" for b
  proof (rule read_entry_all.raw_induct [OF _ that], intro allI impI, goal_cases)
    case (1 f E read en room acc b y a)
    show ?case
      unfolding read_entry_all_waiting.simps [of E "delayed read" en room acc a]
      by (rule waits_for_bind [OF await_waits_for [OF entry_poll_read_resumes]])
        (use 1 in \<open>auto intro: waits_for_result split: if_splits\<close>)
  qed
  with assms show ?thesis by blast
qed

lemma read_archive_waits:
  assumes "read_archive E read room acc (on_time a) = Some y"
  shows "waits_for y (read_archive_waiting E (delayed read) room acc a)"
proof -
  have "\<forall>a. on_time a = b \<longrightarrow> waits_for y (read_archive_waiting E (delayed read) room acc a)"
    if "read_archive E read room acc b = Some y" for b
  proof (rule read_archive.raw_induct [OF _ that], intro allI impI, goal_cases)
    case (1 f E read room acc b y a)
    note next_waits = await_waits_for [OF next_entry_poll_resumes, of E read]
    show ?case
      unfolding read_archive_waiting.simps [of E "delayed read" room acc a]
    proof (rule waits_for_bind [OF next_waits])
      show "loop_then (next_entry_poll E read (on_time a)) (\<lambda>e a. case e of
          Some en \<Rightarrow> Option.bind (read_entry_all E read en room [] a) (\<lambda>r.
            loop_then r (\<lambda>bs a. f E read room (acc @ [(en, bs)]) a))
        | None \<Rightarrow> (case next_entry_poll E read a of (r, a) \<Rightarrow>
            loop_then (expect_ok r, a) (\<lambda>e a.
              loop_then (assert_that (e = None), a) (\<lambda>_ a. Some (Ok acc, a))))) = Some y"
        using 1 by simp
      fix e c
      assume rest: "(case e of
          Some en \<Rightarrow> Option.bind (read_entry_all E read en room [] (on_time c)) (\<lambda>r.
            loop_then r (\<lambda>bs a. f E read room (acc @ [(en, bs)]) a))
        | None \<Rightarrow> (case next_entry_poll E read (on_time c) of (r, a) \<Rightarrow>
            loop_then (expect_ok r, a) (\<lambda>e a.
              loop_then (assert_that (e = None), a) (\<lambda>_ a. Some (Ok acc, a))))) = Some y"
      show "waits_for y (case e of
          Some en \<Rightarrow> Option.bind (read_entry_all_waiting E (delayed read) en room [] c) (\<lambda>r.
            loop_then r (\<lambda>bs a. read_archive_waiting E (delayed read) room (acc @ [(en, bs)]) a))
        | None \<Rightarrow> Option.bind (await (next_entry_poll E (delayed read)) c) (\<lambda>r. case r of (r, a) \<Rightarrow>
            loop_then (expect_ok r, a) (\<lambda>e a.
              loop_then (assert_that (e = None), a) (\<lambda>_ a. Some (Ok acc, a)))))"
      proof (cases e)
        case None
        obtain r b1 where r: "next_entry_poll E read (on_time c) = (r, b1)" by fastforce
        show ?thesis
        proof (cases "r = Pending")
          case True
          with rest None r show ?thesis by (auto simp: waits_for_def)
        next
          case False
          with next_waits [of c] r obtain a1
            where "await (next_entry_poll E (delayed read)) c = Some (r, a1)" "on_time a1 = b1"
            by (auto simp: waits_for_def)
          with rest None r show ?thesis
            by (cases r; cases "r = Ok None") (auto intro: waits_for_result)
        qed
      next
        case (Some en)
        then obtain y1 where y1: "read_entry_all E read en room [] (on_time c) = Some y1"
            "loop_then y1 (\<lambda>bs a. f E read room (acc @ [(en, bs)]) a) = Some y"
          using rest by (auto simp: bind_eq_Some_conv)
        show ?thesis
          unfolding Some option.case
          by (rule waits_for_bind [OF read_entry_all_waits [OF y1(1)] y1(2)]) (use 1 in blast)
      qed
    qed
  qed
  with assms show ?thesis by blast
qed

section \<open>The property of the whole client\<close>

lemma archive_on_time:
  assumes "archive_with_capacity io capacity = Ok b"
  obtains a where "archive_with_capacity (io, delays) capacity = Ok a" and "on_time a = b"
proof
  show "archive_with_capacity (io, delays) capacity =
      Ok \<lparr>ar_buf = ar_buf b, ar_state = ar_state b, ar_io = (io, delays)\<rparr>"
    using assms by (auto simp: archive_with_capacity_def bind_outcome_eq_Ok)
  show "on_time \<lparr>ar_buf = ar_buf b, ar_state = ar_state b, ar_io = (io, delays)\<rparr> = b"
    using assms by (auto simp: on_time_def archive_with_capacity_def bind_outcome_eq_Ok)
qed

text \<open>
  C13. Reading decodes an archive also over a slow source: over a source that is read in whole
  blocks but for its end, and whatever the schedule of the delays put before its answers, a client that polls again whenever it is told to wait ends, returns exactly the entries of
  the archive and leaves what follows it in the stream.
\<close>

theorem waiting_client_decodes:
  assumes "block_source read rest" and "0 < room"
    and "0 < capacity" and "capacity * 512 \<le> usize_max"
    and "list_all (entry_fits E) es" and "rest io = archive_bytes es @ tail"
  shows "\<exists>a a'. archive_with_capacity (io, delays) capacity = Ok a \<and>
    read_archive_waiting E (delayed read) room [] a =
      Some (Ok (map (\<lambda>e. (\<lparr>en_header = fst e\<rparr>, snd e)) es), a') \<and>
    unread (\<lambda>(io, delays). rest io) a' = tail"
proof -
  from read_archive_whole [OF assms] obtain b b'
    where b: "archive_with_capacity io capacity = Ok b"
      "read_archive E read room [] b = Some (Ok (map (\<lambda>e. (\<lparr>en_header = fst e\<rparr>, snd e)) es), b')"
      "unread rest b' = tail"
    by blast
  obtain a where a: "archive_with_capacity (io, delays) capacity = Ok a" "on_time a = b"
    by (rule archive_on_time [OF b(1)])
  from b(2) a(2) have "waits_for (Ok (map (\<lambda>e. (\<lparr>en_header = fst e\<rparr>, snd e)) es), b')
      (read_archive_waiting E (delayed read) room [] a)"
    by (intro read_archive_waits) simp
  then obtain a' where "read_archive_waiting E (delayed read) room [] a =
      Some (Ok (map (\<lambda>e. (\<lparr>en_header = fst e\<rparr>, snd e)) es), a')" "on_time a' = b'"
    by (auto simp: waits_for_def)
  with a(1) b(3) show ?thesis by (auto simp: unread_def split_beta)
qed

theorem waiting_client_decodes_witness:
  "\<exists>a a'. archive_with_capacity
      (archive_bytes [(sample_header 3, [1, 2, 3]), (sample_header 0, [])] @ [9],
       [True, False, True, True]) 1 = Ok a \<and>
    read_archive_waiting (sample_cfg True) (delayed cursor_read) 2 [] a =
      Some (Ok [(\<lparr>en_header = sample_header 3\<rparr>, [1, 2, 3]), (\<lparr>en_header = sample_header 0\<rparr>, [])], a') \<and>
    unread (\<lambda>(io, delays). io) a' = [9]"
  using waiting_client_decodes [OF cursor_block_source, of 2 1
      "sample_cfg True" "[(sample_header 3, [1, 2, 3]), (sample_header 0, [])]"
      "archive_bytes [(sample_header 3, [1, 2, 3]), (sample_header 0, [])] @ [9]" "[9]"
      "[True, False, True, True]"]
  by (simp add: usize_max_def usize_bits_def)

end
