(* ===== verification/Test_Data.thy ===== *)
theory Test_Data
  imports Format
begin

text \<open>
  The helpers of the crate's tests (\<open>src/shared/test.rs\<close>): the sample data of an entry and
  the archive built from it. They lay out an archive the way \<open>Format\<close> specifies it, so the
  specification of both directions is the one the crate is tested against. The header is made
  by the \<open>tar\<close> crate; \<open>make_entry_header\<close> is a parameter.
\<close>

section \<open>The helpers\<close>

text \<open>\<open>usize::next_multiple_of\<close>, for sizes of data in memory.\<close>

definition usize_next_multiple_of :: "usize \<Rightarrow> usize \<Rightarrow> usize" where
  "usize_next_multiple_of n m = (let r = n mod m in if r = 0 then n else n + (m - r))"

definition make_entry_data :: "usize \<Rightarrow> bytes" where
  "make_entry_data n =
     map (\<lambda>i. if i < n then word_of_nat (usize_next_multiple_of i 255 - i) else 0)
       [0..<usize_next_multiple_of n BLOCK_SIZE]"

definition make_archive_data ::
  "(string \<Rightarrow> usize \<Rightarrow> header) \<Rightarrow> (string \<times> usize) list \<Rightarrow> bytes" where
  "make_archive_data make_entry_header entries =
     concat (map (\<lambda>(path, size). make_entry_header path size @ make_entry_data size) entries) @
     make_eof_data"

text \<open>The entries of such an archive: the header and the data without its padding.\<close>

definition sample_entry ::
  "(string \<Rightarrow> usize \<Rightarrow> header) \<Rightarrow> string \<times> usize \<Rightarrow> header \<times> bytes" where
  "sample_entry make_entry_header e =
     (make_entry_header (fst e) (snd e), take (snd e) (make_entry_data (snd e)))"

section \<open>Their layout\<close>

lemma usize_next_multiple_of_eq: "0 < m \<Longrightarrow> usize_next_multiple_of n m = n + padding m n"
  by (auto simp: usize_next_multiple_of_def padding_def Let_def)

lemma length_make_entry_data [simp]: "length (make_entry_data n) = n + padding 512 n"
  by (simp add: make_entry_data_def usize_next_multiple_of_eq)

lemma drop_make_entry_data: "drop n (make_entry_data n) = replicate (padding 512 n) 0"
  by (rule nth_equalityI) (simp_all add: make_entry_data_def usize_next_multiple_of_eq)

lemma make_entry_data_eq:
  "make_entry_data n = take n (make_entry_data n) @ replicate (padding 512 n) 0"
  by (metis append_take_drop_id drop_make_entry_data)

lemma entry_bytes_sample:
  "entry_bytes (sample_entry mk (p, n)) = mk p n @ make_entry_data n"
  using make_entry_data_eq [of n] by (simp add: entry_bytes_def sample_entry_def min_def)

text \<open>
  The helper that builds the archives of the tests lays them out as the specification
  does: its bytes are those of the archive with the sample entries.
\<close>

lemma make_archive_data_layout:
  "make_archive_data mk entries = archive_bytes (map (sample_entry mk) entries)"
proof -
  have "concat (map (\<lambda>(p, n). mk p n @ make_entry_data n) entries) =
      concat (map entry_bytes (map (sample_entry mk) entries))"
    by (induction entries) (auto simp: entry_bytes_sample)
  then show ?thesis by (simp add: make_archive_data_def archive_bytes_def)
qed

end
