(* ===== verification/Unit_Tests.thy ===== *)
theory Unit_Tests
  imports Test_Data
begin

text \<open>
  The unit tests of the crate, run on the model: the test of the checksum
  (\<open>src/shared/block.rs\<close>), of the position machine (\<open>src/shared/state.rs\<close>), of the buffer
  (\<open>src/shared/buffer.rs\<close>) and of the slices (\<open>src/shared/slices.rs\<close>). A test is a
  computation that panics where an assertion fails; the theorems say that none does.
\<close>

section \<open>The test of the header check\<close>

definition block_test_bytes :: bytes where
  "block_test_bytes =
     [53, 48, 48] @ replicate 121 0 @
     [48, 48, 48, 48, 48, 48, 48, 48, 55, 54, 52, 0, 48, 48, 48, 48, 48, 48, 48, 48, 48, 48, 48, 0,
      48, 48, 48, 52, 49, 50, 53, 0] @ replicate 101 0 @
     [117, 115, 116, 97, 114, 0, 48, 48] @ replicate 247 0"

definition block_test_valid_header :: "cfg \<Rightarrow> unit outcome" where
  "block_test_valid_header E =
     bind_outcome (from_bytes block_test_bytes) (\<lambda>block.
     bind_outcome (expect_ok (as_header E block)) (\<lambda>_. Ok ()))"

section \<open>The test of the position machine\<close>

text \<open>\<open>let (state, pos) = state.next(buf, hdr).unwrap()\<close> with the two assertions after it.\<close>

definition expect_next ::
  "cfg \<Rightarrow> state \<Rightarrow> bytes \<Rightarrow> header option \<Rightarrow> state \<Rightarrow> usize \<Rightarrow> state outcome" where
  "expect_next E s buf hdr expected n =
     bind_outcome (expect_ok (state_next E s buf hdr)) (\<lambda>(state, pos).
     bind_outcome (assert_that (state = expected)) (\<lambda>_.
     bind_outcome (assert_that (pos = n)) (\<lambda>_. Ok state)))"

text \<open>The same with \<open>&d[..n]\<close>, and then \<open>d = &d[n..]\<close>.\<close>

definition expect_piece ::
  "cfg \<Rightarrow> header option \<Rightarrow> state \<times> bytes \<Rightarrow> usize \<Rightarrow> state \<Rightarrow> (state \<times> bytes) outcome" where
  "expect_piece E hdr sd n expected =
     bind_outcome (slice_to (snd sd) n) (\<lambda>buf.
     bind_outcome (expect_next E (fst sd) buf hdr expected n) (\<lambda>state.
     bind_outcome (slice_from (snd sd) n) (\<lambda>d. Ok (state, d))))"

text \<open>The checks that leave the state of the test alone, on a longer piece.\<close>

definition expect_midway ::
  "cfg \<Rightarrow> header option \<Rightarrow> state \<times> bytes \<Rightarrow> usize \<Rightarrow> state \<Rightarrow> usize \<Rightarrow> unit outcome" where
  "expect_midway E hdr sd n expected pos =
     bind_outcome (slice_to (snd sd) n) (\<lambda>buf.
     bind_outcome (expect_next E (fst sd) buf hdr expected pos) (\<lambda>_. Ok ()))"

text \<open>A transition that takes nothing of the bytes.\<close>

definition expect_marker ::
  "cfg \<Rightarrow> header option \<Rightarrow> state \<times> bytes \<Rightarrow> state \<Rightarrow> (state \<times> bytes) outcome" where
  "expect_marker E hdr sd expected =
     bind_outcome (expect_next E (fst sd) (snd sd) hdr expected 0) (\<lambda>state. Ok (state, snd sd))"

definition state_test_basic :: "cfg \<Rightarrow> (string \<Rightarrow> usize \<Rightarrow> header) \<Rightarrow> unit outcome" where
  "state_test_basic E make_entry_header =
     (let data = make_archive_data make_entry_header [(''1000'', 1000)] in
      bind_outcome (assert_that (state_default = ExpectingHeader)) (\<lambda>_.
      bind_outcome (expect_marker E None (state_default, data) (ReceivingHeader BLOCK_SIZE True)) (\<lambda>sd.
      bind_outcome (expect_piece E None sd 250 (ReceivingHeader (BLOCK_SIZE - 250) False)) (\<lambda>sd.
      bind_outcome (expect_midway E None sd 300 ReceivedHeader 262) (\<lambda>_.
      bind_outcome (expect_piece E None sd 262 ReceivedHeader) (\<lambda>sd.
      bind_outcome (slice_to data BLOCK_SIZE) (\<lambda>first.
      bind_outcome (from_bytes first) (\<lambda>block.
      bind_outcome (expect_ok (as_header E block)) (\<lambda>header.
      let hdr = Some header in
      bind_outcome (expect_marker E hdr sd (ReceivingData 1000)) (\<lambda>sd.
      bind_outcome (expect_piece E hdr sd 500 (ReceivingData (word_of_nat (1000 - 500)))) (\<lambda>sd.
      bind_outcome (expect_piece E hdr sd 500 ReceivedData) (\<lambda>sd.
      bind_outcome (expect_marker E hdr sd (AligningData 24)) (\<lambda>sd.
      bind_outcome (expect_piece E hdr sd 10 (AligningData 14)) (\<lambda>sd.
      bind_outcome (expect_piece E hdr sd 14 AlignedData) (\<lambda>sd.
      bind_outcome (expect_marker E None sd ExpectingHeader) (\<lambda>sd.
      bind_outcome (expect_marker E None sd (ReceivingHeader BLOCK_SIZE True)) (\<lambda>sd.
      bind_outcome (expect_piece E None sd 256 (ReceivingHeader (BLOCK_SIZE - 256) True)) (\<lambda>sd.
      bind_outcome (expect_midway E None sd 356 (ReceivingEof BLOCK_SIZE) (356 - 100)) (\<lambda>_.
      bind_outcome (expect_piece E None sd 256 (ReceivingEof BLOCK_SIZE)) (\<lambda>sd.
      bind_outcome (expect_piece E None sd 256 (ReceivingEof (BLOCK_SIZE - 256))) (\<lambda>sd.
      bind_outcome (expect_piece E None sd 256 ReceivedEof) (\<lambda>sd.
      assert_that (length (snd sd) = 0)))))))))))))))))))))))"

section \<open>The tests of the buffer\<close>

text \<open>\<open>io::Write\<close> of a byte slice: it copies what fits and returns how much that was.\<close>

definition rm_write :: "region_mut \<Rightarrow> bytes \<Rightarrow> (usize \<times> region_mut) outcome" where
  "rm_write r data =
     bind_outcome (rm_bytes_mut r) (\<lambda>dst.
       let n = min (length data) (length dst) in
       Ok (n, rm_set_buf r (copy_at (rm_buf r) (rm_pos r) (take n data))))"

definition test_fill_buf :: "bool \<Rightarrow> buf \<Rightarrow> buf outcome" where
  "test_fill_buf checks b =
     bind_outcome (rm_fill checks (available b) [0, 1, 2, 3]) (\<lambda>(_, available).
     Ok (put_available b available))"

definition check_writable ::
  "bool \<Rightarrow> region_mut \<Rightarrow> bytes \<Rightarrow> usize \<Rightarrow> usize \<Rightarrow> usize \<Rightarrow> usize \<Rightarrow> bool \<Rightarrow> unit outcome" where
  "check_writable checks wr bs capacity remaining position len none =
     bind_outcome (rm_bytes wr) (\<lambda>actual.
     bind_outcome (assert_that (actual = bs)) (\<lambda>_.
     bind_outcome (assert_that (region_capacity rm_buf wr = capacity)) (\<lambda>_.
     bind_outcome (rm_remaining checks wr) (\<lambda>rem.
     bind_outcome (assert_that (rem = remaining)) (\<lambda>_.
     bind_outcome (assert_that (rm_pos wr = position)) (\<lambda>_.
     bind_outcome (assert_that (rm_len wr = len)) (\<lambda>_.
     assert_that (rm_is_empty wr = none))))))))"

definition test_writable :: "bool \<Rightarrow> region_mut \<Rightarrow> region_mut outcome" where
  "test_writable checks wr =
     bind_outcome (check_writable checks wr (rm_buf wr) 5 5 0 0 True) (\<lambda>_.
     bind_outcome (rm_write wr [0, 1, 2, 3]) (\<lambda>(n, wr).
     bind_outcome (assert_that (n = 4)) (\<lambda>_.
     bind_outcome (rm_bytes wr) (\<lambda>bs.
     bind_outcome (assert_that (bs = [0, 1, 2, 3, 0])) (\<lambda>_.
     bind_outcome (rm_commit wr 1) (\<lambda>wr.
     bind_outcome (check_writable checks wr [1, 2, 3, 0] 5 4 1 1 False) (\<lambda>_.
     bind_outcome (rm_commit wr 3) (\<lambda>wr.
     bind_outcome (check_writable checks wr [0] 5 1 4 4 False) (\<lambda>_.
     bind_outcome (rm_commit wr 1) (\<lambda>wr.
     bind_outcome (check_writable checks wr [] 5 0 5 5 False) (\<lambda>_. Ok wr)))))))))))"

definition check_readable ::
  "bool \<Rightarrow> region \<Rightarrow> bytes \<Rightarrow> usize \<Rightarrow> usize \<Rightarrow> usize \<Rightarrow> usize \<Rightarrow> bool \<Rightarrow> unit outcome" where
  "check_readable checks rd bs capacity remaining position len none =
     bind_outcome (rg_bytes rd) (\<lambda>actual.
     bind_outcome (assert_that (actual = bs)) (\<lambda>_.
     bind_outcome (assert_that (region_capacity rg_buf rd = capacity)) (\<lambda>_.
     bind_outcome (region_remaining rg_buf rg_pos checks rd) (\<lambda>rem.
     bind_outcome (assert_that (rem = remaining)) (\<lambda>_.
     bind_outcome (assert_that (rg_pos rd = position)) (\<lambda>_.
     bind_outcome (rg_len checks rd) (\<lambda>n.
     bind_outcome (assert_that (n = len)) (\<lambda>_.
     bind_outcome (rg_is_empty checks rd) (\<lambda>e.
     assert_that (e = none))))))))))"

definition test_readable :: "bool \<Rightarrow> region \<Rightarrow> region outcome" where
  "test_readable checks rd =
     bind_outcome (check_readable checks rd [0, 1, 2, 3] 4 4 0 4 False) (\<lambda>_.
     bind_outcome (rg_commit rd 1) (\<lambda>rd.
     bind_outcome (check_readable checks rd [1, 2, 3] 4 3 1 3 False) (\<lambda>_.
     bind_outcome (rg_commit rd 2) (\<lambda>rd.
     bind_outcome (check_readable checks rd [3] 4 1 3 1 False) (\<lambda>_.
     bind_outcome (rg_commit rd 1) (\<lambda>rd.
     bind_outcome (check_readable checks rd [] 4 0 4 0 True) (\<lambda>_. Ok rd)))))))"

definition buffer_test_available :: "bool \<Rightarrow> unit outcome" where
  "buffer_test_available checks =
     (let buf = buf_new 5 in
      bind_outcome (test_writable checks (available buf)) (\<lambda>wr.
      let buf = buf_clear (put_available buf wr) in
      check_writable checks (available buf) [0, 1, 2, 3, 0] 5 5 0 0 True))"

definition buffer_test_buffered :: "bool \<Rightarrow> unit outcome" where
  "buffer_test_buffered checks =
     bind_outcome (test_fill_buf checks (buf_new 5)) (\<lambda>buf.
     bind_outcome (buffered buf) (\<lambda>rd.
     bind_outcome (test_readable checks rd) (\<lambda>rd.
     let buf = buf_clear (put_buffered buf rd) in
     bind_outcome (buffered buf) (\<lambda>rd.
     check_readable checks rd [] 0 0 0 0 True))))"

definition buffer_test_available_and_buffered :: "bool \<Rightarrow> unit outcome" where
  "buffer_test_available_and_buffered checks =
     (let buf = buf_new 5 in
      bind_outcome (rm_write (available buf) [0, 1, 2, 3]) (\<lambda>(n, wr).
      bind_outcome (assert_that (n = 4)) (\<lambda>_.
      bind_outcome (rm_bytes wr) (\<lambda>bs.
      bind_outcome (assert_that (bs = [0, 1, 2, 3, 0])) (\<lambda>_.
      bind_outcome (rm_commit wr 4) (\<lambda>wr.
      bind_outcome (rm_bytes wr) (\<lambda>bs.
      bind_outcome (assert_that (bs = [0])) (\<lambda>_.
      let buf = put_available buf wr in
      bind_outcome (buffered buf) (\<lambda>rd.
      bind_outcome (rg_bytes rd) (\<lambda>bs.
      bind_outcome (assert_that (bs = [0, 1, 2, 3])) (\<lambda>_.
      bind_outcome (rg_commit rd 1) (\<lambda>rd.
      bind_outcome (rg_bytes rd) (\<lambda>bs.
      bind_outcome (assert_that (bs = [1, 2, 3])) (\<lambda>_.
      let buf = put_buffered buf rd in
      bind_outcome (check_writable checks (available buf) [0] 5 1 4 4 False) (\<lambda>_.
      let buf = buf_clear buf in
      bind_outcome (buffered buf) (\<lambda>rd.
      bind_outcome (rg_is_empty checks rd) (\<lambda>e.
      bind_outcome (assert_that e) (\<lambda>_.
      bind_outcome (rg_bytes rd) (\<lambda>bs.
      assert_that (bs = []))))))))))))))))))))"

section \<open>The test of the slices\<close>

definition slices_test_data :: "io_slice list" where
  "slices_test_data =
     [[0, 1, 2, 3, 4], [5, 6, 7, 8, 9], [10, 11, 12, 13, 14], [15, 16, 17, 18, 19],
      [20, 21, 22, 23, 24]]"

definition assert_slice_eq :: "io_slice \<Rightarrow> usize \<Rightarrow> unit outcome" where
  "assert_slice_eq left idx = assert_that (left = slices_test_data ! idx)"

text \<open>The assertions on the lengths of the parts of a split, and on the slices of each part.\<close>

definition check_split ::
  "prefix \<times> suffix \<Rightarrow> usize \<Rightarrow> usize \<Rightarrow> unit outcome" where
  "check_split ps n m =
     bind_outcome (assert_that (length (prefix_slices (fst ps)) = n)) (\<lambda>_.
     bind_outcome (assert_that (length (suffix_slices (snd ps)) = m)) (\<lambda>_.
     bind_outcome (assert_that (length (prefix_remainder (fst ps)) = 0)) (\<lambda>_.
     assert_that (length (suffix_remainder (snd ps)) = 0))))"

definition slices_test_basic :: "unit outcome" where
  "slices_test_basic =
     (let slices = slices_test_data in
      bind_outcome (assert_that (bytes_len (array_iter_slices slices) = 25)) (\<lambda>_.
      bind_outcome (array_split_at_byte_offset slices 10) (\<lambda>ps.
      bind_outcome (check_split ps 2 3) (\<lambda>_.
      bind_outcome (assert_slice_eq (prefix_slices (fst ps) ! 0) 0) (\<lambda>_.
      bind_outcome (assert_slice_eq (prefix_slices (fst ps) ! 1) 1) (\<lambda>_.
      bind_outcome (assert_slice_eq (suffix_slices (snd ps) ! 0) 2) (\<lambda>_.
      bind_outcome (assert_slice_eq (suffix_slices (snd ps) ! 1) 3) (\<lambda>_.
      bind_outcome (assert_slice_eq (suffix_slices (snd ps) ! 2) 4) (\<lambda>_.
      bind_outcome (slice_to slices 2) (\<lambda>slices.
      bind_outcome (array_split_at_byte_offset slices 10) (\<lambda>ps.
      bind_outcome (check_split ps 2 0) (\<lambda>_.
      bind_outcome (assert_slice_eq (prefix_slices (fst ps) ! 0) 0) (\<lambda>_.
      bind_outcome (assert_slice_eq (prefix_slices (fst ps) ! 1) 1) (\<lambda>_.
      bind_outcome (slice_to slices 1) (\<lambda>slices.
      bind_outcome (array_split_at_byte_offset slices 10) (\<lambda>ps.
      bind_outcome (check_split ps 1 0) (\<lambda>_.
      assert_slice_eq (prefix_slices (fst ps) ! 0) 0)))))))))))))))))"

section \<open>The tests pass\<close>

lemma calc_cksum_test_bytes: "calc_cksum block_test_bytes = 2133"
proof -
  have "unat (calc_cksum block_test_bytes) = 2133"
    by (subst unat_calc_cksum) (simp_all add: block_test_bytes_def sum_list_replicate)
  then show ?thesis by (simp add: word_unat_eq_iff)
qed

lemma length_block_test_bytes: "length block_test_bytes = 512"
  by (simp add: block_test_bytes_def)

lemma block_test_passes:
  "hdr_cksum E block_test_bytes = Inr 2133 \<Longrightarrow> block_test_valid_header E = Ok ()"
  by (simp add: block_test_valid_header_def from_bytes_as_bytes as_header_eq calc_cksum_test_bytes
      length_block_test_bytes)

lemma checked_add_small: "a + b \<le> 5 \<Longrightarrow> checked_add a b = Some (a + b)"
  by (simp add: checked_add_def usize_max_def usize_bits_def)

lemmas buffer_calls = available_def put_available_def buffered_def put_buffered_def buf_clear_def
  buf_new_def rm_bytes_def rm_bytes_mut_def region_bytes_def region_bytes_mut_def region_capacity_def
  rm_remaining_def region_remaining_def usize_sub_def rm_is_empty_def rm_len_def rm_commit_def
  region_commit_def checked_add_small rm_set_position_def rm_set_buf_def
  rg_commit_def rg_bytes_def rg_len_def rg_is_empty_def rg_set_position_def copy_at_def
  slice_in_range rm_write_def rm_fill_def region_fill_def

lemma buffer_tests_pass:
  "buffer_test_available checks = Ok ()"
  "buffer_test_buffered checks = Ok ()"
  "buffer_test_available_and_buffered checks = Ok ()"
  by (simp_all add: buffer_test_available_def buffer_test_buffered_def
      buffer_test_available_and_buffered_def test_writable_def test_readable_def test_fill_buf_def
      check_writable_def check_readable_def buffer_calls eval_nat_numeral)

lemma slices_test_passes: "slices_test_basic = Ok ()"
  by (simp add: slices_test_basic_def slices_test_data_def bytes_len_eq usize_max_def usize_bits_def
      array_split_at_byte_offset_def split_at_byte_offset_def array_split_at_index_def split_at_def
      check_split_def assert_slice_eq_def slices_simps slice_in_range array_as_prefix_def suffix_empty_def)

lemma state_test_passes:
  assumes "valid_header E (mk ''1000'' 1000) 1000" and "\<not> all_zero (take 250 (mk ''1000'' 1000))"
  shows "state_test_basic E mk = Ok ()"
proof -
  define hdr B where "hdr = mk ''1000'' 1000" and "B = make_entry_data 1000"
  have hdr: "length hdr = 512" "as_header E (Block hdr) = Ok hdr" "hdr_entry_size E hdr = Inr 1000"
      "\<not> all_zero (take 250 hdr)"
    using valid_headerD [OF assms(1)] assms(2) by (simp_all add: hdr_def)
  have "padding 512 1000 = 24" by (simp add: padding_def)
  then have B: "length B = 1024" by (simp add: B_def)
  have data: "make_archive_data mk [(''1000'', 1000)] = hdr @ B @ replicate 1024 0"
    by (simp add: make_archive_data_def make_eof_data_def hdr_def B_def)
  have align: "state_next E ReceivedData buf (Some hdr) = Ok (AligningData 24, 0)" for buf
    using state_next_ReceivedData [OF hdr(3), of buf] \<open>padding 512 1000 = 24\<close> by simp
  show ?thesis
    using hdr B align
    by (simp add: state_test_basic_def data Let_def state_default_def expect_marker_def
        expect_next_def expect_piece_def expect_midway_def slice_in_range read_run_def advance_def
        next_receiving_data_def entry_size_of_def from_bytes_as_bytes
        del: state_next.simps(5))
qed

section \<open>The property\<close>

text \<open>
  The unit tests pass on the model, with debug assertions and without. The machine goes
  through all of its states over an archive with one entry of 1000 bytes, at the offsets the
  test asserts, with every header the helper may make; the header check accepts the test
  header when its checksum field is read as the octal number it holds; the buffer and the
  slices answer as the tests expect.
\<close>

theorem unit_tests_pass:
  assumes "valid_header E (mk ''1000'' 1000) 1000" and "\<not> all_zero (take 250 (mk ''1000'' 1000))"
    and "hdr_cksum E block_test_bytes = Inr 2133"
  shows "state_test_basic E mk = Ok () \<and> block_test_valid_header E = Ok () \<and>
    buffer_test_available checks = Ok () \<and> buffer_test_buffered checks = Ok () \<and>
    buffer_test_available_and_buffered checks = Ok () \<and> slices_test_basic = Ok ()"
  by (intro conjI state_test_passes [where mk = mk, OF assms(1,2)] block_test_passes [OF assms(3)]
      buffer_tests_pass slices_test_passes)

theorem unit_tests_pass_witness:
  "state_test_basic ((sample_cfg True)\<lparr>hdr_entry_size := \<lambda>h. Inr 1000\<rparr>) (\<lambda>p n. sample_header 5) = Ok () \<and>
    block_test_valid_header ((sample_cfg True)\<lparr>hdr_entry_size := \<lambda>h. Inr 1000\<rparr>) = Ok () \<and>
    buffer_test_available True = Ok () \<and> buffer_test_buffered True = Ok () \<and>
    buffer_test_available_and_buffered True = Ok () \<and> slices_test_basic = Ok ()"
proof (rule unit_tests_pass)
  let ?E = "(sample_cfg True)\<lparr>hdr_entry_size := \<lambda>h. Inr 1000\<rparr>"
  show "\<not> all_zero (take 250 (sample_header 5))" by (simp add: sample_header_def)
  show "valid_header ?E (sample_header 5) 1000" by (simp add: valid_header_def)
  show "hdr_cksum ?E block_test_bytes = Inr 2133" by (simp add: calc_cksum_test_bytes)
qed

end
