(* ===== verification/Lossy_Paths.thy ===== *)
theory Lossy_Paths
  imports Archives
begin

text \<open>
  \<open>Entry::path_lossy\<close> (\<open>src/lib.rs\<close>): the path of an entry as text, with what is not UTF-8
  replaced. \<open>String::from_utf8_lossy\<close> of the standard library is written out, with text as
  the list of its Unicode scalar values.
\<close>

section \<open>UTF-8\<close>

type_synonym text_chars = "nat list"

definition scalar_value :: "nat \<Rightarrow> bool" where
  "scalar_value c \<longleftrightarrow> c < 0xD800 \<or> 0xE000 \<le> c \<and> c < 0x110000"

definition utf8_char :: "nat \<Rightarrow> nat list" where
  "utf8_char c =
     (if c < 0x80 then [c]
      else if c < 0x800 then [0xC0 + c div 64, 0x80 + c mod 64]
      else if c < 0x10000 then [0xE0 + c div 4096, 0x80 + c div 64 mod 64, 0x80 + c mod 64]
      else [0xF0 + c div 262144, 0x80 + c div 4096 mod 64, 0x80 + c div 64 mod 64, 0x80 + c mod 64])"

definition utf8_bytes :: "text_chars \<Rightarrow> bytes" where
  "utf8_bytes cs = concat (map (\<lambda>c. map word_of_nat (utf8_char c)) cs)"

text \<open>The bytes that may follow: in general, and after the first byte of three or of four.\<close>

definition utf8_cont :: "nat \<Rightarrow> bool" where
  "utf8_cont b \<longleftrightarrow> 0x80 \<le> b \<and> b < 0xC0"

definition utf8_second3 :: "nat \<Rightarrow> nat \<Rightarrow> bool" where
  "utf8_second3 a b \<longleftrightarrow> utf8_cont b \<and> (a = 0xE0 \<longrightarrow> 0xA0 \<le> b) \<and> (a = 0xED \<longrightarrow> b < 0xA0)"

definition utf8_second4 :: "nat \<Rightarrow> nat \<Rightarrow> bool" where
  "utf8_second4 a b \<longleftrightarrow> utf8_cont b \<and> (a = 0xF0 \<longrightarrow> 0x90 \<le> b) \<and> (a = 0xF4 \<longrightarrow> b < 0x90)"

definition replacement_char :: nat where
  "replacement_char = 0xFFFD"

text \<open>
  One step of the decoder: the scalar value and the number of bytes it takes. The longest
  prefix that could have been continued is replaced as a whole. First the steps for a first
  byte that announces two, three and four bytes, on what follows it.
\<close>

fun utf8_two :: "nat \<Rightarrow> nat list \<Rightarrow> nat \<times> nat" where
  "utf8_two a (b # _) =
     (if utf8_cont b then ((a - 0xC0) * 64 + (b - 0x80), 2) else (replacement_char, 1))"
| "utf8_two a [] = (replacement_char, 1)"

fun utf8_three :: "nat \<Rightarrow> nat list \<Rightarrow> nat \<times> nat" where
  "utf8_three a (b # c # _) =
     (if \<not> utf8_second3 a b then (replacement_char, 1)
      else if \<not> utf8_cont c then (replacement_char, 2)
      else ((a - 0xE0) * 4096 + (b - 0x80) * 64 + (c - 0x80), 3))"
| "utf8_three a [b] = (replacement_char, if utf8_second3 a b then 2 else 1)"
| "utf8_three a [] = (replacement_char, 1)"

fun utf8_four :: "nat \<Rightarrow> nat list \<Rightarrow> nat \<times> nat" where
  "utf8_four a (b # c # d # _) =
     (if \<not> utf8_second4 a b then (replacement_char, 1)
      else if \<not> utf8_cont c then (replacement_char, 2)
      else if \<not> utf8_cont d then (replacement_char, 3)
      else ((a - 0xF0) * 262144 + (b - 0x80) * 4096 + (c - 0x80) * 64 + (d - 0x80), 4))"
| "utf8_four a [b, c] =
     (replacement_char, if utf8_second4 a b then if utf8_cont c then 3 else 2 else 1)"
| "utf8_four a [b] = (replacement_char, if utf8_second4 a b then 2 else 1)"
| "utf8_four a [] = (replacement_char, 1)"

definition utf8_step :: "nat \<Rightarrow> nat list \<Rightarrow> nat \<times> nat" where
  "utf8_step a bs =
     (if a < 0x80 then (a, 1)
      else if 0xC2 \<le> a \<and> a < 0xE0 then utf8_two a bs
      else if 0xE0 \<le> a \<and> a < 0xF0 then utf8_three a bs
      else if 0xF0 \<le> a \<and> a < 0xF5 then utf8_four a bs
      else (replacement_char, 1))"

fun utf8_decode :: "nat list \<Rightarrow> text_chars" where
  "utf8_decode [] = []"
| "utf8_decode (a # bs) =
     (case utf8_step a bs of (c, n) \<Rightarrow> c # utf8_decode (drop (n - 1) bs))"

definition from_utf8_lossy :: "bytes \<Rightarrow> text_chars" where
  "from_utf8_lossy bs = utf8_decode (map unat bs)"

definition path_lossy :: "cfg \<Rightarrow> entry \<Rightarrow> text_chars" where
  "path_lossy E en = from_utf8_lossy (hdr_path_bytes E (en_header en))"

section \<open>The text of a path\<close>

lemma utf8_two_scalar: "0xC2 \<le> a \<Longrightarrow> a < 0xE0 \<Longrightarrow> scalar_value (fst (utf8_two a bs))"
  by (cases bs) (auto simp: scalar_value_def replacement_char_def utf8_cont_def)

lemma replacement_char_scalar [simp]: "scalar_value replacement_char"
  by (simp add: scalar_value_def replacement_char_def)

lemma utf8_three_value:
  assumes "0xE0 \<le> a" and "a < 0xF0" and "utf8_second3 a b" and "utf8_cont c"
  shows "scalar_value ((a - 0xE0) * 4096 + (b - 0x80) * 64 + (c - 0x80))"
proof -
  from assms(1) consider "a \<le> 0xEC" | "a = 0xED" | "0xEE \<le> a" by linarith
  then show ?thesis
    using assms by cases (auto simp: scalar_value_def utf8_cont_def utf8_second3_def)
qed

lemma utf8_three_scalar: "0xE0 \<le> a \<Longrightarrow> a < 0xF0 \<Longrightarrow> scalar_value (fst (utf8_three a bs))"
  by (cases "(a, bs)" rule: utf8_three.cases) (simp_all add: utf8_three_value)

lemma utf8_four_scalar: "0xF0 \<le> a \<Longrightarrow> a < 0xF5 \<Longrightarrow> scalar_value (fst (utf8_four a bs))"
  by (cases "(a, bs)" rule: utf8_four.cases)
    (auto simp: scalar_value_def replacement_char_def utf8_cont_def utf8_second4_def)

lemma utf8_step_scalar: "scalar_value (fst (utf8_step a bs))"
  by (simp add: utf8_step_def utf8_two_scalar utf8_three_scalar utf8_four_scalar)
    (simp add: scalar_value_def)

lemma utf8_decode_scalar: "list_all scalar_value (utf8_decode bs)"
proof (induction bs rule: utf8_decode.induct)
  case (2 a bs)
  then show ?case using utf8_step_scalar [of a bs] by (auto split: prod.split)
qed simp

text \<open>The digits of a scalar value in base 64.\<close>

lemma digit64: "p < 64 \<Longrightarrow> (q * 64 + p) div 64 = q" "p < 64 \<Longrightarrow> (q * 64 + p) mod 64 = p"
  for p q :: nat
  by (simp_all add: mod_add_eq)

lemma digit64E: obtains q p :: nat where "c = q * 64 + p" and "p < 64"
  by (rule that [of "c div 64" "c mod 64"]) simp_all

lemma div_digits: "c div 4096 = c div 64 div 64" "c div 262144 = c div 64 div 64 div 64" for c :: nat
  by (simp_all add: div_mult2_eq [symmetric])

lemma utf8_char_two: "2 \<le> x \<Longrightarrow> x < 32 \<Longrightarrow> p < 64 \<Longrightarrow> utf8_char (x * 64 + p) = [0xC0 + x, 0x80 + p]"
  by (simp add: utf8_char_def digit64)

lemma utf8_char_three:
  assumes "x < 16" and "y < 64" and "p < 64" and "x = 0 \<longrightarrow> 32 \<le> y"
  shows "utf8_char ((x * 64 + y) * 64 + p) = [0xE0 + x, 0x80 + y, 0x80 + p]"
proof -
  have "0x800 \<le> (x * 64 + y) * 64 + p" "(x * 64 + y) * 64 + p < 0x10000"
    using assms by auto
  with assms show ?thesis
    by (simp only: utf8_char_def div_digits digit64 not_less [symmetric] if_False) simp
qed

lemma utf8_char_four:
  assumes "x < 5" and "y < 64" and "z < 64" and "p < 64" and "x = 0 \<longrightarrow> 16 \<le> y"
  shows "utf8_char (((x * 64 + y) * 64 + z) * 64 + p) = [0xF0 + x, 0x80 + y, 0x80 + z, 0x80 + p]"
proof -
  have "0x10000 \<le> ((x * 64 + y) * 64 + z) * 64 + p"
    using assms by auto
  then have "\<not> ((x * 64 + y) * 64 + z) * 64 + p < 0x80" "\<not> ((x * 64 + y) * 64 + z) * 64 + p < 0x800"
    "\<not> ((x * 64 + y) * 64 + z) * 64 + p < 0x10000"
    by linarith+
  with assms show ?thesis
    by (simp only: utf8_char_def div_digits digit64 if_False)
qed

lemma utf8_decode_char:
  assumes "scalar_value c"
  shows "utf8_decode (utf8_char c @ bs) = c # utf8_decode bs"
proof -
  consider "c < 0x80" | x p where "c = x * 64 + p" "2 \<le> x" "x < 32" "p < 64"
    | x y p where "c = (x * 64 + y) * 64 + p" "x < 16" "y < 64" "p < 64" "x = 0 \<longrightarrow> 32 \<le> y"
    | x y z p where "c = ((x * 64 + y) * 64 + z) * 64 + p" "x < 5" "y < 64" "z < 64" "p < 64"
        "x = 0 \<longrightarrow> 16 \<le> y" "x = 4 \<longrightarrow> y < 16"
  proof -
    obtain t p where t: "c = t * 64 + p" "p < 64" by (rule digit64E)
    obtain u z where u: "t = u * 64 + z" "z < 64" by (rule digit64E)
    obtain x y where x: "u = x * 64 + y" "y < 64" by (rule digit64E)
    have "c < 0x110000" using assms by (auto simp: scalar_value_def)
    then consider "c < 0x80" | "0x80 \<le> c" "c < 0x800" | "0x800 \<le> c" "c < 0x10000"
      | "0x10000 \<le> c" "c < 0x110000"
      by (meson not_less)
    then show thesis
    proof cases
      case 1
      then show thesis by (rule that(1))
    next
      case 2
      with t show thesis by (intro that(2) [of t p]) auto
    next
      case 3
      with t u show thesis by (intro that(3) [of u z p]) auto
    next
      case 4
      with t u x show thesis by (intro that(4) [of x y z p]) auto
    qed
  qed
  then show ?thesis
  proof cases
    case 1
    then show ?thesis by (simp add: utf8_char_def utf8_step_def)
  next
    case (2 x p)
    then show ?thesis
      by (simp add: utf8_char_two utf8_step_def utf8_cont_def)
  next
    case (3 x y p)
    then have "utf8_second3 (0xE0 + x) (0x80 + y)"
      using assms by (auto simp: utf8_second3_def utf8_cont_def scalar_value_def)
    moreover have "utf8_char c = [0xE0 + x, 0x80 + y, 0x80 + p]"
      unfolding 3(1) by (rule utf8_char_three) (use 3 in auto)
    ultimately show ?thesis
      using 3 by (simp add: utf8_step_def utf8_cont_def)
  next
    case (4 x y z p)
    then have "utf8_second4 (0xF0 + x) (0x80 + y)"
      by (auto simp: utf8_second4_def utf8_cont_def)
    moreover have "utf8_char c = [0xF0 + x, 0x80 + y, 0x80 + z, 0x80 + p]"
      unfolding 4(1) by (rule utf8_char_four) (use 4 in auto)
    ultimately show ?thesis
      using 4 by (simp add: utf8_step_def utf8_cont_def)
  qed
qed

lemma utf8_char_byte: "scalar_value c \<Longrightarrow> b \<in> set (utf8_char c) \<Longrightarrow> b < 256"
  by (auto simp: utf8_char_def scalar_value_def div_less_iff_less_mult split: if_splits)

lemma map_unat_utf8_bytes:
  "list_all scalar_value cs \<Longrightarrow> map unat (utf8_bytes cs) = concat (map utf8_char cs)"
  by (induction cs) (auto simp: utf8_bytes_def unsigned_of_nat take_bit_nat_eq_self utf8_char_byte intro!: map_idI)

lemma from_utf8_lossy_bytes:
  assumes "list_all scalar_value cs"
  shows "from_utf8_lossy (utf8_bytes cs) = cs"
proof -
  have "utf8_decode (concat (map utf8_char cs)) = cs"
    using assms by (induction cs) (simp_all add: utf8_decode_char)
  then show ?thesis by (simp add: from_utf8_lossy_def map_unat_utf8_bytes assms)
qed

lemma from_utf8_lossy_ascii:
  "\<forall>b\<in>set bs. unat b < 0x80 \<Longrightarrow> from_utf8_lossy bs = map unat bs"
  unfolding from_utf8_lossy_def by (induction bs) (auto simp: utf8_step_def)

text \<open>Where nothing is replaced, nothing is lost.\<close>

lemma utf8_cont_digit: "utf8_cont b \<Longrightarrow> \<exists>p. p < 64 \<and> b = 0x80 + p"
  unfolding utf8_cont_def by (rule exI [of _ "b - 0x80"]) auto

lemma utf8_step_exact:
  assumes "utf8_step a bs = (c, n)" and "c \<noteq> replacement_char"
  shows "a # bs = utf8_char c @ drop (n - 1) bs"
proof -
  consider "a < 0x80" | "0xC2 \<le> a" "a < 0xE0" | "0xE0 \<le> a" "a < 0xF0" | "0xF0 \<le> a" "a < 0xF5"
    using assms by (auto simp: utf8_step_def split: if_splits)
  then show ?thesis
  proof cases
    case 1
    with assms show ?thesis by (simp add: utf8_step_def utf8_char_def)
  next
    case 2
    then have "utf8_two a bs = (c, n)" using assms(1) by (simp add: utf8_step_def)
    with assms(2) obtain b cs where b: "bs = b # cs" "utf8_cont b" "n = 2"
      "c = (a - 0xC0) * 64 + (b - 0x80)"
      by (cases bs) (auto split: if_splits)
    with 2 show ?thesis by (auto simp: utf8_char_two dest!: utf8_cont_digit)
  next
    case 3
    then have "utf8_three a bs = (c, n)" using assms(1) by (simp add: utf8_step_def)
    with assms(2) obtain b d ds where b: "bs = b # d # ds" "utf8_second3 a b" "utf8_cont d" "n = 3"
      "c = (a - 0xE0) * 4096 + (b - 0x80) * 64 + (d - 0x80)"
      by (cases "(a, bs)" rule: utf8_three.cases) (auto split: if_splits)
    then have c: "c = ((a - 0xE0) * 64 + (b - 0x80)) * 64 + (d - 0x80)" by simp
    have "utf8_char c = [0xE0 + (a - 0xE0), 0x80 + (b - 0x80), 0x80 + (d - 0x80)]"
      unfolding c
      by (intro utf8_char_three) (use 3 b in \<open>auto simp: utf8_second3_def utf8_cont_def\<close>)
    with 3 b show ?thesis by (simp add: utf8_second3_def utf8_cont_def)
  next
    case 4
    then have "utf8_four a bs = (c, n)" using assms(1) by (simp add: utf8_step_def)
    with assms(2) obtain b d e es where b: "bs = b # d # e # es" "utf8_second4 a b" "utf8_cont d"
      "utf8_cont e" "n = 4"
      "c = (a - 0xF0) * 262144 + (b - 0x80) * 4096 + (d - 0x80) * 64 + (e - 0x80)"
      by (cases "(a, bs)" rule: utf8_four.cases) (auto split: if_splits)
    then have c: "c = (((a - 0xF0) * 64 + (b - 0x80)) * 64 + (d - 0x80)) * 64 + (e - 0x80)" by simp
    have "utf8_char c =
        [0xF0 + (a - 0xF0), 0x80 + (b - 0x80), 0x80 + (d - 0x80), 0x80 + (e - 0x80)]"
      unfolding c
      by (intro utf8_char_four) (use 4 b in \<open>auto simp: utf8_second4_def utf8_cont_def\<close>)
    with 4 b show ?thesis by (simp add: utf8_second4_def utf8_cont_def)
  qed
qed

lemma utf8_decode_exact:
  "replacement_char \<notin> set (utf8_decode bs) \<Longrightarrow> concat (map utf8_char (utf8_decode bs)) = bs"
proof (induction bs rule: utf8_decode.induct)
  case (2 a bs)
  obtain c n where step: "utf8_step a bs = (c, n)" by (cases "utf8_step a bs")
  then have "utf8_decode (a # bs) = c # utf8_decode (drop (n - 1) bs)" by simp
  with 2 step utf8_step_exact [OF step] show ?case by simp
qed simp

lemma utf8_bytes_concat: "utf8_bytes cs = map word_of_nat (concat (map utf8_char cs))"
  by (simp add: utf8_bytes_def map_concat comp_def)

lemma utf8_bytes_lossy:
  "replacement_char \<notin> set (from_utf8_lossy bs) \<Longrightarrow> utf8_bytes (from_utf8_lossy bs) = bs"
  by (simp add: from_utf8_lossy_def utf8_bytes_concat utf8_decode_exact comp_def)

section \<open>The property\<close>

text \<open>
  The lossy path of an entry is always text; it is the very text when the path is
  UTF-8, and where it holds no replacement character it gives the path back byte for byte.
\<close>

theorem path_lossy_correct:
  "list_all scalar_value (path_lossy E en) \<and>
    (\<forall>cs. list_all scalar_value cs \<and> entry_path E en = utf8_bytes cs \<longrightarrow> path_lossy E en = cs) \<and>
    (replacement_char \<notin> set (path_lossy E en) \<longrightarrow> utf8_bytes (path_lossy E en) = entry_path E en)"
  by (auto simp: path_lossy_def entry_path_def from_utf8_lossy_bytes utf8_bytes_lossy)
    (simp add: from_utf8_lossy_def utf8_decode_scalar)

theorem path_lossy_correct_witness:
  "path_lossy ((sample_cfg True)\<lparr>hdr_path_bytes := \<lambda>h. [0x61, 0xC3, 0xA9, 0xE2, 0x82, 0xAC]\<rparr>)
      \<lparr>en_header = sample_header 3\<rparr> = [0x61, 0xE9, 0x20AC] \<and>
    utf8_bytes [0x61, 0xE9, 0x20AC] = [0x61, 0xC3, 0xA9, 0xE2, 0x82, 0xAC]"
proof -
  let ?E = "(sample_cfg True)\<lparr>hdr_path_bytes := \<lambda>h. [0x61, 0xC3, 0xA9, 0xE2, 0x82, 0xAC]\<rparr>"
  let ?en = "\<lparr>en_header = sample_header 3\<rparr>" and ?cs = "[0x61, 0xE9, 0x20AC]"
  have bytes: "utf8_bytes ?cs = [0x61, 0xC3, 0xA9, 0xE2, 0x82, 0xAC]"
    by (simp add: utf8_bytes_def utf8_char_def)
  have "list_all scalar_value ?cs \<and> entry_path ?E ?en = utf8_bytes ?cs"
    unfolding bytes by (simp add: entry_path_def scalar_value_def)
  then have "path_lossy ?E ?en = ?cs" using path_lossy_correct [of ?E ?en] by blast
  with bytes show ?thesis by blast
qed

text \<open>What is not UTF-8 is replaced, the bytes around it are kept.\<close>

lemma path_lossy_replaces:
  "from_utf8_lossy [0x61, 0xE2, 0x82, 0x62, 0xFF] = [0x61, 0xFFFD, 0x62, 0xFFFD]"
  by (simp add: from_utf8_lossy_def utf8_step_def utf8_second3_def utf8_cont_def
      replacement_char_def)

end
