(* ===== verification/Archive_Tests.thy ===== *)
theory Archive_Tests
  imports Test_Data Lossy_Paths Reader_Calls Encoding
begin

text \<open>
  The tests of whole archives (\<open>src/read/tests.rs\<close>, \<open>src/write/tests.rs\<close>), run on the model. An
  \<open>.await\<close> is one poll here; waiting is the subject of \<open>Waiting\<close>. The objects of the tests, a
  cursor and a vector, belong to other crates: \<open>read\<close> and \<open>W\<close> are parameters with what the tests
  need of them as hypotheses. Not modelled is the test that uses \<open>read_exact\<close> of another crate.
\<close>

section \<open>What the tests share\<close>

definition FILES :: "(string \<times> usize) list" where
  "FILES = [(''512'', 512), (''1024'', 1024), (''500'', 500), (''1000'', 1000)]"

text \<open>\<open>FILES[i]\<close>, and the text of a path literal.\<close>

definition file_at :: "usize \<Rightarrow> (string \<times> usize) outcome" where
  "file_at i = (if i < length FILES then Ok (FILES ! i) else Panic IndexOutOfRange)"

definition path_text :: "string \<Rightarrow> text_chars" where
  "path_text path = map of_char path"

text \<open>A \<open>for\<close> loop whose body may panic or never end.\<close>

fun for_each :: "('a \<Rightarrow> unit outcome option) \<Rightarrow> 'a list \<Rightarrow> unit outcome option" where
  "for_each body [] = Some (Ok ())"
| "for_each body (x # xs) =
     Option.bind (body x) (\<lambda>r. case r of Ok _ \<Rightarrow> for_each body xs | _ \<Rightarrow> Some r)"

definition with_archive ::
  "'io \<Rightarrow> usize \<Rightarrow> ('io archive \<Rightarrow> ('b outcome \<times> 'io archive) option) \<Rightarrow> 'b outcome option" where
  "with_archive io capacity body =
     (case archive_with_capacity io capacity of
        Ok a \<Rightarrow> map_option fst (body a)
      | Err e \<Rightarrow> Some (Err e) | Pending \<Rightarrow> Some Pending | Panic p \<Rightarrow> Some (Panic p))"

text \<open>\<open>assert!(res.is_ok())\<close>, and the two assertions on the kind of an error.\<close>

definition assert_is_ok :: "'a outcome \<Rightarrow> unit outcome" where
  "assert_is_ok res =
     (case res of
        Ok _ \<Rightarrow> Ok () | Err _ \<Rightarrow> Panic AssertFailed | Pending \<Rightarrow> Pending | Panic p \<Rightarrow> Panic p)"

definition assert_err_kind :: "error_kind \<Rightarrow> 'a outcome \<Rightarrow> unit outcome" where
  "assert_err_kind kind res =
     (case res of
        Ok _ \<Rightarrow> Panic AssertFailed | Err e \<Rightarrow> assert_that (io_kind e = kind)
      | Pending \<Rightarrow> Pending | Panic p \<Rightarrow> Panic p)"

section \<open>The tests of reading\<close>

definition expect_no_entry ::
  "cfg \<Rightarrow> 'r reader \<Rightarrow> 'r archive \<Rightarrow> (unit outcome \<times> 'r archive) option" where
  "expect_no_entry E read a =
     (case next_entry_poll E read a of (r, a) \<Rightarrow>
        loop_then (expect_ok r, a) (\<lambda>e a. Some (assert_that (e = None), a)))"

text \<open>\<open>basic\<close>: every piece of data is compared with the bytes of the archive at its position.\<close>

partial_function (option) read_test_data ::
  "cfg \<Rightarrow> 'r reader \<Rightarrow> bytes \<Rightarrow> entry \<Rightarrow> usize \<Rightarrow> 'r archive \<Rightarrow> (usize outcome \<times> 'r archive) option"
  where
  "read_test_data E read data en pos a =
     (case entry_poll_read E read en BLOCK_SIZE a of (r, a) \<Rightarrow>
        loop_then (expect_ok r, a) (\<lambda>bs a.
          if bs = [] then Some (Ok pos, a)
          else
            loop_then (slice_range data pos (pos + length bs), a) (\<lambda>expected a.
            loop_then (assert_that (bs = expected), a) (\<lambda>_ a.
            read_test_data E read data en (pos + length bs) a))))"

partial_function (option) read_test_entries ::
  "cfg \<Rightarrow> 'r reader \<Rightarrow> bytes \<Rightarrow> usize \<Rightarrow> usize \<Rightarrow> 'r archive \<Rightarrow> (unit outcome \<times> 'r archive) option"
  where
  "read_test_entries E read data i pos a =
     (case next_entry_poll E read a of (r, a) \<Rightarrow>
        loop_then (expect_ok r, a) (\<lambda>e a. case e of
            None \<Rightarrow> expect_no_entry E read a
          | Some en \<Rightarrow>
              loop_then (file_at i, a) (\<lambda>file a.
              loop_then (assert_that (path_lossy E en = path_text (fst file)), a) (\<lambda>_ a.
              Option.bind (read_test_data E read data en (pos + BLOCK_SIZE) a) (\<lambda>r.
              loop_then r (\<lambda>pos a.
                read_test_entries E read data (i + 1)
                  (pos + (usize_next_multiple_of (snd file) BLOCK_SIZE - snd file)) a))))))"

declare read_test_data.simps [simp del] read_test_entries.simps [simp del]

definition read_test_basic ::
  "cfg \<Rightarrow> 'r reader \<Rightarrow> (bytes \<Rightarrow> 'r) \<Rightarrow> (string \<Rightarrow> usize \<Rightarrow> header) \<Rightarrow> unit outcome option" where
  "read_test_basic E read cursor make_entry_header =
     (let data = make_archive_data make_entry_header FILES in
      for_each (\<lambda>cap. with_archive (cursor data) cap (read_test_entries E read data 0 0)) [1, 10])"

text \<open>\<open>stream\<close> and \<open>ignore_entry_data\<close>: the entries are checked and skipped.\<close>

definition check_and_skip ::
  "cfg \<Rightarrow> 'r reader \<Rightarrow> string \<times> usize \<Rightarrow> entry \<Rightarrow> 'r archive \<Rightarrow> (unit outcome \<times> 'r archive) option"
  where
  "check_and_skip E read file en a =
     loop_then (assert_that (path_lossy E en = path_text (fst file)), a) (\<lambda>_ a.
     loop_then (entry_len E en, a) (\<lambda>n a.
     loop_then (assert_that (n = word_of_nat (snd file)), a) (\<lambda>_ a.
     case entry_poll_skip E read en a of (r, a) \<Rightarrow> Some (expect_ok r, a))))"

partial_function (option) stream_test_entries ::
  "cfg \<Rightarrow> 'r reader \<Rightarrow> usize \<Rightarrow> 'r archive \<Rightarrow> (unit outcome \<times> 'r archive) option" where
  "stream_test_entries E read i a =
     loop_then (entries_poll_next E read a) (\<lambda>item a. case item of
         None \<Rightarrow> expect_no_entry E read a
       | Some res \<Rightarrow>
           loop_then (file_at i, a) (\<lambda>file a.
           loop_then (expect_ok (of_result res), a) (\<lambda>en a.
           Option.bind (check_and_skip E read file en a) (\<lambda>r.
           loop_then r (\<lambda>_ a. stream_test_entries E read (i + 1) a)))))"

declare stream_test_entries.simps [simp del]

definition read_test_stream ::
  "cfg \<Rightarrow> 'r reader \<Rightarrow> (bytes \<Rightarrow> 'r) \<Rightarrow> (string \<Rightarrow> usize \<Rightarrow> header) \<Rightarrow> unit outcome option" where
  "read_test_stream E read cursor make_entry_header =
     (let data = make_archive_data make_entry_header FILES in
      for_each (\<lambda>cap. with_archive (cursor data) cap (stream_test_entries E read 0)) [1, 10])"

fun ignore_test_entries ::
  "cfg \<Rightarrow> 'r reader \<Rightarrow> (string \<times> usize) list \<Rightarrow> 'r archive \<Rightarrow> (unit outcome \<times> 'r archive) option"
  where
  "ignore_test_entries E read [] a = expect_no_entry E read a"
| "ignore_test_entries E read (file # files) a =
     (case next_entry_poll E read a of (r, a) \<Rightarrow>
        loop_then (bind_outcome (expect_ok r) expect_some, a) (\<lambda>en a.
        Option.bind (check_and_skip E read file en a) (\<lambda>r.
        loop_then r (\<lambda>_ a. ignore_test_entries E read files a))))"

definition read_test_ignore_entry_data ::
  "cfg \<Rightarrow> 'r reader \<Rightarrow> (bytes \<Rightarrow> 'r) \<Rightarrow> (string \<Rightarrow> usize \<Rightarrow> header) \<Rightarrow> unit outcome option" where
  "read_test_ignore_entry_data E read cursor make_entry_header =
     (let data = make_archive_data make_entry_header FILES in
      for_each (\<lambda>cap. with_archive (cursor data) cap (ignore_test_entries E read FILES)) [1, 10])"

text \<open>
  \<open>expect_eof\<close>: the data is cut. The random offsets of the test are a parameter.
\<close>

definition expect_eof ::
  "cfg \<Rightarrow> 'r reader \<Rightarrow> (bytes \<Rightarrow> 'r) \<Rightarrow> bytes \<Rightarrow> usize \<Rightarrow> usize \<Rightarrow> unit outcome option" where
  "expect_eof E read cursor data cap offset =
     (case slice_to data offset of
        Ok data \<Rightarrow>
          map_option (assert_err_kind UnexpectedEof)
            (with_archive (cursor data) cap (read_archive E read BLOCK_SIZE []))
      | Err e \<Rightarrow> Some (Err e) | Pending \<Rightarrow> Some Pending | Panic p \<Rightarrow> Some (Panic p))"

definition read_test_unexpected_eof_at ::
  "cfg \<Rightarrow> 'r reader \<Rightarrow> (bytes \<Rightarrow> 'r) \<Rightarrow> (string \<Rightarrow> usize \<Rightarrow> header) \<Rightarrow> usize list \<Rightarrow> unit outcome option"
  where
  "read_test_unexpected_eof_at E read cursor make_entry_header offsets =
     (let data = make_archive_data make_entry_header FILES in
      for_each (\<lambda>offset. for_each (\<lambda>cap. expect_eof E read cursor data cap offset) [1, 10]) offsets)"

definition read_test_unexpected_eof_cases ::
  "cfg \<Rightarrow> 'r reader \<Rightarrow> (bytes \<Rightarrow> 'r) \<Rightarrow> (string \<Rightarrow> usize \<Rightarrow> header) \<Rightarrow> unit outcome option" where
  "read_test_unexpected_eof_cases E read cursor make_entry_header =
     (let data = make_archive_data make_entry_header FILES in
      for_each (\<lambda>(cap, offset). expect_eof E read cursor data cap offset) [(1, 5098)])"

section \<open>The tests of writing\<close>

fun write_test_archive ::
  "cfg \<Rightarrow> 'w writer \<Rightarrow> (string \<Rightarrow> usize \<Rightarrow> header) \<Rightarrow> (string \<times> usize) list \<Rightarrow> 'w archive \<Rightarrow>
    (unit outcome \<times> 'w archive) option" where
  "write_test_archive E W make_entry_header [] a = archive_finish E W a"
| "write_test_archive E W make_entry_header ((path, amount) # files) a =
     Option.bind (add_entry E W (make_entry_header path amount) a) (\<lambda>r.
     loop_then r (\<lambda>en a.
     loop_then (slice_to (make_entry_data amount) amount, a) (\<lambda>buf a.
     Option.bind (entry_poll_write E W en buf a) (\<lambda>r.
     loop_then r (\<lambda>n a.
     loop_then (assert_that (n = amount), a) (\<lambda>_ a.
     write_test_archive E W make_entry_header files a))))))"

definition write_test_basic ::
  "cfg \<Rightarrow> 'w writer \<Rightarrow> ('w \<Rightarrow> bytes) \<Rightarrow> 'w \<Rightarrow> (string \<Rightarrow> usize \<Rightarrow> header) \<Rightarrow> unit outcome option" where
  "write_test_basic E W sent io make_entry_header =
     (let data = make_archive_data make_entry_header FILES in
      for_each (\<lambda>cap. with_archive io cap (\<lambda>a.
        Option.bind (write_test_archive E W make_entry_header FILES a) (\<lambda>(res, a).
        loop_then (assert_is_ok res, a) (\<lambda>_ a.
        loop_then (assert_that (length (sent (into_inner a)) = length data), a) (\<lambda>_ a.
        Some (assert_that (sent (into_inner a) = data), a)))))) [1, 10])"

definition write_test_overlapping_entries ::
  "cfg \<Rightarrow> 'w writer \<Rightarrow> 'w \<Rightarrow> (string \<Rightarrow> usize \<Rightarrow> header) \<Rightarrow> unit outcome option" where
  "write_test_overlapping_entries E W io make_entry_header =
     for_each (\<lambda>cap. with_archive io cap (\<lambda>a.
       loop_then (file_at 0, a) (\<lambda>(path, size) a.
       Option.bind (add_entry E W (make_entry_header path size) a) (\<lambda>(r, a).
       loop_then (expect_ok r, a) (\<lambda>en a.
       loop_then (slice_to (make_entry_data size) 100, a) (\<lambda>buf a.
       Option.bind (entry_poll_write E W en buf a) (\<lambda>(r, a).
       loop_then (expect_ok r, a) (\<lambda>n a.
       loop_then (assert_that (n = 100), a) (\<lambda>_ a.
       loop_then (file_at 1, a) (\<lambda>(path, size) a.
       Option.bind (add_entry E W (make_entry_header path size) a) (\<lambda>(res, a).
       Some (assert_err_kind Unsupported res, a)))))))))))) [1, 10]"

section \<open>What the tests suppose\<close>

text \<open>
  The headers of \<open>make_entry_header\<close>: it sets the path, the size and the checksum, and the
  \<open>tar\<close> crate reads back what it set.
\<close>

definition test_headers :: "cfg \<Rightarrow> (string \<Rightarrow> usize \<Rightarrow> header) \<Rightarrow> bool" where
  "test_headers E mk \<longleftrightarrow>
     list_all (\<lambda>(path, size).
       valid_header E (mk path size) (word_of_nat size) \<and> mk path size ! 0 \<noteq> 0 \<and>
       hdr_path_bytes E (mk path size) = map of_char path) FILES"

text \<open>An object like \<open>Vec<u8>\<close>: it prefers vectored writes and takes all it is offered.\<close>

definition greedy :: "'w writer \<Rightarrow> bool" where
  "greedy W \<longleftrightarrow> willing W \<and> (\<forall>w. wr_is_write_vectored W w) \<and>
     (\<forall>w bs n w'. wr_poll_write W w bs = (Ok n, w') \<longrightarrow> n = length bs) \<and>
     (\<forall>w bufs n w'. wr_poll_write_vectored W w bufs = (Ok n, w') \<longrightarrow> n = length (concat bufs))"

section \<open>The sample entries\<close>

lemma FILES_sizes: "(path, n) \<in> set FILES \<Longrightarrow> 0 < n \<and> n \<le> 1024"
  by (auto simp: FILES_def)

lemma path_text_lossy: "(path, n) \<in> set FILES \<Longrightarrow> from_utf8_lossy (map of_char path) = path_text path"
  by (auto simp: FILES_def path_text_def from_utf8_lossy_ascii)

lemma test_headersD:
  assumes "test_headers E mk" and "(path, n) \<in> set FILES"
  shows "valid_header E (mk path n) (word_of_nat n)" and "mk path n ! 0 \<noteq> 0"
    and "path_lossy E \<lparr>en_header = mk path n\<rparr> = path_text path"
    and "entry_fits E (sample_entry mk (path, n))" and "snd (sample_entry mk (path, n)) \<noteq> []"
    and "entry_len E \<lparr>en_header = mk path n\<rparr> = Ok (word_of_nat n)"
    and "length (snd (sample_entry mk (path, n))) = n"
    and "unat (word_of_nat n :: u64) = n"
proof -
  have "valid_header E (mk path n) (word_of_nat n) \<and> mk path n ! 0 \<noteq> 0 \<and>
      hdr_path_bytes E (mk path n) = map of_char path"
    using assms by (auto simp: test_headers_def list_all_iff)
  moreover note FILES_sizes [OF assms(2)] path_text_lossy [OF assms(2)]
  moreover from this have small: "unat (word_of_nat n :: u64) = n"
    by (simp add: unsigned_of_nat take_bit_nat_eq_self)
  ultimately show "valid_header E (mk path n) (word_of_nat n)" "mk path n ! 0 \<noteq> 0"
    "path_lossy E \<lparr>en_header = mk path n\<rparr> = path_text path"
    "entry_fits E (sample_entry mk (path, n))" "snd (sample_entry mk (path, n)) \<noteq> []"
    "entry_len E \<lparr>en_header = mk path n\<rparr> = Ok (word_of_nat n)"
    "length (snd (sample_entry mk (path, n))) = n"
    "unat (word_of_nat n :: u64) = n"
    using valid_headerD(4) [of E "mk path n" "word_of_nat n"]
    by (auto simp: path_lossy_def entry_fits_def sample_entry_def entry_len_def min_def
        simp flip: length_0_conv split: if_splits)
qed

lemma drop_FILES:
  assumes "f # files = drop i FILES"
  shows "file_at i = Ok f" and "files = drop (Suc i) FILES" and "set (f # files) \<subseteq> set FILES"
proof -
  have "i < length FILES" using assms by (metis drop_all list.simps(3) not_less)
  with assms show "file_at i = Ok f" "files = drop (Suc i) FILES"
    by (simp_all add: file_at_def Cons_nth_drop_Suc [symmetric])
  show "set (f # files) \<subseteq> set FILES" unfolding assms by (rule set_drop_subset)
qed

section \<open>The tests of reading pass\<close>

lemma for_each_ok: "(\<And>x. x \<in> set xs \<Longrightarrow> body x = Some (Ok ())) \<Longrightarrow> for_each body xs = Some (Ok ())"
  by (induction xs) simp_all

text \<open>The next entry of the archive, for every kind of client.\<close>

lemma test_next_entry:
  assumes "test_headers E mk" and "set ((path, n) # files) \<subseteq> set FILES"
    and "archive_wf a" and "block_source read rest" and "entry_gap (ar_state a) = Some 0"
    and "unread rest a = archive_bytes (map (sample_entry mk) ((path, n) # files))"
    and "aligned 0 rest (ar_io a)"
  obtains a' where "poll_next_entry E read a = (Ok (Some \<lparr>en_header = mk path n\<rparr>), a')"
    and "archive_wf a'" and "ar_state a' = ReceivingData (word_of_nat n)"
    and "unread rest a' = snd (sample_entry mk (path, n)) @ replicate (padding 512 n) 0 @
      archive_bytes (map (sample_entry mk) files)"
    and "aligned 0 rest (ar_io a')"
proof -
  have "entry_fits E e" if "e \<in> set (sample_entry mk (path, n) # map (sample_entry mk) files)" for e
    using that assms(2) test_headersD(4) [OF assms(1)] by (auto 4 3)
  note an_entry = archive_next_entry [OF assms(3,4) this assms(5), where e = "sample_entry mk (path, n)"
      and es = "map (sample_entry mk) files" and tail = "[]" and lack = 0]
  have "fst (sample_entry mk (path, n)) = mk path n" by (simp add: sample_entry_def)
  with assms(6,7) obtain m a' where a': "valid_header E (mk path n) m"
      "poll_next_entry E read a = (Ok (Some \<lparr>en_header = mk path n\<rparr>), a')" "archive_wf a'"
      "ar_state a' = ReceivingData m"
      "unread rest a' = snd (sample_entry mk (path, n)) @ replicate (padding 512 (unat m)) 0 @
        archive_bytes (map (sample_entry mk) files)"
      "aligned 0 rest (ar_io a')"
    by (rule_tac an_entry) simp_all
  moreover have "(path, n) \<in> set FILES" using assms(2) by simp
  note test_headersD(1,8) [OF assms(1) this]
  moreover from this a'(1) have "m = word_of_nat n"
    by (metis valid_headerD(4) sum.inject(2))
  ultimately show thesis by (intro that) simp_all
qed

lemma test_no_entry:
  assumes "archive_wf a" and "block_source read rest" and "entry_gap (ar_state a) = Some 0"
    and "unread rest a = archive_bytes []"
  obtains a' where "poll_next_entry E read a = (Ok None, a')"
    and "expect_no_entry E read a' = Some (Ok (), a')" and "expect_no_entry E read a = Some (Ok (), a')"
proof -
  from archive_no_entry [OF assms(1-3), of "[]" E] assms(4) obtain a'
    where a': "poll_next_entry E read a = (Ok None, a')" "ar_state a' = ReceivedEof" by auto
  then have "poll_next_entry E read a' = (Ok None, a')" by (simp add: poll_next_entry_def)
  with a' show thesis by (intro that) (simp_all add: expect_no_entry_def next_entry_poll_eq)
qed

text \<open>Skipping.\<close>

lemma check_and_skip_ok:
  assumes "test_headers E mk" and "(path, n) \<in> set FILES"
    and "archive_wf a" and "block_source read rest" and "ar_state a = ReceivingData (word_of_nat n)"
    and "unread rest a = snd (sample_entry mk (path, n)) @ replicate (padding 512 n) 0 @
      archive_bytes es"
    and "aligned 0 rest (ar_io a)"
  obtains a' where "check_and_skip E read (path, n) \<lparr>en_header = mk path n\<rparr> a = Some (Ok (), a')"
    and "archive_wf a'" and "entry_gap (ar_state a') = Some 0"
    and "unread rest a' = archive_bytes es" and "aligned 0 rest (ar_io a')"
proof -
  note hdr = test_headersD [OF assms(1,2)]
  note size = valid_headerD(4,6) [OF hdr(1)]
  have seq: "sequential read rest" using assms(4) by (simp add: block_source_def)
  have "0 < n" using FILES_sizes [OF assms(2)] by simp
  then have st: "ar_state a = ReceivingData (word_of_nat n) \<and> 0 < unat (word_of_nat n :: u64) \<and>
        length (snd (sample_entry mk (path, n))) = unat (word_of_nat n :: u64) \<or>
      ar_state a = AligningData (length (replicate (padding 512 n) (0 :: u8))) \<and>
        snd (sample_entry mk (path, n)) = []"
    using assms(5) hdr(7,8) by simp
  have "length (replicate (padding 512 n) (0 :: u8)) = padding 512 (unat (word_of_nat n :: u64))"
    using hdr(8) by simp
  from skip_entry_rest [OF assms(3) seq st assms(6) this _ size, of 0] obtain a'
    where "poll_skip_entry E read (mk path n) a = (Ok (), a')" "archive_wf a'"
      "ar_state a' = ExpectingHeader" "unread rest a' = archive_bytes es" "aligned 0 rest (ar_io a')"
    using assms(4,7) by auto
  with hdr show thesis
    by (intro that [of a']) (simp_all add: check_and_skip_def entry_poll_skip_def)
qed

lemma stream_test_entries_ok:
  assumes "test_headers E mk" and "files = drop i FILES"
    and "archive_wf a" and "block_source read rest" and "entry_gap (ar_state a) = Some 0"
    and "unread rest a = archive_bytes (map (sample_entry mk) files)" and "aligned 0 rest (ar_io a)"
  shows "\<exists>a'. stream_test_entries E read i a = Some (Ok (), a')"
  using assms
proof (induction files arbitrary: i a)
  case Nil
  then obtain a' where "poll_next_entry E read a = (Ok None, a')"
      "expect_no_entry E read a' = Some (Ok (), a')"
    by (elim test_no_entry) auto
  then show ?case by (simp add: stream_test_entries.simps [of E read i a] entries_poll_next_def)
next
  case (Cons f files)
  obtain path n where f: "f = (path, n)" by (cases f)
  have at: "file_at i = Ok (path, n)" "files = drop (Suc i) FILES" "set (f # files) \<subseteq> set FILES"
    using drop_FILES [OF Cons.prems(2)] f by simp_all
  from test_next_entry [OF Cons.prems(1) at(3) [unfolded f] Cons.prems(3-5)
      Cons.prems(6) [unfolded f] Cons.prems(7)]
  obtain a1 where a1: "poll_next_entry E read a = (Ok (Some \<lparr>en_header = mk path n\<rparr>), a1)"
    "archive_wf a1" "ar_state a1 = ReceivingData (word_of_nat n)"
    "unread rest a1 = snd (sample_entry mk (path, n)) @ replicate (padding 512 n) 0 @
      archive_bytes (map (sample_entry mk) files)" "aligned 0 rest (ar_io a1)" .
  have "(path, n) \<in> set FILES" using at(3) f by simp
  from check_and_skip_ok [OF Cons.prems(1) this a1(2) Cons.prems(4) a1(3-5)] obtain a2
    where a2: "check_and_skip E read (path, n) \<lparr>en_header = mk path n\<rparr> a1 = Some (Ok (), a2)"
      "archive_wf a2" "entry_gap (ar_state a2) = Some 0"
      "unread rest a2 = archive_bytes (map (sample_entry mk) files)" "aligned 0 rest (ar_io a2)" .
  then have "\<exists>a'. stream_test_entries E read (i + 1) a2 = Some (Ok (), a')"
    using Cons.IH [OF Cons.prems(1) _ a2(2) Cons.prems(4) a2(3-5)] at(2) by simp
  with a1(1) a2(1) at(1) show ?case
    by (simp add: stream_test_entries.simps [of E read i a] entries_poll_next_def)
qed

lemma ignore_test_entries_ok:
  assumes "test_headers E mk" and "set files \<subseteq> set FILES"
    and "archive_wf a" and "block_source read rest" and "entry_gap (ar_state a) = Some 0"
    and "unread rest a = archive_bytes (map (sample_entry mk) files)" and "aligned 0 rest (ar_io a)"
  shows "\<exists>a'. ignore_test_entries E read files a = Some (Ok (), a')"
  using assms
proof (induction files arbitrary: a)
  case Nil
  then show ?case by (elim test_no_entry) auto
next
  case (Cons f files)
  obtain path n where f: "f = (path, n)" by (cases f)
  from test_next_entry [OF Cons.prems(1) Cons.prems(2) [unfolded f] Cons.prems(3-5)
      Cons.prems(6) [unfolded f] Cons.prems(7)]
  obtain a1 where a1: "poll_next_entry E read a = (Ok (Some \<lparr>en_header = mk path n\<rparr>), a1)"
    "archive_wf a1" "ar_state a1 = ReceivingData (word_of_nat n)"
    "unread rest a1 = snd (sample_entry mk (path, n)) @ replicate (padding 512 n) 0 @
      archive_bytes (map (sample_entry mk) files)" "aligned 0 rest (ar_io a1)" .
  have "(path, n) \<in> set FILES" using Cons.prems(2) f by simp
  from check_and_skip_ok [OF Cons.prems(1) this a1(2) Cons.prems(4) a1(3-5)] obtain a2
    where a2: "check_and_skip E read (path, n) \<lparr>en_header = mk path n\<rparr> a1 = Some (Ok (), a2)"
      "archive_wf a2" "entry_gap (ar_state a2) = Some 0"
      "unread rest a2 = archive_bytes (map (sample_entry mk) files)" "aligned 0 rest (ar_io a2)" .
  then have "\<exists>a'. ignore_test_entries E read files a2 = Some (Ok (), a')"
    using Cons.IH [OF Cons.prems(1) _ a2(2) Cons.prems(4) a2(3-5)] Cons.prems(2) by simp
  with a1(1) a2(1) f show ?case by (simp add: next_entry_poll_eq)
qed

lemma drop_past: "drop pos data = xs @ ys \<Longrightarrow> drop (pos + length xs) data = ys"
  by (metis add.commute append_eq_conv_conj drop_drop)

text \<open>The data of an entry, piece by piece, is what the archive holds at that position.\<close>

lemma read_test_data_run:
  assumes "read_entry_all E read en room acc a = Some y"
  shows "room = BLOCK_SIZE \<longrightarrow> (\<forall>out a'. y = (Ok out, a') \<longrightarrow> (\<exists>ds. out = acc @ ds \<and>
    (\<forall>pos tail. drop pos data = ds @ tail \<longrightarrow> pos \<le> length data \<longrightarrow>
      read_test_data E read data en pos a = Some (Ok (pos + length ds), a'))))"
proof (rule read_entry_all.raw_induct [OF _ assms], intro allI impI, goal_cases)
  case (1 rec E read en room acc a y out a')
  from 1(2) [unfolded 1(4)] obtain bs a1
    where bs: "entry_poll_read E read en room a = (Ok bs, a1)"
      and rest: "(if bs = [] then Some (Ok acc, a1) else rec E read en room (acc @ bs) a1) =
        Some (Ok out, a')"
    by (auto simp: loop_then_eq_Ok)
  show ?case
  proof (cases "bs = []")
    case True
    with bs rest 1(3) show ?thesis
      by (intro exI [of _ "[]"]) (simp add: read_test_data.simps [of E read data en])
  next
    case False
    with rest 1(1) [of E read en room "acc @ bs" a1 "(Ok out, a')"] 1(3)
    obtain ds where ds: "out = (acc @ bs) @ ds"
      "\<And>pos tail. drop pos data = ds @ tail \<Longrightarrow> pos \<le> length data \<Longrightarrow>
        read_test_data E read data en pos a1 = Some (Ok (pos + length ds), a')"
      by auto
    have "read_test_data E read data en pos a = Some (Ok (pos + length (bs @ ds)), a')"
      if "drop pos data = (bs @ ds) @ tail" "pos \<le> length data" for pos tail
    proof -
      have le: "pos + length bs \<le> length data"
        using arg_cong [OF that(1), of length] that(2) by simp
      have "drop (pos + length bs) data = ds @ tail" "take (length bs) (drop pos data) = bs"
        using that(1) drop_past [OF that(1) [unfolded append_assoc]] by simp_all
      with bs False 1(3) ds(2) [of "pos + length bs" tail] le show ?thesis
        by (simp add: read_test_data.simps [of E read data en pos] slice_range_def drop_take)
    qed
    with ds(1) show ?thesis by (intro exI [of _ "bs @ ds"]) simp
  qed
qed

lemma read_test_data_ok:
  assumes "read_entry_all E read en BLOCK_SIZE [] a = Some (Ok ds, a')"
    and "drop pos data = ds @ tail" and "pos \<le> length data"
  shows "read_test_data E read data en pos a = Some (Ok (pos + length ds), a')"
  using read_test_data_run [OF assms(1), of data] assms(2,3) by auto

lemma read_test_entries_ok:
  assumes "test_headers E mk" and "files = drop i FILES"
    and "archive_wf a" and "block_source read rest" and "entry_gap (ar_state a) = Some 0"
    and "unread rest a = archive_bytes (map (sample_entry mk) files)" and "aligned 0 rest (ar_io a)"
    and "drop pos data = archive_bytes (map (sample_entry mk) files)"
  shows "\<exists>a'. read_test_entries E read data i pos a = Some (Ok (), a')"
  using assms
proof (induction files arbitrary: i pos a)
  case Nil
  then obtain a' where "poll_next_entry E read a = (Ok None, a')"
      "expect_no_entry E read a' = Some (Ok (), a')"
    by (elim test_no_entry) auto
  then show ?case by (simp add: read_test_entries.simps [of E read data i pos a] next_entry_poll_eq)
next
  case (Cons f files)
  obtain path n where f: "f = (path, n)" by (cases f)
  have at: "file_at i = Ok (path, n)" "files = drop (Suc i) FILES" "set (f # files) \<subseteq> set FILES"
    using drop_FILES [OF Cons.prems(2)] f by simp_all
  let ?es = "archive_bytes (map (sample_entry mk) files)"
    and ?ds = "snd (sample_entry mk (path, n))" and ?pad = "replicate (padding 512 n) (0 :: u8)"
  from test_next_entry [OF Cons.prems(1) at(3) [unfolded f] Cons.prems(3-5)
      Cons.prems(6) [unfolded f] Cons.prems(7)]
  obtain a1 where a1: "poll_next_entry E read a = (Ok (Some \<lparr>en_header = mk path n\<rparr>), a1)"
    "archive_wf a1" "ar_state a1 = ReceivingData (word_of_nat n)"
    "unread rest a1 = ?ds @ ?pad @ ?es" "aligned 0 rest (ar_io a1)" .
  have mem: "(path, n) \<in> set FILES" using at(3) f by simp
  note hdr = test_headersD [OF Cons.prems(1) mem]
  note hdrD = valid_headerD [OF hdr(1)]
  have seq: "sequential read rest" using Cons.prems(4) by (simp add: block_source_def)
  have "?pad @ ?es \<noteq> []" by simp
  from read_entry_all_entry [OF a1(2) seq _ a1(3) _ a1(4) _ this, of BLOCK_SIZE E
      "\<lparr>en_header = mk path n\<rparr>" 0] hdrD hdr(7,8) Cons.prems(4) a1(5)
  obtain a2 where a2: "read_entry_all E read \<lparr>en_header = mk path n\<rparr> BLOCK_SIZE [] a1 = Some (Ok ?ds, a2)"
    "archive_wf a2" "entry_gap (ar_state a2) = Some 0" "unread rest a2 = ?es"
    "aligned 0 rest (ar_io a2)"
    by auto
  obtain ds where ds: "sample_entry mk (path, n) = (mk path n, ds)" by (simp add: sample_entry_def)
  have "drop pos data = mk path n @ ?ds @ ?pad @ ?es"
    using Cons.prems(8) hdr(7) by (simp add: f archive_bytes_simps ds)
  from drop_past [OF this] have d1: "drop (pos + 512) data = ?ds @ ?pad @ ?es"
    using hdrD(1) by simp
  from drop_past [OF drop_past [OF this]]
  have d2: "drop (pos + 512 + n + padding 512 n) data = ?es" using hdr(7) by simp
  have "drop (pos + 512) data \<noteq> []" using d1 by simp
  then have "pos + 512 \<le> length data" by simp
  from read_test_data_ok [OF a2(1) d1 this] hdr(7)
  have run: "read_test_data E read data \<lparr>en_header = mk path n\<rparr> (pos + BLOCK_SIZE) a1 =
      Some (Ok (pos + 512 + n), a2)"
    by simp
  have "\<exists>a'. read_test_entries E read data (i + 1) (pos + 512 + n + padding 512 n) a2 = Some (Ok (), a')"
    using Cons.IH [OF Cons.prems(1) _ a2(2) Cons.prems(4) a2(3-5) d2] at(2) by simp
  with a1(1) run at(1) hdr(3) show ?case
    by (simp add: read_test_entries.simps [of E read data i pos a] next_entry_poll_eq
        usize_next_multiple_of_eq)
qed

lemma with_archive_ok:
  assumes "0 < cap" and "cap \<le> 10"
    and "\<And>a. archive_wf a \<Longrightarrow> ar_state a = ExpectingHeader \<Longrightarrow> ar_io a = io \<Longrightarrow> ar_bytes a = [] \<Longrightarrow>
      \<exists>a'. body a = Some (r, a')"
  shows "with_archive io cap body = Some r"
proof -
  have "cap * 512 \<le> usize_max" using assms(2) by (simp add: usize_max_def usize_bits_def)
  from archive_with_capacity_Ok [OF assms(1) this] obtain a
    where a: "archive_with_capacity io cap = Ok a" "archive_wf a" "ar_state a = ExpectingHeader"
      "ar_io a = io" "ar_bytes a = []" by metis
  with assms(3) obtain a' where "body a = Some (r, a')" by blast
  with a(1) show ?thesis by (simp add: with_archive_def)
qed

lemma read_tests_pass:
  assumes "test_headers E mk" and src: "block_source read rest" and "\<And>d. rest (cursor d) = d"
  shows "read_test_basic E read cursor mk = Some (Ok ())"
    and "read_test_stream E read cursor mk = Some (Ok ())"
    and "read_test_ignore_entry_data E read cursor mk = Some (Ok ())"
proof -
  define data where "data = make_archive_data mk FILES"
  have data: "data = archive_bytes (map (sample_entry mk) FILES)"
    by (simp add: data_def make_archive_data_layout)
  have "entry_fits E e" if "e \<in> set (map (sample_entry mk) FILES)" for e
    using that test_headersD(4) [OF assms(1)] by auto
  then have dvd: "512 dvd length data" unfolding data by (rule dvd_length_archive_bytes)
  have start: "entry_gap (ar_state a) = Some 0" "unread rest a = data" "aligned 0 rest (cursor data)"
    if "ar_state a = ExpectingHeader" "ar_io a = cursor data" "ar_bytes a = []" for a
    using that assms(3) dvd by (simp_all add: unread_def aligned_def)
  show "read_test_basic E read cursor mk = Some (Ok ())"
    unfolding read_test_basic_def Let_def data_def [symmetric]
    by (rule for_each_ok, rule with_archive_ok)
      (auto intro!: read_test_entries_ok [OF assms(1) _ _ src] simp: start data [symmetric])
  show "read_test_stream E read cursor mk = Some (Ok ())"
    unfolding read_test_stream_def Let_def data_def [symmetric]
    by (rule for_each_ok, rule with_archive_ok)
      (auto intro!: stream_test_entries_ok [OF assms(1) _ _ src] simp: start data [symmetric])
  show "read_test_ignore_entry_data E read cursor mk = Some (Ok ())"
    unfolding read_test_ignore_entry_data_def Let_def data_def [symmetric]
    by (rule for_each_ok, rule with_archive_ok)
      (auto intro!: ignore_test_entries_ok [OF assms(1) _ _ src] simp: start data [symmetric])
qed

lemma expect_eof_ok:
  assumes "test_headers E mk" and "block_source read rest" and "\<And>d. rest (cursor d) = d"
    and "0 < cap" and "cap \<le> 10" and "offset < length (make_archive_data mk FILES)"
  shows "expect_eof E read cursor (make_archive_data mk FILES) cap offset = Some (Ok ())"
proof -
  let ?es = "map (sample_entry mk) FILES"
  have "cap * 512 \<le> usize_max" using assms(5) by (simp add: usize_max_def usize_bits_def)
  moreover have "list_all (entry_fits E) ?es"
    using test_headersD(4) [OF assms(1)] by (auto simp: list_all_iff)
  ultimately obtain a a' where "archive_with_capacity (cursor (take offset (archive_bytes ?es))) cap = Ok a"
      "read_archive E read BLOCK_SIZE [] a = Some (Err unexpected_eof, a')"
    using read_archive_cut_short [OF assms(2) _ assms(4), of BLOCK_SIZE E ?es
        "cursor (take offset (archive_bytes ?es))" offset] assms(3,6)
    by (auto simp: make_archive_data_layout)
  with assms(6) show ?thesis
    by (simp add: expect_eof_def slice_in_range make_archive_data_layout with_archive_def
        assert_err_kind_def unexpected_eof_def)
qed

section \<open>The tests of writing pass\<close>

text \<open>A greedy object takes every write of the data of an entry whole.\<close>

lemma pass_through_greedy:
  assumes sink: "appends W sent" "greedy W" and len: "len = length (prefix_bytes p)" "len \<le> usize_max"
    and run: "pass_through E W p len a = (Ok n, a')"
  shows "n = len"
proof -
  have bytes: "prefix_bytes p = concat (prefix_slices p) @ prefix_remainder p"
    by (rule prefix_bytes_eq)
  have willing: "willing W" using sink(2) by (simp add: greedy_def)
  obtain m io1 where io1: "wr_poll_write_vectored W (ar_io a) (prefix_slices p) = (Ok m, io1)"
    by (rule willing_vectored [OF willing])
  obtain w io2 where io2: "wr_poll_write W io1 (prefix_remainder p) = (Ok w, io2)"
    by (rule willingD [OF willing])
  have "m = length (concat (prefix_slices p))" "w = length (prefix_remainder p)"
    using io1 io2 sink(2) unfolding greedy_def by blast+
  with run io1 io2 len show ?thesis
    by (simp add: pass_through_def usize_sub_def usize_add_def bytes)
qed

lemma write_vectored_greedy:
  assumes wf: "archive_wf a" and sink: "appends W sent" "greedy W"
    and len: "length (take m (concat bufs)) \<le> usize_max"
    and take: "take_slices E (ar_state a) [take m (concat bufs)] h =
      Ok (st, length (take m (concat bufs)))"
    and run: "poll_write_vectored E W bufs m h a = (Ok n, a')"
  shows "n = length (take m (concat bufs))"
proof -
  define data where "data = take m (concat bufs)"
  obtain p where p: "prefix_bytes p = data" and run_eq: "poll_write_vectored E W bufs m h a =
      and_then (make_room E W (length data) a) (\<lambda>_ b.
      and_then
        (if passes W (length data) a then pass_through E W p (length data) b
         else fill_buffer E p b) (\<lambda>n c.
      and_then (if n = length data then Ok st else state_after E (ar_state c) p h n, c) (\<lambda>st d.
      (Ok n, d\<lparr>ar_state := st\<rparr>))))"
    by (rule write_vectored_eq [OF wf len take, of W, folded data_def]) (rule that)
  have willing: "willing W" using sink(2) by (simp add: greedy_def)
  obtain a1 where a1: "make_room E W (length data) a = (Ok (), a1)"
    by (rule make_room_willing [OF wf sink(1) willing])
  note room = make_room_spec [OF wf sink(1) a1]
  from run run_eq a1 obtain a2 where a2: "(if passes W (length data) a
      then pass_through E W p (length data) a1 else fill_buffer E p a1) = (Ok n, a2)"
    by (auto simp: and_then_eq_Ok)
  show ?thesis
  proof (cases "passes W (length data) a")
    case True
    with a2 have "pass_through E W p (length data) a1 = (Ok n, a2)" by simp
    from pass_through_greedy [OF sink _ _ this] p len show ?thesis by (simp add: data_def)
  next
    case False
    have "wr_is_write_vectored W (ar_io a)" using sink(2) by (simp add: greedy_def)
    with False have "length data \<le> ar_capacity a" by (simp add: passes_def)
    then have "length data \<le> buf_room (ar_buf a1)" using room by auto
    moreover have "archive_wf a1" using room by simp
    note fill_buffer_spec [OF this, of E p]
    ultimately show ?thesis
      using a2 False p by (auto simp: data_def min_absorb1)
  qed
qed

lemma entry_write_result:
  assumes "ar_state a = ReceivingData rem" and "entry_poll_write E W en buf a = Some (Ok k, a')"
  obtains a1 where "poll_write_vectored E W [buf] (unat rem) (Some (en_header en)) a = (Ok k, a1)"
proof -
  obtain r a1 where r: "poll_write_vectored E W [buf] (unat rem) (Some (en_header en)) a = (r, a1)"
    by fastforce
  have "r = Ok k"
    using assms r
    by (cases r)
      (auto simp: entry_poll_write_def entry_poll_write_vectored_def poll_write_entry_def
        loop_then_eq_Ok bind_eq_Some_conv split: if_splits outcome.splits,
       (metis (full_types) old.unit.exhaust outcome.exhaust)+)
  with r that show thesis by simp
qed

lemma entry_write_greedy:
  assumes wf: "archive_wf a" and sink: "appends W sent" "greedy W"
    and st: "ar_state a = ReceivingData rem" and buf: "buf \<noteq> []" "length buf \<le> unat rem"
    and size: "hdr_entry_size E (en_header en) = Inr n"
      "\<not> debug_assertions E \<or> unat n + 511 < 2 ^ 64"
  obtains a' where "entry_poll_write E W en buf a = Some (Ok (length buf), a')" and "archive_wf a'"
    and "length buf = unat rem \<Longrightarrow> ar_state a' = ExpectingHeader \<and>
      written sent a' = written sent a @ buf @ replicate (padding 512 (unat n)) 0"
    and "length buf < unat rem \<Longrightarrow> ar_state a' = ReceivingData (rem - word_of_nat (length buf))"
proof -
  have willing: "willing W" using sink(2) by (simp add: greedy_def)
  from entry_write [OF wf sink(1) willing st buf size] obtain k a'
    where k: "entry_poll_write E W en buf a = Some (Ok k, a')" "archive_wf a'"
      "if k = unat rem then ar_state a' = ExpectingHeader \<and>
         written sent a' = written sent a @ buf @ replicate (padding 512 (unat n)) 0
       else ar_state a' = ReceivingData (rem - word_of_nat k) \<and>
         written sent a' = written sent a @ take k buf" .
  obtain a1 where run: "poll_write_vectored E W [buf] (unat rem) (Some (en_header en)) a = (Ok k, a1)"
    by (rule entry_write_result [OF st k(1)])
  have data: "take (unat rem) (concat [buf]) = buf" using buf(2) by simp
  have "length buf \<le> usize_max" using buf(2) unat_le_usize_max [of rem] by simp
  moreover have "take_slices E (ar_state a) [buf] (Some (en_header en)) =
      Ok (if length buf = unat rem then ReceivedData
        else ReceivingData (rem - word_of_nat (length buf)), length buf)"
    using take_data_piece [OF buf(2), of E "Some (en_header en)"] st
    by (simp add: take_slices_eq_take_until)
  ultimately have "k = length buf"
    using write_vectored_greedy [OF wf sink _ _ run, unfolded data] by blast
  with k show thesis by (intro that [of a']) (auto split: if_splits)
qed

lemma write_test_archive_ok:
  assumes "test_headers E mk" and "set files \<subseteq> set FILES"
    and "archive_wf a" and sink: "appends W sent" "greedy W" and "ar_state a = ExpectingHeader"
  shows "\<exists>a'. write_test_archive E W mk files a = Some (Ok (), a') \<and>
    sent (into_inner a') = written sent a @ archive_bytes (map (sample_entry mk) files)"
  using assms(1-3,6)
proof (induction files arbitrary: a)
  case Nil
  have "willing W" using sink(2) by (simp add: greedy_def)
  from finish_archive [OF Nil.prems(3) sink(1) this Nil.prems(4), of E] show ?case
    by (auto simp: archive_finish_def archive_bytes_def into_inner_def)
next
  case (Cons f files)
  obtain path n where f: "f = (path, n)" by (cases f)
  then have mem: "(path, n) \<in> set FILES" using Cons.prems(2) by simp
  note hdr = test_headersD [OF Cons.prems(1) mem]
  note hdrD = valid_headerD [OF hdr(1)]
  have willing: "willing W" using sink(2) by (simp add: greedy_def)
  let ?en = "\<lparr>en_header = mk path n\<rparr>"
  obtain ds where ds: "sample_entry mk (path, n) = (mk path n, ds)" "take n (make_entry_data n) = ds"
    by (simp add: sample_entry_def)
  have len: "length ds = n" "ds \<noteq> []" using hdr(5,7) ds by simp_all
  from write_header [OF Cons.prems(3) sink(1) willing Cons.prems(4) hdrD(1) hdr(2) hdrD(4)] obtain a1
    where a1: "poll_write_header E W (mk path n) a = Some (Ok (), a1)" "archive_wf a1"
      "ar_state a1 = ReceivingData (word_of_nat n)" "written sent a1 = written sent a @ mk path n" .
  have "hdr_entry_size E (en_header ?en) = Inr (word_of_nat n)" using hdrD(4) by simp
  from entry_write_greedy [OF a1(2) sink a1(3) len(2) _ this hdrD(6)] len(1) hdr(8) obtain a2
    where a2: "entry_poll_write E W ?en ds a1 = Some (Ok n, a2)" "archive_wf a2"
      "ar_state a2 = ExpectingHeader"
      "written sent a2 = written sent a1 @ ds @ replicate (padding 512 n) 0"
    by (metis order_refl)
  have "n \<le> length (make_entry_data n)" by simp
  then have step: "write_test_archive E W mk (f # files) a = write_test_archive E W mk files a2"
    using a1(1) a2(1) hdrD(5) ds(2) by (simp add: f add_entry_def slice_in_range)
  obtain a3 where a3: "write_test_archive E W mk files a2 = Some (Ok (), a3)"
    "sent (into_inner a3) = written sent a2 @ archive_bytes (map (sample_entry mk) files)"
    using Cons.IH [OF Cons.prems(1) _ a2(2,3)] Cons.prems(2) by auto
  with step a1(4) a2(4) show ?case
    by (simp add: f archive_bytes_simps ds(1) len(1))
qed

lemma write_tests_pass:
  assumes "test_headers E mk" and sink: "appends W sent" "greedy W" and "sent io = []"
  shows "write_test_basic E W sent io mk = Some (Ok ())"
    and "write_test_overlapping_entries E W io mk = Some (Ok ())"
proof -
  show "write_test_basic E W sent io mk = Some (Ok ())"
    unfolding write_test_basic_def Let_def
  proof (rule for_each_ok, rule with_archive_ok, goal_cases)
    case (3 cap a)
    then have "written sent a = []" using assms(4) by (simp add: written_def)
    with write_test_archive_ok [OF assms(1) order_refl 3(2) sink 3(3)] obtain a'
      where "write_test_archive E W mk FILES a = Some (Ok (), a')"
        "sent (into_inner a') = make_archive_data mk FILES"
      by (auto simp: make_archive_data_layout)
    then show ?case by (simp add: assert_is_ok_def)
  qed auto
  show "write_test_overlapping_entries E W io mk = Some (Ok ())"
    unfolding write_test_overlapping_entries_def
  proof (rule for_each_ok, rule with_archive_ok, goal_cases)
    case (3 cap a)
    note a = 3(2,3)
    have mem: "(''512'', 512) \<in> set FILES" by (simp add: FILES_def)
    note hdr = test_headersD [OF assms(1) mem]
    note hdrD = valid_headerD [OF hdr(1)]
    have willing: "willing W" using sink(2) by (simp add: greedy_def)
    let ?hdr = "mk ''512'' 512" and ?buf = "take 100 (make_entry_data 512)"
    let ?en = "\<lparr>en_header = ?hdr\<rparr>"
    from write_header [OF a(1) sink(1) willing a(2) hdrD(1) hdr(2) hdrD(4)] obtain a1
      where a1: "poll_write_header E W ?hdr a = Some (Ok (), a1)" "archive_wf a1"
        "ar_state a1 = ReceivingData (word_of_nat 512)" .
    have buf: "length ?buf = 100" by (simp add: padding_def)
    then have ne: "?buf \<noteq> []" by (metis list.size(3) zero_neq_numeral)
    have le: "length ?buf \<le> unat (word_of_nat 512 :: u64)" using buf by simp
    have size: "hdr_entry_size E (en_header ?en) = Inr (word_of_nat 512)" using hdrD(4) by simp
    from entry_write_greedy [OF a1(2) sink a1(3) ne le size hdrD(6)] obtain a2
      where k: "entry_poll_write E W ?en ?buf a1 = Some (Ok (length ?buf), a2)"
      "length ?buf < unat (word_of_nat 512 :: u64) \<Longrightarrow>
        ar_state a2 = ReceivingData (word_of_nat 512 - word_of_nat (length ?buf))"
      by metis
    with k(2) buf have "poll_write_header E W hdr' a2 =
        Some (Err (write_error_into OverlappingEntry), a2)" for hdr'
      by (simp add: poll_write_header.simps [of E W hdr' a2])
    with a1(1) k(1) [unfolded buf] hdrD(5) show ?case
      by (simp add: file_at_def FILES_def add_entry_def slice_in_range padding_def assert_err_kind_def
          write_error_into_def)
  qed auto
qed

section \<open>The property\<close>

lemma test_data_length:
  assumes "test_headers E mk"
  shows "length (make_archive_data mk FILES) = 6144"
proof -
  have "\<forall>(path, n)\<in>set FILES. length (mk path n) = 512"
    using test_headersD(1) [OF assms] valid_headerD(1) by fast
  then show ?thesis
    by (simp add: make_archive_data_def FILES_def make_eof_data_def padding_def)
qed


text \<open>A header that stores the path and, in two bytes, the size; and a vector.\<close>

definition test_header :: "string \<Rightarrow> usize \<Rightarrow> header" where
  "test_header path n =
     map of_char path @ replicate (134 - length path) 0 @
     [word_of_nat (n div 256), word_of_nat (n mod 256)] @ replicate 376 0"

definition test_cfg :: cfg where
  "test_cfg = (sample_cfg True)
     \<lparr>hdr_entry_size := \<lambda>h. Inr (ucast (h ! 134) * 256 + ucast (h ! 135)),
      hdr_path_bytes := takeWhile (\<lambda>b. b \<noteq> 0)\<rparr>"

definition vec_writer :: "bytes writer" where
  "vec_writer =
     \<lparr>wr_poll_write = (\<lambda>w bs. (Ok (length bs), w @ bs)),
      wr_poll_write_vectored = (\<lambda>w bufs. (Ok (length (concat bufs)), w @ concat bufs)),
      wr_is_write_vectored = (\<lambda>w. True),
      wr_poll_flush = (\<lambda>w. (Ok (), w)), wr_poll_shutdown = (\<lambda>w. (Ok (), w))\<rparr>"

lemma vec_writer_appends: "appends vec_writer (\<lambda>w. w)"
  by (simp add: appends_def vec_writer_def)

lemma vec_writer_greedy: "greedy vec_writer"
  by (auto simp: greedy_def willing_def vec_writer_def)

lemma test_header_length: "length path < 134 \<Longrightarrow> length (test_header path n) = 512"
  by (simp add: test_header_def)

lemma test_headers_test_cfg: "test_headers test_cfg test_header"
  by (simp add: test_headers_def FILES_def valid_header_def test_header_length test_cfg_def)
    (simp add: test_header_def nth_append)


end
