(* ===== verification/Crate_Docs.thy ===== *)
theory Crate_Docs
  imports Archive_Tests Delays
begin

text \<open>
  The examples in the documentation of the crate (\<open>src/lib.rs\<close>), run on the model, and the
  asynchronous \<open>skip\<close>. The objects and the headers are parameters; an \<open>.await\<close> of the
  examples is one poll, as in the tests.
\<close>

section \<open>Skipping an entry\<close>

definition entry_skip ::
  "cfg \<Rightarrow> 'r reader \<Rightarrow> entry \<Rightarrow> 'r archive \<Rightarrow> (unit outcome \<times> 'r archive) option" where
  "entry_skip E read en a = await (entry_poll_skip E read en) a"

section \<open>The example of writing\<close>

definition doc_files :: "(string \<times> string) list" where
  "doc_files = [(''hello.txt'', ''hello world!'')]"

text \<open>
  Making the header sets the path, which can fail, the size and the checksum. The number of
  bytes a write accepted is ignored.
\<close>

fun doc_write_files ::
  "cfg \<Rightarrow> 'w writer \<Rightarrow> (string \<Rightarrow> usize \<Rightarrow> header outcome) \<Rightarrow> (string \<times> string) list \<Rightarrow>
    'w archive \<Rightarrow> (unit outcome \<times> 'w archive) option" where
  "doc_write_files E W make_header [] a = Some (Ok (), a)"
| "doc_write_files E W make_header ((path, contents) # files) a =
     loop_then (make_header path (length contents), a) (\<lambda>header a.
     Option.bind (add_entry E W header a) (\<lambda>r.
     loop_then r (\<lambda>en a.
     Option.bind (entry_poll_write E W en (map of_char contents) a) (\<lambda>r.
     loop_then r (\<lambda>_ a. doc_write_files E W make_header files a)))))"

definition doc_write_example ::
  "cfg \<Rightarrow> 'w writer \<Rightarrow> (string \<Rightarrow> usize \<Rightarrow> header outcome) \<Rightarrow> 'w \<Rightarrow> (unit outcome \<times> 'w) option"
  where
  "doc_write_example E W make_header io =
     loop_then (archive_new io, io) (\<lambda>a io.
     Option.bind (doc_write_files E W make_header doc_files a) (\<lambda>r.
     map_option (map_prod id into_inner) (loop_then r (\<lambda>_ a. archive_finish E W a))))"

section \<open>The example of reading\<close>

text \<open>The buffer has room for 100 bytes; what is read is left to the reader of the example.\<close>

partial_function (option) doc_read_entry ::
  "cfg \<Rightarrow> 'r reader \<Rightarrow> entry \<Rightarrow> 'r archive \<Rightarrow> (unit outcome \<times> 'r archive) option" where
  "doc_read_entry E read en a =
     loop_then (entry_poll_read E read en 100 a) (\<lambda>bs a.
       if length bs = 0 then Some (Ok (), a) else doc_read_entry E read en a)"

partial_function (option) doc_read_entries ::
  "cfg \<Rightarrow> 'r reader \<Rightarrow> 'r archive \<Rightarrow> (unit outcome \<times> 'r archive) option" where
  "doc_read_entries E read a =
     loop_then (next_entry_poll E read a) (\<lambda>e a. case e of
         Some en \<Rightarrow>
           Option.bind (doc_read_entry E read en a) (\<lambda>r.
             loop_then r (\<lambda>_ a. doc_read_entries E read a))
       | None \<Rightarrow> Some (Ok (), a))"

declare doc_read_entry.simps [simp del] doc_read_entries.simps [simp del]

definition doc_read_example :: "cfg \<Rightarrow> 'r reader \<Rightarrow> 'r \<Rightarrow> (unit outcome \<times> 'r) option" where
  "doc_read_example E read io =
     loop_then (archive_new io, io) (\<lambda>a io.
     map_option (map_prod id into_inner) (doc_read_entries E read a))"

section \<open>The examples work\<close>

lemma archive_new_start:
  obtains a where "archive_new io = Ok a" and "archive_wf a" and "ar_state a = ExpectingHeader"
    and "ar_io a = io" and "ar_bytes a = []" and "archive_with_capacity io 8 = Ok a"
proof (rule archive_with_capacity_Ok [of 8 io])
  fix a
  assume "archive_with_capacity io 8 = Ok a" "archive_wf a" "ar_state a = ExpectingHeader"
    "ar_io a = io" "ar_bytes a = []"
  then show thesis
    by (intro that) (simp_all add: archive_new_def DEFAULT_BUFFER_CAPACITY_def non_zero_def)
qed (simp_all add: usize_max_def usize_bits_def)

text \<open>An object like the vector of the example takes every file in one write.\<close>

lemma doc_write_files_ok:
  assumes "list_all (\<lambda>(path, contents). contents \<noteq> [] \<and> length contents < 2 ^ 64 \<and>
      make_header path (length contents) = Ok (mk path) \<and>
      valid_header E (mk path) (word_of_nat (length contents)) \<and> mk path ! 0 \<noteq> 0) files"
    and "archive_wf a" and sink: "appends W sent" "greedy W" and "ar_state a = ExpectingHeader"
  shows "\<exists>a'. doc_write_files E W make_header files a = Some (Ok (), a') \<and> archive_wf a' \<and>
    ar_state a' = ExpectingHeader \<and> written sent a' = written sent a @
      concat (map (\<lambda>(path, contents). entry_bytes (mk path, map of_char contents)) files)"
  using assms(1,2,5)
proof (induction files arbitrary: a)
  case (Cons f files)
  obtain path contents where f: "f = (path, contents)" by (cases f)
  let ?n = "length contents" and ?hdr = "mk path" and ?ds = "map of_char contents :: bytes"
  let ?en = "\<lparr>en_header = ?hdr\<rparr>"
  have contents: "contents \<noteq> []" "?n < 2 ^ 64" "make_header path ?n = Ok ?hdr"
      "valid_header E ?hdr (word_of_nat ?n)" "?hdr ! 0 \<noteq> 0"
    using Cons.prems(1) f by simp_all
  note hdrD = valid_headerD [OF contents(4)]
  have n: "unat (word_of_nat ?n :: u64) = ?n"
    using contents(2) by (simp add: unsigned_of_nat take_bit_nat_eq_self)
  have willing: "willing W" using sink(2) by (simp add: greedy_def)
  from write_header [OF Cons.prems(2) sink(1) willing Cons.prems(3) hdrD(1) contents(5) hdrD(4)] obtain a1
    where a1: "poll_write_header E W ?hdr a = Some (Ok (), a1)" "archive_wf a1"
      "ar_state a1 = ReceivingData (word_of_nat ?n)" "written sent a1 = written sent a @ ?hdr" .
  have ds: "?ds \<noteq> []" "length ?ds = unat (word_of_nat ?n :: u64)"
    using contents(1) n by simp_all
  have "hdr_entry_size E (en_header ?en) = Inr (word_of_nat ?n)" using hdrD(4) by simp
  from entry_write_greedy [OF a1(2) sink a1(3) ds(1) eq_refl [OF ds(2)] this hdrD(6)] n obtain a2
    where a2: "entry_poll_write E W ?en ?ds a1 = Some (Ok ?n, a2)" "archive_wf a2"
      "ar_state a2 = ExpectingHeader"
      "written sent a2 = written sent a1 @ ?ds @ replicate (padding 512 ?n) 0"
    by (metis length_map)
  have step: "doc_write_files E W make_header (f # files) a = doc_write_files E W make_header files a2"
    using contents(3) a1(1) a2(1) hdrD(5) by (simp add: f add_entry_def)
  obtain a3 where "doc_write_files E W make_header files a2 = Some (Ok (), a3)" "archive_wf a3"
    "ar_state a3 = ExpectingHeader" "written sent a3 = written sent a2 @
      concat (map (\<lambda>(path, contents). entry_bytes (mk path, map of_char contents)) files)"
    using Cons.IH [OF _ a2(2,3)] Cons.prems(1) by auto
  with step a1(4) a2(4) show ?case by (simp add: f entry_bytes_def)
qed simp

lemma doc_write_example_encodes:
  assumes "appends W sent" and "greedy W"
    and "make_header ''hello.txt'' 12 = Ok hdr" and "valid_header E hdr 12" and "hdr ! 0 \<noteq> 0"
  shows "\<exists>io'. doc_write_example E W make_header io = Some (Ok (), io') \<and>
    sent io' = sent io @ archive_bytes [(hdr, map of_char ''hello world!'')]"
proof -
  obtain a where a: "archive_new io = Ok a" "archive_wf a" "ar_state a = ExpectingHeader"
      "ar_io a = io" "ar_bytes a = []"
    by (rule archive_new_start)
  define contents where "contents = ''hello world!''"
  have contents: "contents \<noteq> []" "length contents = 12" "doc_files = [(''hello.txt'', contents)]"
    by (simp_all add: contents_def doc_files_def)
  have "list_all (\<lambda>(path, contents). contents \<noteq> [] \<and> length contents < 2 ^ 64 \<and>
      make_header path (length contents) = Ok hdr \<and>
      valid_header E hdr (word_of_nat (length contents)) \<and> hdr ! 0 \<noteq> 0) doc_files"
    unfolding contents(3) using assms(3-5) contents(1,2) by simp
  from doc_write_files_ok [OF this a(2) assms(1,2) a(3)] obtain a1
    where a1: "doc_write_files E W make_header doc_files a = Some (Ok (), a1)" "archive_wf a1"
      "ar_state a1 = ExpectingHeader"
      "written sent a1 = sent io @ entry_bytes (hdr, map of_char contents)"
    using a(4,5) unfolding contents(3) by (auto simp: written_def)
  have "willing W" using assms(2) by (simp add: greedy_def)
  from finish_archive [OF a1(2) assms(1) this a1(3)] obtain a2
    where "poll_finish E W a1 = Some (Ok (), a2)" "sent (ar_io a2) = written sent a1 @ make_eof_data" .
  with a(1) a1(1,4) show ?thesis
    unfolding contents_def [symmetric]
    by (simp add: doc_write_example_def archive_finish_def into_inner_def archive_bytes_def)
qed

text \<open>The example of reading goes through the same calls as the client of the tests.\<close>

lemma doc_read_entry_all:
  assumes "read_entry_all E read en 100 acc a = Some (Ok ds, a')"
  shows "doc_read_entry E read en a = Some (Ok (), a')"
proof -
  have "\<forall>ds a'. room = 100 \<longrightarrow> y = (Ok ds, a') \<longrightarrow> doc_read_entry E read en a = Some (Ok (), a')"
    if "read_entry_all E read en room acc a = Some y" for room y
  proof (rule read_entry_all.raw_induct [OF _ that], intro allI impI, goal_cases)
    case (1 f E read en room acc a y ds a')
    show ?case
    proof (cases "entry_poll_read E read en 100 a")
      case (Pair r b)
      with 1 show ?thesis
        by (cases r) (auto simp: doc_read_entry.simps [of E read en a] split: if_splits)
    qed
  qed
  with assms show ?thesis by blast
qed

lemma doc_read_entries_all:
  assumes "read_archive E read 100 acc a = Some (Ok es, a')"
  shows "\<exists>b. doc_read_entries E read a = Some (Ok (), b)"
proof -
  have "\<forall>es a'. room = 100 \<longrightarrow> y = (Ok es, a') \<longrightarrow> (\<exists>b. doc_read_entries E read a = Some (Ok (), b))"
    if "read_archive E read room acc a = Some y" for room y
  proof (rule read_archive.raw_induct [OF _ that], intro allI impI, goal_cases)
    case (1 f E read room acc a y es a')
    obtain r b where r: "next_entry_poll E read a = (r, b)" by fastforce
    show ?case
    proof (cases "\<exists>en. r = Ok (Some en)")
      case True
      then obtain en where en: "r = Ok (Some en)" ..
      with 1 r obtain r2 c where r2: "read_entry_all E read en 100 [] b = Some (r2, c)"
        and loop: "loop_then (r2, c) (\<lambda>bs a. f E read room (acc @ [(en, bs)]) a) = Some (Ok es, a')"
        by (auto simp: bind_eq_Some_conv)
      obtain bs where bs: "r2 = Ok bs" "f E read room (acc @ [(en, bs)]) c = Some (Ok es, a')"
        using loop by (cases r2) auto
      from 1(1) [OF bs(2)] 1(3) obtain d where "doc_read_entries E read c = Some (Ok (), d)" by blast
      with doc_read_entry_all [OF r2 [unfolded bs(1)]] r en show ?thesis
        by (simp add: doc_read_entries.simps [of E read a])
    next
      case False
      with 1(2,4) r show ?thesis
        by (cases r) (auto simp: doc_read_entries.simps [of E read a] split: option.splits)
    qed
  qed
  with assms show ?thesis by blast
qed

lemma doc_read_example_ends:
  assumes "block_source read rest" and "list_all (entry_fits E) es"
    and "rest io = archive_bytes es @ tail"
  shows "\<exists>io'. doc_read_example E read io = Some (Ok (), io')"
proof -
  obtain a where a: "archive_new io = Ok a" "archive_with_capacity io 8 = Ok a"
    by (rule archive_new_start)
  have "\<exists>a a'. archive_with_capacity io 8 = Ok a \<and>
      read_archive E read 100 [] a =
        Some (Ok (map (\<lambda>e. (\<lparr>en_header = fst e\<rparr>, snd e)) es), a') \<and> unread rest a' = tail"
    by (rule read_archive_whole [OF assms(1) _ _ _ assms(2,3)])
      (simp_all add: usize_max_def usize_bits_def)
  with a doc_read_entries_all show ?thesis
    by (fastforce simp: doc_read_example_def)
qed

end
