(* ===== verification/Spec2Isabelle.thy ===== *)
theory Spec2Isabelle
  imports Round_Trip Reading_Data Writing_Layout Writer_Waiting Waiting_Client
    Unit_Tests Archive_Tests Crate_Docs
begin

text \<open>
  A verification development for \<open>tario\<close>, a Rust library that reads and writes TAR archives
  over asynchronous I/O objects. The sources are those under \<open>src/\<close> of the crate.

  \<^bold>\<open>The program.\<close> A TAR stream is a sequence of 512-byte blocks: every entry is a header block,
  its data and zero bytes up to the next block; two zero blocks end the archive. An \<open>Archive\<close>
  couples an I/O object with a buffer of a whole number of blocks and a position in the
  stream. Both directions share the position machine: the reader asks it how far the buffered
  bytes go in the current phase, the writer asks it whether what the client offers fits.
  Entries are handles that borrow the archive, so there is one at a time.

  \<^bold>\<open>Theories and the code they model.\<close>

  \<^item> \<open>Prelude\<close>: machine integers, the outcome of a function (a value, an \<open>io::Error\<close>,
    \<open>Poll::Pending\<close> or a panic), the \<open>?\<close> operator with and without state, slices that panic
    out of range, and the lemmas and collections everything else uses.
  \<^item> \<open>Blocks\<close> (\<open>shared/block.rs\<close>): blocks, the checksum and the check of a header. The header
    type is that of the \<open>tar\<close> crate: the record \<open>cfg\<close> holds its field readers as parameters,
    with the flag for debug assertions and overflow checks.
  \<^item> \<open>Machine\<close> (\<open>shared/state.rs\<close>): \<open>state\<close> with the constructors of \<open>State\<close>, \<open>state_next\<close>
    for \<open>next\<close>, and the drivers \<open>take_until\<close>, \<open>take_slices\<close> and \<open>take_marker\<close>.
  \<^item> \<open>Slices\<close> (\<open>shared/slices.rs\<close>): prefixes and suffixes of arrays of \<open>IoSlice\<close>, splitting at
    a byte offset, and the byte-limited iterators. The locale \<open>slices_trait\<close> is the contract of
    the trait \<open>Slices\<close>, interpreted for both implementations; its extension
    \<open>splitting_slices_trait\<close>, about the suffix too, holds for arrays only.
  \<^item> \<open>Buffers\<close> (\<open>shared/buffer.rs\<close>): \<open>Buf\<close>, \<open>Region\<close> and \<open>RegionMut\<close>. The locales
    \<open>readable_region\<close> and \<open>writable_region\<close> are the traits, and \<open>byte_queue\<close> is what the archive
    relies on; all are interpreted on the model of the code.
  \<^item> \<open>Archives\<close> (\<open>lib.rs\<close>): \<open>Archive\<close>, \<open>Entry\<close>, their construction and accessors, and
    \<open>archive_wf\<close>, the invariant of every operation.
  \<^item> \<open>Lossy_Paths\<close>: \<open>path_lossy\<close>, with the decoding of UTF-8 of the standard library.
  \<^item> \<open>Format\<close>: the layout of an archive (\<open>archive_bytes\<close>), the abstract specification of both
    directions, as the helpers in \<open>shared/test.rs\<close> build it. \<open>Positions\<close>: the meaning of a
    state, as the relation \<open>position\<close> between the bytes taken, the headers among them and the
    state, which every transition of the machine keeps.
  \<^item> \<open>Reader\<close> (\<open>read/mod.rs\<close>, \<open>read/error.rs\<close>) and \<open>Writer\<close> (\<open>write/mod.rs\<close>,
    \<open>write/error.rs\<close>, the futures of \<open>lib.rs\<close>): every operation, one definition each, with the
    underlying object as a parameter (a \<open>reader\<close> function, a record of \<open>writer\<close> functions).
  \<^item> \<open>Reading\<close>, \<open>Decoding\<close>, \<open>Edge_Cases\<close>, \<open>Reading_Safety\<close>, \<open>Reader_Calls\<close>,
    \<open>Reading_Layout\<close>, \<open>Reading_Data\<close>, \<open>Waiting\<close>, \<open>Waiting_Client\<close>: what the reader does. \<open>Writing\<close>,
    \<open>Encoding\<close>, \<open>Writer_Limits\<close>, \<open>Writer_Invariants\<close>, \<open>Writing_Safety\<close>, \<open>Writer_Calls\<close>,
    \<open>Writing_Layout\<close>, \<open>Writer_Waiting\<close>: what the writer does. The locales of
    \<open>Writer_Invariants\<close> say which steps a property of the archive must survive to survive the
    loops; they are interpreted for the stream that grows and for the position in the layout.
    \<open>Delays\<close>: objects that are not ready, for both. \<open>Round_Trip\<close>: both together.
  \<^item> \<open>Test_Data\<close> (\<open>shared/test.rs\<close>), \<open>Unit_Tests\<close> (the test modules of \<open>block.rs\<close>, \<open>state.rs\<close>,
    \<open>buffer.rs\<close> and \<open>slices.rs\<close>) and \<open>Archive_Tests\<close> (\<open>read/tests.rs\<close>, \<open>write/tests.rs\<close>): the
    tests of the crate as computations that panic where an assertion fails. \<open>Crate_Docs\<close>
    (\<open>lib.rs\<close>): the examples of its documentation, and the asynchronous \<open>skip\<close>.

  \<^bold>\<open>What is shown.\<close>

  \<^item> The position machine does not depend on how the bytes are cut into slices, follows the
    layout from header to header and to the end, always stands for the bytes it has taken
    (\<open>take_slices_keeps_position\<close>) and rejects a second final block that is not empty;
    consuming a marker explicitly changes nothing about what is read.
  \<^item> Splitting arrays of slices partitions their bytes; the buffer is a first-in first-out
    queue; the checksum does not wrap and detects every change of one byte outside its field.
  \<^item> Reading refines the layout: from every source of whole blocks exactly the entries of the
    archive are decoded, where an entry that is skipped has data; a truncated archive is
    always an error. Over any source that loses nothing, also one that fails or is not ready,
    what is taken, buffered and remaining makes up the stream (\<open>reading_loses_nothing\<close>), every
    entry handed out has a verified header, and the end of the archive is final. Where the source
    is read in whole blocks, and whatever calls a client makes that do not panic
    (\<open>reading_run\<close>), the bytes taken and the state are a position in the layout whose headers
    are those of the entries handed out, with one more where the last call was interrupted, and
    where there is no further entry they are a whole archive. What such a client is given through
    the handle of an entry (\<open>delivering_run\<close>) is the data of that entry in the stream: none
    lost, none twice, in order (\<open>reading_delivers_data\<close>). Waiting does not change a result: a
    call that is polled until it answers, and a whole client that does so, gets what it would
    get from a source that is always ready.
  \<^item> Writing refines the layout: through every object that goes on accepting bytes, exactly the
    layout of entries that are \<open>writable\<close> is sent. Over any object that appends what it
    accepts, the stream only grows at its end, and a successful \<open>add_entry\<close> or \<open>finish\<close> has written exactly the bytes it stands for.
    Whatever calls a client makes (\<open>writing_run\<close>, which leaves out those named below), the
    stream and the state are a position in the layout, and once the archive is finished without an error they are an archive with
    exactly the entries handed out.
    Waiting does not change a result either, but for a write that completes an entry or offers
    more than is missing.
    Reading what was written returns it.
  \<^item> The tests of the crate but one pass on the model, over every object that behaves as theirs do,
    and so do the examples of its documentation.
  \<^item> The limits of the code, each as a theorem about its model: where it panics instead of
    failing (a header that arrives in pieces, an unreadable size, skipping an empty entry,
    reading past the end, an empty entry, a retried header or write), where it does not end
    (finishing over a full object), where it writes what it should not (an unchecked header,
    a header continued by another), where it hides an error of the object, and where a suffix or
    a 32-bit counter loses data.

  \<^bold>\<open>Loops.\<close> The loops of the machine, of the slices, of the reader and of the flush are
  \<open>function\<close>s with a measure: \<open>idle_rank\<close> with the bytes left for the machine, \<open>read_rank\<close> for
  the reader, the bytes left in the region for the flush. The loops of the writer and of the
  clients are bounded by nothing but the object, so they are partial functions into an option:
  \<open>None\<close> is a loop that does not end, and the theorems say where there is a result. No fuel is
  used.

  \<^bold>\<open>Assumptions.\<close> A \<open>usize\<close> has 64 bits (\<open>usize_bits\<close>), except in the one theorem about 32
  bits, and lengths of slices in memory are natural numbers. Allocation succeeds: that \<open>vec!\<close>
  also panics for a buffer of more than \<open>isize::MAX\<close> bytes, or aborts where there is no memory, is
  not modelled, only the overflow of the product. What the theorems suppose of the
  objects is in named predicates: \<open>sequential\<close>, \<open>block_source\<close>, \<open>lossless\<close> and
  \<open>lossless_blocks\<close> (a source that is read in whole blocks but for its end; \<open>split_header\<close> says
  why) for sources,
  \<open>appends\<close>, \<open>willing\<close>, \<open>greedy\<close>, \<open>steady\<close>, \<open>full\<close> and \<open>not_ready\<close> for sinks; \<open>test_headers\<close>
  says what the tests rely on of the headers the \<open>tar\<close> crate makes. \<open>writable\<close> leaves out what the writer
  cannot write: entries without data and headers whose first byte is zero. A run of calls leaves out
  those that panic, and one that adds an entry with another header after a call that was
  interrupted in the header: \<open>add_entry_sound\<close> says what that would write.

  \<^bold>\<open>Not modelled.\<close> The header fields of the \<open>tar\<close> crate and the I/O objects are parameters. Pin
  projections, the lifetimes of handles and the auto traits have no behaviour. The traces and
  the derived \<open>Debug\<close> of the handles only print. The test \<open>unexpected_eof\<close> uses \<open>read_exact\<close> of
  another crate; \<open>read_archive_truncated\<close> states what it tests for every cut.
\<close>

end
